theory Spec2Isabelle
  imports Complex_Main "HOL-Library.Word"
begin

unbundle bit_operations_syntax

section \<open>Bytes, windows and files\<close>

text \<open>
  The tool reads table and log files byte by byte.  A C pointer into a buffer is
  modelled as a memory function from offsets to bytes together with an offset
  \<open>ptr\<close>; the memory is total, so whatever lies behind the end of a buffer is
  some arbitrary byte, and a decoder that is window-bounded is one whose result
  does not depend on those bytes.  Sizes of type \<open>size_t\<close> are natural numbers:
  every subtraction from \<open>remaining\<close> in the source is guarded by a comparison
  that excludes underflow, and the guards are part of the model.
\<close>

type_synonym u8 = "8 word"
type_synonym u32 = "32 word"
type_synonym u64 = "64 word"
type_synonym memory = "nat \<Rightarrow> u8"

definition TDB_KV_FLAG_TOMBSTONE :: u8 where "TDB_KV_FLAG_TOMBSTONE = 0x01"
definition TDB_KV_FLAG_HAS_TTL :: u8 where "TDB_KV_FLAG_HAS_TTL = 0x02"
definition TDB_KV_FLAG_HAS_VLOG :: u8 where "TDB_KV_FLAG_HAS_VLOG = 0x04"
definition TDB_KV_FLAG_DELTA_SEQ :: u8 where "TDB_KV_FLAG_DELTA_SEQ = 0x08"

definition ADMINTOOL_DEFAULT_DUMP_LIMIT :: int where
  "ADMINTOOL_DEFAULT_DUMP_LIMIT = 1000"

definition ADMINTOOL_LARGE_FILE_THRESHOLD :: int where
  "ADMINTOOL_LARGE_FILE_THRESHOLD = 100 * 1024 * 1024"

section \<open>Varint codec\<close>

text \<open>
  \<open>decode_varint_safe(data, value, max_bytes)\<close>: the loop state is the index
  \<open>i\<close>, the shift and the accumulated \<open>*value\<close>.  The result is the returned
  \<open>int\<close> (\<open>-1\<close> on failure) with the final content of \<open>*value\<close>, which the
  source writes on failure too.  The shift reaches 63 at most, and a shift of a
  \<open>uint64_t\<close> drops the bits that leave the word, as \<open>push_bit\<close> on a 64-bit
  word does.
\<close>

function dvs_loop :: "memory \<Rightarrow> nat \<Rightarrow> nat \<Rightarrow> nat \<Rightarrow> u64 \<Rightarrow> int \<times> u64" where
  "dvs_loop data max_bytes i shift v =
     (if i < max_bytes \<and> i < 10 then
        (let byte = data i;
             v' = v OR push_bit shift (ucast (byte AND 0x7F));
             i' = i + 1
         in if byte AND 0x80 = 0 then (int i', v')
            else dvs_loop data max_bytes i' (shift + 7) v')
      else (-1, v))"
  by pat_completeness auto
termination
  by (relation "measure (\<lambda>(data, max_bytes, i, shift, v). 10 - i)") auto

definition decode_varint_safe :: "memory \<Rightarrow> nat \<Rightarrow> int \<times> u64" where
  "decode_varint_safe data max_bytes = dvs_loop data max_bytes 0 0 0"

declare dvs_loop.simps [simp del]

lemma dvs_loop_frame:
  "(\<And>j. i \<le> j \<Longrightarrow> j < min max_bytes 10 \<Longrightarrow> data j = data' j) \<Longrightarrow>
   dvs_loop data max_bytes i shift v = dvs_loop data' max_bytes i shift v"
proof (induction data max_bytes i shift v rule: dvs_loop.induct)
  case (1 data max_bytes i shift v)
  note unfold = dvs_loop.simps [of data max_bytes i shift v]
    dvs_loop.simps [of data' max_bytes i shift v]
  show ?case
  proof (cases "i < max_bytes \<and> i < 10")
    case False
    then show ?thesis
      unfolding unfold by auto
  next
    case True
    then have same: "data' i = data i"
      using "1.prems" [of i] by simp
    show ?thesis
    proof (cases "data i AND 0x80 = 0")
      case stop: True
      with True same show ?thesis
        unfolding unfold by (simp add: Let_def)
    next
      case more: False
      have "dvs_loop data max_bytes (i + 1) (shift + 7)
              (v OR push_bit shift (ucast (data i AND 0x7F))) =
            dvs_loop data' max_bytes (i + 1) (shift + 7)
              (v OR push_bit shift (ucast (data i AND 0x7F)))"
        using "1.IH" [OF True refl refl refl more] "1.prems" by simp
      with True same more show ?thesis
        unfolding unfold by (simp add: Let_def)
    qed
  qed
qed

lemma dvs_loop_ret:
  "fst (dvs_loop data max_bytes i shift v) = -1 \<or>
   (int i < fst (dvs_loop data max_bytes i shift v) \<and>
    fst (dvs_loop data max_bytes i shift v) \<le> int (min max_bytes 10))"
proof (induction data max_bytes i shift v rule: dvs_loop.induct)
  case (1 data max_bytes i shift v)
  note unfold = dvs_loop.simps [of data max_bytes i shift v]
  show ?case
  proof (cases "i < max_bytes \<and> i < 10")
    case False
    then show ?thesis
      unfolding unfold by auto
  next
    case True
    show ?thesis
    proof (cases "data i AND 0x80 = 0")
      case stop: True
      with True show ?thesis
        unfolding unfold by (auto simp: Let_def)
    next
      case more: False
      from "1.IH" [OF True refl refl refl more] True more show ?thesis
        unfolding unfold by (auto simp: Let_def)
    qed
  qed
qed

lemma decode_varint_safe_ret:
  "fst (decode_varint_safe data max_bytes) = -1 \<or>
   (1 \<le> fst (decode_varint_safe data max_bytes) \<and>
    fst (decode_varint_safe data max_bytes) \<le> int (min max_bytes 10))"
  using dvs_loop_ret [of data max_bytes 0 0 0]
  by (auto simp: decode_varint_safe_def)

lemma decode_varint_safe_frame:
  "(\<And>j. j < min max_bytes 10 \<Longrightarrow> data j = data' j) \<Longrightarrow>
   decode_varint_safe data max_bytes = decode_varint_safe data' max_bytes"
  unfolding decode_varint_safe_def by (rule dvs_loop_frame) simp

section \<open>Record decoding\<close>

text \<open>
  Every decoder of the tool repeats one idiom after each varint:
  \<^verbatim>\<open>if (bytes_read < 0 || (size_t)bytes_read > remaining) break;
  ptr += bytes_read; remaining -= bytes_read;\<close>
  \<open>take_varint\<close> is that idiom: \<open>None\<close> is the \<open>break\<close>, otherwise the decoded
  value with the advanced pointer and the reduced budget.
\<close>

definition take_varint :: "memory \<Rightarrow> nat \<Rightarrow> nat \<Rightarrow> (u64 \<times> nat \<times> nat) option" where
  "take_varint mem ptr remaining =
     (let (bytes_read, v) = decode_varint_safe (\<lambda>i. mem (ptr + i)) remaining
      in if bytes_read < 0 \<or> nat bytes_read > remaining then None
         else Some (v, ptr + nat bytes_read, remaining - nat bytes_read))"

definition window_bytes :: "memory \<Rightarrow> nat \<Rightarrow> nat \<Rightarrow> u8 list" where
  "window_bytes mem ptr n = map (\<lambda>i. mem (ptr + i)) [0..<n]"

text \<open>
  \<open>memcpy(&ttl, ptr, sizeof(int64_t))\<close>: the eight bytes at \<open>ptr\<close>, read as a
  little-endian 64-bit integer (the layout the specification gives the TTL field).
\<close>

definition load_int64 :: "memory \<Rightarrow> nat \<Rightarrow> u64" where
  "load_int64 mem ptr =
     foldr (\<lambda>b acc. ucast b OR push_bit 8 acc) (window_bytes mem ptr 8) 0"

text \<open>
  What a decoder holds in its local variables when it prints a record.  The key and
  the inline value are the bytes the pointers \<open>key\<close> and \<open>value\<close> designate, with
  the lengths \<open>key_size\<close> and \<open>value_size\<close>; \<open>e_value = None\<close> is \<open>value == NULL\<close>.
\<close>

record kv_entry =
  e_flags :: u8
  e_key_size :: u64
  e_value_size :: u64
  e_seq_value :: u64
  e_seq :: u64
  e_ttl :: u64
  e_vlog_offset :: u64
  e_key :: "u8 list"
  e_value :: "u8 list option"

text \<open>
  One iteration of the inner loop of \<open>cmd_sstable_dump\<close>, from the flags byte to
  the value; \<open>None\<close> is a \<open>break\<close>.  The result carries the advanced pointer, the
  reduced budget and the new \<open>prev_seq\<close>.
\<close>

definition dump_record ::
  "memory \<Rightarrow> nat \<Rightarrow> nat \<Rightarrow> u64 \<Rightarrow> (kv_entry \<times> nat \<times> nat \<times> u64) option" where
  "dump_record mem ptr0 remaining0 prev_seq =
     (let flags = mem ptr0; ptr1 = ptr0 + 1; remaining1 = remaining0 - 1 in
      case take_varint mem ptr1 remaining1 of None \<Rightarrow> None
      | Some (key_size, ptr2, remaining2) \<Rightarrow>
      case take_varint mem ptr2 remaining2 of None \<Rightarrow> None
      | Some (value_size, ptr3, remaining3) \<Rightarrow>
      case take_varint mem ptr3 remaining3 of None \<Rightarrow> None
      | Some (seq_value, ptr4, remaining4) \<Rightarrow>
      let seq = (if flags AND TDB_KV_FLAG_DELTA_SEQ \<noteq> 0 then prev_seq + seq_value
                 else seq_value) in
      case (if flags AND TDB_KV_FLAG_HAS_TTL \<noteq> 0 then
              (if remaining4 < 8 then None
               else Some (load_int64 mem ptr4, ptr4 + 8, remaining4 - 8))
            else Some (0, ptr4, remaining4)) of None \<Rightarrow> None
      | Some (ttl, ptr5, remaining5) \<Rightarrow>
      case (if flags AND TDB_KV_FLAG_HAS_VLOG \<noteq> 0 then take_varint mem ptr5 remaining5
            else Some (0, ptr5, remaining5)) of None \<Rightarrow> None
      | Some (vlog_offset, ptr6, remaining6) \<Rightarrow>
      if remaining6 < unat key_size then None
      else
        let key = ptr6; ptr7 = ptr6 + unat key_size;
            remaining7 = remaining6 - unat key_size in
        case (if flags AND TDB_KV_FLAG_HAS_VLOG = 0 \<and> value_size > 0 then
                (if remaining7 < unat value_size then None
                 else Some (Some ptr7, ptr7 + unat value_size, remaining7 - unat value_size))
              else Some (None, ptr7, remaining7)) of None \<Rightarrow> None
        | Some (value, ptr8, remaining8) \<Rightarrow>
          Some (\<lparr>e_flags = flags, e_key_size = key_size, e_value_size = value_size,
                  e_seq_value = seq_value, e_seq = seq, e_ttl = ttl,
                  e_vlog_offset = vlog_offset,
                  e_key = window_bytes mem key (unat key_size),
                  e_value = map_option (\<lambda>p. window_bytes mem p (unat value_size)) value\<rparr>,
                ptr8, remaining8, seq))"

lemma take_varint_advance:
  assumes "take_varint mem ptr remaining = Some (v, ptr', remaining')"
  shows "ptr' + remaining' = ptr + remaining" and "remaining' < remaining"
    and "ptr < ptr'"
proof -
  obtain r w where d: "decode_varint_safe (\<lambda>i. mem (ptr + i)) remaining = (r, w)"
    by (cases "decode_varint_safe (\<lambda>i. mem (ptr + i)) remaining")
  from assms d have ok: "\<not> (r < 0 \<or> nat r > remaining)"
    and res: "ptr' = ptr + nat r" "remaining' = remaining - nat r"
    by (auto simp: take_varint_def split: if_splits)
  from decode_varint_safe_ret [of "\<lambda>i. mem (ptr + i)" remaining] d ok
  have "1 \<le> r" by auto
  with ok res show "ptr' + remaining' = ptr + remaining" and "remaining' < remaining"
    and "ptr < ptr'"
    by auto
qed

lemma dump_record_advance:
  assumes "dump_record mem ptr remaining prev_seq = Some (e, ptr', remaining', s)"
    and "0 < remaining"
  shows "ptr' + remaining' = ptr + remaining" and "remaining' < remaining"
proof -
  from assms(1) obtain ks p2 r2 vs p3 r3 sv p4 r4 t p5 r5 vo p6 r6 val p7 r7 where
    a: "take_varint mem (ptr + 1) (remaining - 1) = Some (ks, p2, r2)"
    and b: "take_varint mem p2 r2 = Some (vs, p3, r3)"
    and c: "take_varint mem p3 r3 = Some (sv, p4, r4)"
    and d: "(if mem ptr AND TDB_KV_FLAG_HAS_TTL \<noteq> 0 then
              (if r4 < 8 then None else Some (load_int64 mem p4, p4 + 8, r4 - 8))
            else Some (0, p4, r4)) = Some (t, p5, r5)"
    and e: "(if mem ptr AND TDB_KV_FLAG_HAS_VLOG \<noteq> 0 then take_varint mem p5 r5
            else Some (0, p5, r5)) = Some (vo, p6, r6)"
    and f: "\<not> r6 < unat ks"
    and g: "(if mem ptr AND TDB_KV_FLAG_HAS_VLOG = 0 \<and> vs > 0 then
               (if r6 - unat ks < unat vs then None
                else Some (Some (p6 + unat ks), p6 + unat ks + unat vs, r6 - unat ks - unat vs))
             else Some (None, p6 + unat ks, r6 - unat ks)) = Some (val, p7, r7)"
    and h: "ptr' = p7" "remaining' = r7"
    by (auto simp: dump_record_def Let_def split: option.splits if_splits prod.splits)
  note A = take_varint_advance [OF a] and B = take_varint_advance [OF b]
    and C = take_varint_advance [OF c]
  from d have D: "p5 + r5 = p4 + r4" "r5 \<le> r4"
    by (auto split: if_splits)
  from e have E: "p6 + r6 = p5 + r5" "r6 \<le> r5"
    by (auto split: if_splits dest: take_varint_advance)
  from g f have G: "p7 + r7 = p6 + r6" "r7 \<le> r6"
    by (auto split: if_splits)
  from A(1) B(1) C(1) D(1) E(1) G(1) h assms(2)
  show "ptr' + remaining' = ptr + remaining" by simp
  from A(2) B(2) C(2) D(2) E(2) G(2) h
  show "remaining' < remaining" by simp
qed

section \<open>The block container\<close>

text \<open>
  The walkers read blocks through the block manager of the storage engine
  (\<open>block_manager_cursor_read\<close>, \<open>block_manager_cursor_next\<close>), a library that is
  not part of this program.  It is taken as a parameter: a cursor is the list of
  the slots it visits, each with its byte position (\<open>cursor->current_pos\<close>) and
  what reading it returns, a block (\<open>data\<close>, \<open>size\<close>) or \<open>NULL\<close>.
  \<open>block_manager_cursor_next\<close> fails when no slot follows, and
  \<open>block_manager_cursor_goto_first\<close> fails on the empty list.
\<close>

record bm_block =
  blk_data :: memory
  blk_size :: nat

type_synonym bm_cursor = "(u64 \<times> bm_block option) list"

datatype bm_open = OpenFailed | CursorInitFailed | Opened bm_cursor

text \<open>A block holding exactly the given bytes (the buffers of the examples).\<close>

definition block_of :: "u8 list \<Rightarrow> bm_block" where
  "block_of xs = \<lparr>blk_data = (\<lambda>i. if i < length xs then xs ! i else 0),
                  blk_size = length xs\<rparr>"

section \<open>Result-count ceiling\<close>

text \<open>
  \<^verbatim>\<open>int limit = ADMINTOOL_DEFAULT_DUMP_LIMIT;
  if (argc >= 3) { parsed = strtol(argv[2], &endptr, 10);
                   if (*endptr == '\0' && parsed > 0) limit = (int)parsed; }\<close>
  The argument is \<open>None\<close> when it is absent, otherwise what \<open>strtol\<close> returned
  and whether it consumed the whole string.  The conversion of a \<open>long\<close> to
  \<open>int\<close> keeps the low 32 bits.
\<close>

definition dump_limit :: "(int \<times> bool) option \<Rightarrow> int" where
  "dump_limit arg =
     (case arg of
        None \<Rightarrow> ADMINTOOL_DEFAULT_DUMP_LIMIT
      | Some (parsed, at_end) \<Rightarrow>
          if at_end \<and> parsed > 0 then sint (word_of_int parsed :: 32 word)
          else ADMINTOOL_DEFAULT_DUMP_LIMIT)"

text \<open>\<open>stat(path, &st) == 0 && st.st_size > ADMINTOOL_LARGE_FILE_THRESHOLD\<close>\<close>

definition large_file_warning :: "int option \<Rightarrow> bool" where
  "large_file_warning st =
     (case st of None \<Rightarrow> False
      | Some st_size \<Rightarrow> st_size > ADMINTOOL_LARGE_FILE_THRESHOLD)"

section \<open>Table dump\<close>

record dump_line =
  dl_num :: int
  dl_blk :: int
  dl_entry :: kv_entry

function dump_block_loop ::
  "memory \<Rightarrow> int \<Rightarrow> int \<Rightarrow> nat \<Rightarrow> nat \<Rightarrow> u64 \<Rightarrow> int \<Rightarrow> dump_line list
   \<Rightarrow> int \<times> dump_line list" where
  "dump_block_loop mem limit block_num ptr remaining prev_seq total_entries out =
     (if remaining > 0 \<and> total_entries < limit then
        (case dump_record mem ptr remaining prev_seq of
           None \<Rightarrow> (total_entries, out)
         | Some (e, ptr', remaining', prev_seq') \<Rightarrow>
             dump_block_loop mem limit block_num ptr' remaining' prev_seq'
               (total_entries + 1)
               (out @ [\<lparr>dl_num = total_entries + 1, dl_blk = block_num, dl_entry = e\<rparr>]))
      else (total_entries, out))"
  by pat_completeness auto
termination
  by (relation "measure (\<lambda>(mem, limit, bn, ptr, remaining, ps, t, out). remaining)")
    (auto dest: dump_record_advance(2))

declare dump_block_loop.simps [simp del]

text \<open>
  The body of the outer loop for one block: \<open>ptr = block->data\<close>,
  \<open>remaining = block->size\<close>, \<open>prev_seq = 0\<close>.
\<close>

definition dump_block :: "bm_block \<Rightarrow> int \<Rightarrow> int \<Rightarrow> int \<Rightarrow> dump_line list
   \<Rightarrow> int \<times> dump_line list" where
  "dump_block block limit block_num total_entries out =
     dump_block_loop (blk_data block) limit block_num 0 (blk_size block) 0 total_entries out"

fun dump_walk ::
  "int \<Rightarrow> bm_cursor \<Rightarrow> int \<Rightarrow> int \<Rightarrow> dump_line list \<Rightarrow> int \<times> int \<times> dump_line list" where
  "dump_walk limit [] total_entries block_num out = (total_entries, block_num, out)"
| "dump_walk limit ((pos, rd) # rest) total_entries block_num out =
     (if total_entries < limit then
        (case rd of
           None \<Rightarrow> (total_entries, block_num, out)
         | Some block \<Rightarrow>
             if blk_size block < 4 then
               (if rest = [] then (total_entries, block_num, out)
                else dump_walk limit rest total_entries (block_num + 1) out)
             else
               (let (total_entries', out') =
                      dump_block block limit block_num total_entries out
                in if rest = [] then (total_entries', block_num, out')
                   else dump_walk limit rest total_entries' (block_num + 1) out'))
      else (total_entries, block_num, out))"

record dump_report =
  rp_ret :: int
  rp_warning :: bool
  rp_limit :: int
  rp_lines :: "dump_line list"
  rp_total :: int
  rp_blocks :: int

definition cmd_sstable_dump :: "(int \<times> bool) option \<Rightarrow> int option \<Rightarrow> bm_open \<Rightarrow> dump_report" where
  "cmd_sstable_dump arg st bm =
     (let limit = dump_limit arg; warning = large_file_warning st in
      case bm of
        OpenFailed \<Rightarrow>
          \<lparr>rp_ret = -1, rp_warning = warning, rp_limit = limit, rp_lines = [],
           rp_total = 0, rp_blocks = 0\<rparr>
      | CursorInitFailed \<Rightarrow>
          \<lparr>rp_ret = -1, rp_warning = warning, rp_limit = limit, rp_lines = [],
           rp_total = 0, rp_blocks = 0\<rparr>
      | Opened cursor \<Rightarrow>
          if cursor = [] then
            \<lparr>rp_ret = 0, rp_warning = warning, rp_limit = limit, rp_lines = [],
             rp_total = 0, rp_blocks = 0\<rparr>
          else
            (let (total_entries, block_num, out) = dump_walk limit cursor 0 0 []
             in \<lparr>rp_ret = 0, rp_warning = warning, rp_limit = limit, rp_lines = out,
                 rp_total = total_entries, rp_blocks = block_num + 1\<rparr>))"

section \<open>Key listing\<close>

text \<open>
  One iteration of the inner loop of \<open>cmd_sstable_keys\<close>: the same fields in the
  same order, the TTL and the value skipped rather than read.
\<close>

definition keys_record ::
  "memory \<Rightarrow> nat \<Rightarrow> nat \<Rightarrow> u64 \<Rightarrow> ((u8 \<times> u8 list) \<times> nat \<times> nat \<times> u64) option" where
  "keys_record mem ptr0 remaining0 prev_seq =
     (let flags = mem ptr0; ptr1 = ptr0 + 1; remaining1 = remaining0 - 1 in
      case take_varint mem ptr1 remaining1 of None \<Rightarrow> None
      | Some (key_size, ptr2, remaining2) \<Rightarrow>
      case take_varint mem ptr2 remaining2 of None \<Rightarrow> None
      | Some (value_size, ptr3, remaining3) \<Rightarrow>
      case take_varint mem ptr3 remaining3 of None \<Rightarrow> None
      | Some (seq_value, ptr4, remaining4) \<Rightarrow>
      let prev_seq' = (if flags AND TDB_KV_FLAG_DELTA_SEQ \<noteq> 0 then prev_seq + seq_value
                       else seq_value) in
      case (if flags AND TDB_KV_FLAG_HAS_TTL \<noteq> 0 then
              (if remaining4 < 8 then None else Some (ptr4 + 8, remaining4 - 8))
            else Some (ptr4, remaining4)) of None \<Rightarrow> None
      | Some (ptr5, remaining5) \<Rightarrow>
      case (if flags AND TDB_KV_FLAG_HAS_VLOG \<noteq> 0 then take_varint mem ptr5 remaining5
            else Some (0, ptr5, remaining5)) of None \<Rightarrow> None
      | Some (vlog_offset, ptr6, remaining6) \<Rightarrow>
      if remaining6 < unat key_size then None
      else
        let key = ptr6; ptr7 = ptr6 + unat key_size;
            remaining7 = remaining6 - unat key_size in
        case (if flags AND TDB_KV_FLAG_HAS_VLOG = 0 \<and> value_size > 0 then
                (if remaining7 < unat value_size then None
                 else Some (ptr7 + unat value_size, remaining7 - unat value_size))
              else Some (ptr7, remaining7)) of None \<Rightarrow> None
        | Some (ptr8, remaining8) \<Rightarrow>
          Some ((flags, window_bytes mem key (unat key_size)), ptr8, remaining8, prev_seq'))"








section \<open>Write-ahead log dump\<close>

text \<open>
  \<open>cmd_wal_dump\<close> decodes one record from each block.  \<open>None\<close> is one of its
  "release the block, move on" exits: the block yields no entry.  A TTL that does
  not fit is skipped (there is no \<open>else\<close>), and a value that does not fit leaves
  \<open>value == NULL\<close>; neither ends the decoding of the record.
\<close>

record wal_line =
  wl_num :: int
  wl_entry :: kv_entry

definition wal_dump_record :: "memory \<Rightarrow> nat \<Rightarrow> kv_entry option" where
  "wal_dump_record mem bsize =
     (let flags = mem 0; ptr1 = 1; remaining1 = bsize - 1 in
      case take_varint mem ptr1 remaining1 of None \<Rightarrow> None
      | Some (key_size, ptr2, remaining2) \<Rightarrow>
      case take_varint mem ptr2 remaining2 of None \<Rightarrow> None
      | Some (value_size, ptr3, remaining3) \<Rightarrow>
      case take_varint mem ptr3 remaining3 of None \<Rightarrow> None
      | Some (seq, ptr4, remaining4) \<Rightarrow>
      let (ttl, ptr5, remaining5) =
            (if flags AND TDB_KV_FLAG_HAS_TTL \<noteq> 0 \<and> remaining4 \<ge> 8
             then (load_int64 mem ptr4, ptr4 + 8, remaining4 - 8)
             else (0, ptr4, remaining4)) in
      if remaining5 < unat key_size then None
      else
        let key = ptr5; ptr6 = ptr5 + unat key_size;
            remaining6 = remaining5 - unat key_size;
            value = (if value_size > 0 \<and> remaining6 \<ge> unat value_size then Some ptr6
                     else None)
        in Some \<lparr>e_flags = flags, e_key_size = key_size, e_value_size = value_size,
                  e_seq_value = seq, e_seq = seq, e_ttl = ttl, e_vlog_offset = 0,
                  e_key = window_bytes mem key (unat key_size),
                  e_value = map_option (\<lambda>p. window_bytes mem p (unat value_size)) value\<rparr>)"

fun wal_dump_walk :: "int \<Rightarrow> bm_cursor \<Rightarrow> int \<Rightarrow> wal_line list \<Rightarrow> int \<times> wal_line list" where
  "wal_dump_walk limit [] entry_num out = (entry_num, out)"
| "wal_dump_walk limit ((pos, rd) # rest) entry_num out =
     (if entry_num < limit then
        (case rd of
           None \<Rightarrow> (entry_num, out)
         | Some block \<Rightarrow>
             if blk_size block < 1 then
               (if rest = [] then (entry_num, out)
                else wal_dump_walk limit rest entry_num out)
             else
               (case wal_dump_record (blk_data block) (blk_size block) of
                  None \<Rightarrow>
                    if rest = [] then (entry_num, out)
                    else wal_dump_walk limit rest entry_num out
                | Some e \<Rightarrow>
                    (let entry_num' = entry_num + 1;
                         out' = out @ [\<lparr>wl_num = entry_num', wl_entry = e\<rparr>]
                     in if rest = [] then (entry_num', out')
                        else wal_dump_walk limit rest entry_num' out')))
      else (entry_num, out))"

record wal_dump_report =
  wr_ret :: int
  wr_warning :: bool
  wr_limit :: int
  wr_lines :: "wal_line list"
  wr_total :: int

definition cmd_wal_dump :: "(int \<times> bool) option \<Rightarrow> int option \<Rightarrow> bm_open \<Rightarrow> wal_dump_report" where
  "cmd_wal_dump arg st bm =
     (let limit = dump_limit arg; warning = large_file_warning st in
      case bm of
        OpenFailed \<Rightarrow>
          \<lparr>wr_ret = -1, wr_warning = warning, wr_limit = limit, wr_lines = [], wr_total = 0\<rparr>
      | CursorInitFailed \<Rightarrow>
          \<lparr>wr_ret = -1, wr_warning = warning, wr_limit = limit, wr_lines = [], wr_total = 0\<rparr>
      | Opened cursor \<Rightarrow>
          if cursor = [] then
            \<lparr>wr_ret = 0, wr_warning = warning, wr_limit = limit, wr_lines = [], wr_total = 0\<rparr>
          else
            (let (entry_num, out) = wal_dump_walk limit cursor 0 []
             in \<lparr>wr_ret = 0, wr_warning = warning, wr_limit = limit, wr_lines = out,
                 wr_total = entry_num\<rparr>))"

section \<open>Write-ahead log verification\<close>

text \<open>
  The classification of one block by \<open>cmd_wal_verify\<close>: \<open>Some seq\<close> when
  \<open>entry_valid\<close> is still 1 at the end (with the sequence number that enters the
  minimum and the maximum), \<open>None\<close> when it was cleared.
\<close>

definition wal_verify_record :: "memory \<Rightarrow> nat \<Rightarrow> u64 option" where
  "wal_verify_record mem bsize =
     (if bsize < 1 then None
      else
        let flags = mem 0; ptr1 = 1; remaining1 = bsize - 1 in
        case take_varint mem ptr1 remaining1 of None \<Rightarrow> None
        | Some (key_size, ptr2, remaining2) \<Rightarrow>
        case take_varint mem ptr2 remaining2 of None \<Rightarrow> None
        | Some (value_size, ptr3, remaining3) \<Rightarrow>
        case take_varint mem ptr3 remaining3 of None \<Rightarrow> None
        | Some (seq, ptr4, remaining4) \<Rightarrow>
        let (entry_valid, ptr5, remaining5) =
              (if flags AND TDB_KV_FLAG_HAS_TTL \<noteq> 0 then
                 (if remaining4 < 8 then (False, ptr4, remaining4)
                  else (True, ptr4 + 8, remaining4 - 8))
               else (True, ptr4, remaining4));
            entry_valid' =
              (if entry_valid \<and> remaining5 < unat key_size then False
               else if entry_valid then
                 (let ptr6 = ptr5 + unat key_size;
                      remaining6 = remaining5 - unat key_size
                  in if value_size > 0 \<and> remaining6 < unat value_size then False
                     else entry_valid)
               else entry_valid)
        in if entry_valid' then Some seq else None)"

record wal_verify_state =
  valid_entries :: int
  corrupted_entries :: int
  min_seq :: u64
  max_seq :: u64
  last_valid_pos :: u64

fun wal_verify_walk :: "bm_cursor \<Rightarrow> wal_verify_state \<Rightarrow> wal_verify_state" where
  "wal_verify_walk [] st = st"
| "wal_verify_walk ((current_pos, rd) # rest) st =
     (case rd of
        None \<Rightarrow> st\<lparr>corrupted_entries := corrupted_entries st + 1\<rparr>
      | Some block \<Rightarrow>
          if blk_size block < 1 then
            (if rest = [] then st else wal_verify_walk rest st)
          else
            (let st' =
                   (case wal_verify_record (blk_data block) (blk_size block) of
                      Some seq \<Rightarrow>
                        st\<lparr>min_seq := (if seq < min_seq st then seq else min_seq st),
                           max_seq := (if seq > max_seq st then seq else max_seq st),
                           valid_entries := valid_entries st + 1,
                           last_valid_pos := current_pos\<rparr>
                    | None \<Rightarrow> st\<lparr>corrupted_entries := corrupted_entries st + 1\<rparr>)
             in if rest = [] then st' else wal_verify_walk rest st'))"

text \<open>
  The terminal report of \<open>cmd_wal_verify\<close>: the counters, the status line
  (\<open>OK\<close>, or \<open>CORRUPTED\<close> with the position named in "recovery possible up to
  position"), and the return value.
\<close>

datatype wal_status = WalFailed | WalOk | WalCorrupted u64

record wal_verify_report =
  vr_ret :: int
  vr_status :: wal_status
  vr_state :: wal_verify_state

definition wal_verify_init :: wal_verify_state where
  "wal_verify_init = \<lparr>valid_entries = 0, corrupted_entries = 0, min_seq = - 1,
                       max_seq = 0, last_valid_pos = 0\<rparr>"

definition cmd_wal_verify :: "bm_open \<Rightarrow> wal_verify_report" where
  "cmd_wal_verify bm =
     (case bm of
        OpenFailed \<Rightarrow> \<lparr>vr_ret = -1, vr_status = WalFailed, vr_state = wal_verify_init\<rparr>
      | CursorInitFailed \<Rightarrow>
          \<lparr>vr_ret = -1, vr_status = WalFailed, vr_state = wal_verify_init\<rparr>
      | Opened cursor \<Rightarrow>
          if cursor = [] then
            \<lparr>vr_ret = 0, vr_status = WalOk, vr_state = wal_verify_init\<rparr>
          else
            (let st = wal_verify_walk cursor wal_verify_init
             in \<lparr>vr_ret = (if corrupted_entries st > 0 then -1 else 0),
                 vr_status = (if corrupted_entries st = 0 then WalOk
                              else WalCorrupted (last_valid_pos st)),
                 vr_state = st\<rparr>))"

section \<open>Positional reads, checksums\<close>

text \<open>
  A file opened for reading is its content; \<open>pread(fd, buf, count, offset)\<close> on it
  yields the bytes from \<open>offset\<close> on, at most \<open>count\<close> of them and fewer only at
  the end of the file.  The source takes any result of another length than the
  one it asked for as a failure.
\<close>

definition pread :: "u8 list \<Rightarrow> nat \<Rightarrow> nat \<Rightarrow> u8 list" where
  "pread file count offset = take count (drop offset file)"

text \<open>
  Modelled from the spec: \<open>decode_uint32_le\<close> belongs to the storage engine's
  headers, not to this program; the specification gives the block header as a
  4-byte little-endian payload length followed by a 4-byte little-endian checksum.
\<close>

definition decode_uint32_le :: "u8 list \<Rightarrow> u32" where
  "decode_uint32_le b =
     ucast (b ! 0) OR push_bit 8 (ucast (b ! 1)) OR push_bit 16 (ucast (b ! 2))
       OR push_bit 24 (ucast (b ! 3))"

text \<open>
  \<open>XXH32\<close> is a library function and a parameter of everything that verifies a
  checksum: any function from the hashed bytes and a seed to 32 bits.
\<close>

type_synonym xxh32 = "u8 list \<Rightarrow> u32 \<Rightarrow> u32"

definition compute_block_checksum :: "xxh32 \<Rightarrow> u8 list \<Rightarrow> nat \<Rightarrow> u32" where
  "compute_block_checksum XXH32 data bsize = XXH32 (take bsize data) 0"

text \<open>The sanity ceiling \<open>100 * 1024 * 1024\<close> of a declared payload length.\<close>

definition MAX_BLOCK_SIZE :: u32 where
  "MAX_BLOCK_SIZE = 100 * 1024 * 1024"

text \<open>
  \<open>8 + block_size + 8\<close> is computed in \<open>uint32_t\<close> and then added to the 64-bit
  \<open>pos\<close>.  \<open>pos\<close> is a natural number: it is below the file size, a signed
  64-bit \<open>off_t\<close>, whenever the sum is formed, so the 64-bit addition cannot wrap.
\<close>

definition block_stride :: "u32 \<Rightarrow> nat" where
  "block_stride block_size = unat (8 + block_size + 8)"

lemma block_stride_valid:
  assumes "\<not> (block_size = 0 \<or> block_size > MAX_BLOCK_SIZE)"
  shows "block_stride block_size = 8 + unat block_size + 8"
proof -
  from assms have "block_size \<le> MAX_BLOCK_SIZE" by (simp add: not_less)
  then have "unat block_size \<le> 104857600"
    by (simp add: word_le_nat_alt MAX_BLOCK_SIZE_def)
  then show ?thesis
    by (simp add: block_stride_def unat_word_ariths)
qed

section \<open>Checksum verification\<close>

text \<open>
  The loop of \<open>cmd_sstable_checksum\<close>.  \<open>malloc_ok n\<close> tells whether the
  allocation of \<open>n\<close> bytes succeeds.  Besides the counters of the source the
  state lists, for every block header the loop has read, the position and the
  declared payload length (\<open>visited\<close>); the source prints them for the blocks it
  reports.
\<close>

function checksum_loop ::
  "xxh32 \<Rightarrow> (nat \<Rightarrow> bool) \<Rightarrow> u8 list \<Rightarrow> nat \<Rightarrow> int \<Rightarrow> int \<Rightarrow> int \<Rightarrow> (nat \<times> u32) list
   \<Rightarrow> int \<times> int \<times> int \<times> (nat \<times> u32) list" where
  "checksum_loop XXH32 malloc_ok file pos block_num valid_blocks invalid_blocks visited =
     (if pos < length file then
        (let header = pread file 8 pos in
         if length header \<noteq> 8 then (block_num, valid_blocks, invalid_blocks, visited)
         else
           let block_size = decode_uint32_le header;
               stored_checksum = decode_uint32_le (drop 4 header);
               visited' = visited @ [(pos, block_size)]
           in if block_size = 0 \<or> block_size > MAX_BLOCK_SIZE then
                (block_num, valid_blocks, invalid_blocks + 1, visited')
              else if \<not> malloc_ok (unat block_size) then
                (block_num, valid_blocks, invalid_blocks, visited')
              else
                let data = pread file (unat block_size) (pos + 8) in
                if length data \<noteq> unat block_size then
                  (block_num, valid_blocks, invalid_blocks + 1, visited')
                else
                  let computed_checksum = compute_block_checksum XXH32 data (unat block_size)
                  in if computed_checksum \<noteq> stored_checksum then
                       checksum_loop XXH32 malloc_ok file (pos + block_stride block_size)
                         (block_num + 1) valid_blocks (invalid_blocks + 1) visited'
                     else
                       checksum_loop XXH32 malloc_ok file (pos + block_stride block_size)
                         (block_num + 1) (valid_blocks + 1) invalid_blocks visited')
      else (block_num, valid_blocks, invalid_blocks, visited))"
  by pat_completeness auto
termination
  by (relation "measure (\<lambda>(XXH32, malloc_ok, file, pos, rest). length file - pos)")
    (auto simp: block_stride_valid)

declare checksum_loop.simps [simp del]

datatype fd_open = NoFile | NoStat | File "u8 list"

datatype scan_status = NoStatus | StatusOk | StatusCorrupted

record checksum_report =
  ck_ret :: int
  ck_status :: scan_status
  ck_total :: int
  ck_valid :: int
  ck_invalid :: int
  ck_visited :: "(nat \<times> u32) list"

definition cmd_sstable_checksum :: "xxh32 \<Rightarrow> (nat \<Rightarrow> bool) \<Rightarrow> fd_open \<Rightarrow> checksum_report" where
  "cmd_sstable_checksum XXH32 malloc_ok fd =
     (case fd of
        NoFile \<Rightarrow> \<lparr>ck_ret = -1, ck_status = NoStatus, ck_total = 0, ck_valid = 0,
                   ck_invalid = 0, ck_visited = []\<rparr>
      | NoStat \<Rightarrow> \<lparr>ck_ret = -1, ck_status = NoStatus, ck_total = 0, ck_valid = 0,
                   ck_invalid = 0, ck_visited = []\<rparr>
      | File file \<Rightarrow>
          (let (block_num, valid_blocks, invalid_blocks, visited) =
                 checksum_loop XXH32 malloc_ok file 8 0 0 0 []
           in \<lparr>ck_ret = (if invalid_blocks > 0 then -1 else 0),
               ck_status = (if invalid_blocks = 0 then StatusOk else StatusCorrupted),
               ck_total = block_num, ck_valid = valid_blocks, ck_invalid = invalid_blocks,
               ck_visited = visited\<rparr>))"

section \<open>Value-log resolution\<close>

text \<open>
  \<open>read_vlog_value(vlog_path, vlog_offset, value_size, value_out)\<close>.  The first
  argument is what opening the path gives: \<open>None\<close> when \<open>open\<close> fails.  The
  result is the returned \<open>int\<close> with the buffer stored in \<open>*value_out\<close>
  (\<open>None\<close> when nothing is stored).  An offset that does not fit the signed
  \<open>off_t\<close> makes \<open>pread\<close> fail; in the model it lies behind the end of the file
  and the read is empty, with the same result.
\<close>

definition read_vlog_value ::
  "xxh32 \<Rightarrow> (nat \<Rightarrow> bool) \<Rightarrow> u8 list option \<Rightarrow> u64 \<Rightarrow> nat \<Rightarrow> int \<times> u8 list option" where
  "read_vlog_value XXH32 malloc_ok vlog vlog_offset value_size =
     (case vlog of
        None \<Rightarrow> (-1, None)
      | Some file \<Rightarrow>
          (let header = pread file 8 (unat vlog_offset) in
           if length header \<noteq> 8 then (-1, None)
           else
             let block_size = decode_uint32_le header;
                 stored_checksum = decode_uint32_le (drop 4 header)
             in if block_size = 0 \<or> block_size > MAX_BLOCK_SIZE then (-1, None)
                else if \<not> malloc_ok (unat block_size) then (-1, None)
                else
                  let data = pread file (unat block_size) (unat vlog_offset + 8) in
                  if length data \<noteq> unat block_size then (-1, None)
                  else
                    let computed = compute_block_checksum XXH32 data (unat block_size)
                    in if computed \<noteq> stored_checksum then (-2, None)
                       else (uint block_size, Some data)))"

section \<open>Full dump\<close>

text \<open>
  The companion value log of a full dump: no path given (\<open>vlog_path == NULL\<close>),
  or a path with what opening it gives.
\<close>

datatype vlog_arg = NoVlogPath | VlogPath "u8 list option"

text \<open>
  The annotation inside \<open>[VLOG:...]\<close>:
  \<^verbatim>\<open>if (vlog_status == -2) printf(" CHECKSUM_ERR");
  else if (vlog_status < 0 && vlog_path) printf(" READ_ERR");
  else if (!vlog_path) printf(" NO_VLOG_FILE");\<close>
\<close>

definition vlog_annotation :: "int \<Rightarrow> bool \<Rightarrow> string" where
  "vlog_annotation vlog_status has_vlog_path =
     (if vlog_status = -2 then '' CHECKSUM_ERR''
      else if vlog_status < 0 \<and> has_vlog_path then '' READ_ERR''
      else if \<not> has_vlog_path then '' NO_VLOG_FILE''
      else [])"

record full_line =
  fl_num :: int
  fl_blk :: int
  fl_checksum_err :: bool
  fl_vlog_status :: int
  fl_vlog_note :: string
  fl_entry :: kv_entry

text \<open>
  One iteration of the inner loop of \<open>cmd_sstable_dump_full\<close>.  It differs from
  the plain dump in the value: with \<open>HAS_VLOG\<close> the value is resolved through
  \<open>read_vlog_value\<close> when a path is given and \<open>value_size > 0\<close>, and \<open>e_value\<close>
  is then the buffer that \<open>value\<close> points to, the payload read from the value log.
\<close>

definition full_record ::
  "xxh32 \<Rightarrow> (nat \<Rightarrow> bool) \<Rightarrow> vlog_arg \<Rightarrow> memory \<Rightarrow> nat \<Rightarrow> nat \<Rightarrow> u64
   \<Rightarrow> ((kv_entry \<times> int) \<times> nat \<times> nat \<times> u64) option" where
  "full_record XXH32 malloc_ok vlog mem ptr0 remaining0 prev_seq =
     (let flags = mem ptr0; ptr1 = ptr0 + 1; remaining1 = remaining0 - 1 in
      case take_varint mem ptr1 remaining1 of None \<Rightarrow> None
      | Some (key_size, ptr2, remaining2) \<Rightarrow>
      case take_varint mem ptr2 remaining2 of None \<Rightarrow> None
      | Some (value_size, ptr3, remaining3) \<Rightarrow>
      case take_varint mem ptr3 remaining3 of None \<Rightarrow> None
      | Some (seq_value, ptr4, remaining4) \<Rightarrow>
      let seq = (if flags AND TDB_KV_FLAG_DELTA_SEQ \<noteq> 0 then prev_seq + seq_value
                 else seq_value) in
      case (if flags AND TDB_KV_FLAG_HAS_TTL \<noteq> 0 then
              (if remaining4 < 8 then None
               else Some (load_int64 mem ptr4, ptr4 + 8, remaining4 - 8))
            else Some (0, ptr4, remaining4)) of None \<Rightarrow> None
      | Some (ttl, ptr5, remaining5) \<Rightarrow>
      case (if flags AND TDB_KV_FLAG_HAS_VLOG \<noteq> 0 then take_varint mem ptr5 remaining5
            else Some (0, ptr5, remaining5)) of None \<Rightarrow> None
      | Some (vlog_offset, ptr6, remaining6) \<Rightarrow>
      if remaining6 < unat key_size then None
      else
        let key = ptr6; ptr7 = ptr6 + unat key_size;
            remaining7 = remaining6 - unat key_size in
        case (if flags AND TDB_KV_FLAG_HAS_VLOG \<noteq> 0 then
                (case vlog of
                   VlogPath file \<Rightarrow>
                     if value_size > 0 then
                       (let (vlog_status, vlog_value) =
                              read_vlog_value XXH32 malloc_ok file vlog_offset (unat value_size)
                        in Some ((if vlog_status > 0 then vlog_value else None), vlog_status,
                                 ptr7, remaining7))
                     else Some (None, 0, ptr7, remaining7)
                 | NoVlogPath \<Rightarrow> Some (None, 0, ptr7, remaining7))
              else if value_size > 0 then
                (if remaining7 < unat value_size then None
                 else Some (Some (window_bytes mem ptr7 (unat value_size)), 0,
                            ptr7 + unat value_size, remaining7 - unat value_size))
              else Some (None, 0, ptr7, remaining7)) of None \<Rightarrow> None
        | Some (value, vlog_status, ptr8, remaining8) \<Rightarrow>
          Some ((\<lparr>e_flags = flags, e_key_size = key_size, e_value_size = value_size,
                   e_seq_value = seq_value, e_seq = seq, e_ttl = ttl,
                   e_vlog_offset = vlog_offset,
                   e_key = window_bytes mem key (unat key_size),
                   e_value = value\<rparr>, vlog_status),
                ptr8, remaining8, seq))"

lemma full_record_advance:
  assumes "full_record XXH32 malloc_ok vlog mem ptr remaining prev_seq =
             Some (x, ptr', remaining', s)"
    and "0 < remaining"
  shows "ptr' + remaining' = ptr + remaining" and "remaining' < remaining"
proof -
  from assms(1) obtain ks p2 r2 vs p3 r3 sv p4 r4 t p5 r5 vo p6 r6 where
    a: "take_varint mem (ptr + 1) (remaining - 1) = Some (ks, p2, r2)"
    and b: "take_varint mem p2 r2 = Some (vs, p3, r3)"
    and c: "take_varint mem p3 r3 = Some (sv, p4, r4)"
    and d: "(if mem ptr AND TDB_KV_FLAG_HAS_TTL \<noteq> 0 then
              (if r4 < 8 then None else Some (load_int64 mem p4, p4 + 8, r4 - 8))
            else Some (0, p4, r4)) = Some (t, p5, r5)"
    and e: "(if mem ptr AND TDB_KV_FLAG_HAS_VLOG \<noteq> 0 then take_varint mem p5 r5
            else Some (0, p5, r5)) = Some (vo, p6, r6)"
    and f: "\<not> r6 < unat ks"
    and g: "ptr' + remaining' = p6 + r6" "remaining' \<le> r6"
    by (auto simp: full_record_def Let_def
        split: option.splits if_splits prod.splits vlog_arg.splits)
  note A = take_varint_advance [OF a] and B = take_varint_advance [OF b]
    and C = take_varint_advance [OF c]
  from d have D: "p5 + r5 = p4 + r4" "r5 \<le> r4"
    by (auto split: if_splits)
  from e have E: "p6 + r6 = p5 + r5" "r6 \<le> r5"
    by (auto split: if_splits dest: take_varint_advance)
  from A(1) B(1) C(1) D(1) E(1) g(1) assms(2)
  show "ptr' + remaining' = ptr + remaining" by simp
  from A(2) B(2) C(2) D(2) E(2) g(2)
  show "remaining' < remaining" by simp
qed

function full_block_loop ::
  "xxh32 \<Rightarrow> (nat \<Rightarrow> bool) \<Rightarrow> vlog_arg \<Rightarrow> memory \<Rightarrow> int \<Rightarrow> int \<Rightarrow> bool \<Rightarrow> nat \<Rightarrow> nat \<Rightarrow> u64
   \<Rightarrow> int \<Rightarrow> full_line list \<Rightarrow> int \<times> full_line list" where
  "full_block_loop XXH32 malloc_ok vlog mem limit block_num checksum_ok ptr remaining prev_seq
     total_entries out =
     (if remaining > 0 \<and> total_entries < limit then
        (case full_record XXH32 malloc_ok vlog mem ptr remaining prev_seq of
           None \<Rightarrow> (total_entries, out)
         | Some ((e, vlog_status), ptr', remaining', prev_seq') \<Rightarrow>
             full_block_loop XXH32 malloc_ok vlog mem limit block_num checksum_ok
               ptr' remaining' prev_seq' (total_entries + 1)
               (out @ [\<lparr>fl_num = total_entries + 1, fl_blk = block_num,
                         fl_checksum_err = (\<not> checksum_ok),
                         fl_vlog_status = vlog_status,
                         fl_vlog_note =
                           (if e_flags e AND TDB_KV_FLAG_HAS_VLOG \<noteq> 0
                            then vlog_annotation vlog_status (vlog \<noteq> NoVlogPath) else []),
                         fl_entry = e\<rparr>]))
      else (total_entries, out))"
  by pat_completeness auto
termination
  by (relation "measure (\<lambda>(XXH32, malloc_ok, vlog, mem, limit, bn, ok, ptr, remaining, rest).
                  remaining)")
    (auto dest: full_record_advance(2))

declare full_block_loop.simps [simp del]

text \<open>
  The outer loop of \<open>cmd_sstable_dump_full\<close>, with the list of the block headers
  it has read (\<open>visited\<close>) as in the checksum scan.  The block is decoded from the
  buffer of \<open>block_size\<close> bytes that \<open>pread\<close> filled.
\<close>

function full_scan ::
  "xxh32 \<Rightarrow> (nat \<Rightarrow> bool) \<Rightarrow> vlog_arg \<Rightarrow> u8 list \<Rightarrow> int \<Rightarrow> nat \<Rightarrow> int \<Rightarrow> int \<Rightarrow> int
   \<Rightarrow> full_line list \<Rightarrow> (nat \<times> u32) list
   \<Rightarrow> int \<times> int \<times> int \<times> full_line list \<times> (nat \<times> u32) list" where
  "full_scan XXH32 malloc_ok vlog file limit pos total_entries block_num checksum_errors
     out visited =
     (if total_entries < limit \<and> pos < length file then
        (let header = pread file 8 pos in
         if length header \<noteq> 8 then (total_entries, block_num, checksum_errors, out, visited)
         else
           let block_size = decode_uint32_le header;
               stored_checksum = decode_uint32_le (drop 4 header);
               visited' = visited @ [(pos, block_size)]
           in if block_size = 0 \<or> block_size > MAX_BLOCK_SIZE then
                (total_entries, block_num, checksum_errors, out, visited')
              else if \<not> malloc_ok (unat block_size) then
                (total_entries, block_num, checksum_errors, out, visited')
              else
                let block_data = pread file (unat block_size) (pos + 8) in
                if length block_data \<noteq> unat block_size then
                  (total_entries, block_num, checksum_errors, out, visited')
                else
                  let computed_checksum =
                        compute_block_checksum XXH32 block_data (unat block_size);
                      checksum_ok = (computed_checksum = stored_checksum);
                      checksum_errors' =
                        (if \<not> checksum_ok then checksum_errors + 1 else checksum_errors);
                      (total_entries', out') =
                        full_block_loop XXH32 malloc_ok vlog (\<lambda>i. block_data ! i) limit
                          block_num checksum_ok 0 (unat block_size) 0 total_entries out
                  in full_scan XXH32 malloc_ok vlog file limit (pos + block_stride block_size)
                       total_entries' (block_num + 1) checksum_errors' out' visited')
      else (total_entries, block_num, checksum_errors, out, visited))"
  by pat_completeness auto
termination
  by (relation "measure (\<lambda>(XXH32, malloc_ok, vlog, file, limit, pos, rest). length file - pos)")
    (auto simp: block_stride_valid)

declare full_scan.simps [simp del]

text \<open>
  The arguments of \<open>sstable-dump-full <klog> [vlog] [limit]\<close>.  \<open>argv[2]\<close>, when
  present, is given by whether it names a regular file and by what \<open>strtol\<close>
  makes of it; it is the value log in the first case and the limit otherwise, and
  only in the first case \<open>argv[3]\<close> is read as the limit.
\<close>

definition dump_full_limit :: "(bool \<times> int \<times> bool) option \<Rightarrow> (int \<times> bool) option \<Rightarrow> int" where
  "dump_full_limit arg2 arg3 =
     (case arg2 of
        None \<Rightarrow> ADMINTOOL_DEFAULT_DUMP_LIMIT
      | Some (is_regular_file, parsed) \<Rightarrow>
          if is_regular_file then dump_limit arg3 else dump_limit (Some parsed))"

record full_report =
  fr_ret :: int
  fr_limit :: int
  fr_lines :: "full_line list"
  fr_total :: int
  fr_blocks :: int
  fr_checksum_errors :: int
  fr_visited :: "(nat \<times> u32) list"

definition cmd_sstable_dump_full ::
  "xxh32 \<Rightarrow> (nat \<Rightarrow> bool) \<Rightarrow> (bool \<times> int \<times> bool) option \<Rightarrow> (int \<times> bool) option
   \<Rightarrow> u8 list option \<Rightarrow> u8 list option \<Rightarrow> full_report" where
  "cmd_sstable_dump_full XXH32 malloc_ok arg2 arg3 vlog_file klog =
     (let limit = dump_full_limit arg2 arg3;
          vlog = (case arg2 of
                    Some (True, parsed) \<Rightarrow> VlogPath vlog_file
                  | _ \<Rightarrow> NoVlogPath)
      in case klog of
           None \<Rightarrow> \<lparr>fr_ret = -1, fr_limit = limit, fr_lines = [], fr_total = 0,
                     fr_blocks = 0, fr_checksum_errors = 0, fr_visited = []\<rparr>
         | Some file \<Rightarrow>
             (let (total_entries, block_num, checksum_errors, out, visited) =
                    full_scan XXH32 malloc_ok vlog file limit 8 0 0 0 [] []
              in \<lparr>fr_ret = (if checksum_errors > 0 then -1 else 0), fr_limit = limit,
                  fr_lines = out, fr_total = total_entries, fr_blocks = block_num,
                  fr_checksum_errors = checksum_errors, fr_visited = visited\<rparr>))"

section \<open>Bloom filter statistics\<close>

text \<open>
  The filter that \<open>cmd_bloom_stats\<close> inspects is the \<open>bloom_filter_t\<close> that
  \<open>bloom_filter_deserialize\<close> of the storage library returns.  Modelled from the
  spec: a bit array of \<open>m\<close> bits packed into \<open>size_in_words\<close> 64-bit words, and
  \<open>h\<close> hash rounds; the three numbers are the unsigned 32-bit integers that the
  \<open>%u\<close> directives and the \<open>unsigned int\<close> loop counter of the command take them
  for.  \<open>bf_bitset\<close> is the memory behind \<open>bf->bitset\<close>.
\<close>

record bloom_filter =
  bf_m :: u32
  bf_h :: u32
  bf_bitset :: "nat \<Rightarrow> u64"
  bf_size_in_words :: u32

text \<open>
  \<^verbatim>\<open>while (word) { bits_set += word & 1; word >>= 1; }\<close>
\<close>

lemma unat_drop_bit_less:
  fixes word :: u64
  assumes "word \<noteq> 0"
  shows "unat (drop_bit 1 word) < unat word"
proof -
  from assms have "unat word \<noteq> 0"
    by (simp add: unat_eq_0)
  moreover have "unat (drop_bit 1 word) = unat word div 2"
    by (simp add: drop_bit_eq_div unat_div)
  ultimately show ?thesis
    by simp
qed

function count_word :: "u64 \<Rightarrow> u64 \<Rightarrow> u64" where
  "count_word word bits_set =
     (if word \<noteq> 0 then count_word (drop_bit 1 word) (bits_set + (word AND 1))
      else bits_set)"
  by pat_completeness auto
termination
  by (relation "measure (\<lambda>(word, bits_set). unat word)") (use unat_drop_bit_less in auto)

declare count_word.simps [simp del]

text \<open>
  \<^verbatim>\<open>for (unsigned int i = 0; i < bf->size_in_words; i++)\<close> around it.
\<close>

lemma unat_index_Suc:
  fixes i :: u32
  assumes "i < size_in_words"
  shows "unat (i + 1) = unat i + 1"
proof -
  from assms have "unat i < unat size_in_words"
    by (simp add: word_less_nat_alt)
  moreover have "unat size_in_words < 2 ^ 32"
    using unsigned_less [of size_in_words] by simp
  ultimately have "unat i + unat (1 :: u32) < 2 ^ LENGTH(32)"
    by simp
  then show ?thesis
    by (simp add: unat_add_lem [THEN iffD1])
qed

function count_bits :: "(nat \<Rightarrow> u64) \<Rightarrow> u32 \<Rightarrow> u32 \<Rightarrow> u64 \<Rightarrow> u64" where
  "count_bits bitset size_in_words i bits_set =
     (if i < size_in_words then
        count_bits bitset size_in_words (i + 1) (count_word (bitset (unat i)) bits_set)
      else bits_set)"
  by pat_completeness auto
termination
  by (relation "measure (\<lambda>(bitset, size_in_words, i, bits_set). unat size_in_words - unat i)")
    (auto simp: unat_index_Suc word_less_nat_alt)

declare count_bits.simps [simp del]

text \<open>
  The values of the C type \<open>double\<close>: the finite ones, given by the real number
  they denote, the two infinities and not-a-number.  The sign of a zero plays no
  part below: every zero that occurs is the conversion of an unsigned integer.
\<close>

datatype double = Finite real | PlusInfinity | MinusInfinity | NaN

text \<open>
  IEEE 754 arithmetic computes the exact result and rounds it to a \<open>double\<close>; the
  rounding is a parameter of the model, a function on the reals.  \<open>pow\<close> comes
  from the mathematical library and is a parameter as a whole.
\<close>

type_synonym rounding = "real \<Rightarrow> real"

type_synonym libm_pow = "double \<Rightarrow> double \<Rightarrow> double"

text \<open>\<open>(double)x\<close> for an unsigned integer \<open>x\<close>; the result is finite.\<close>

definition double_of_nat :: "rounding \<Rightarrow> nat \<Rightarrow> real" where
  "double_of_nat rnd n = rnd (real n)"

text \<open>
  \<open>a / b\<close> for finite operands: a zero divisor gives not-a-number for \<open>0 / 0\<close>
  and an infinity otherwise.
\<close>

definition double_div :: "rounding \<Rightarrow> real \<Rightarrow> real \<Rightarrow> double" where
  "double_div rnd a b =
     (if b \<noteq> 0 then Finite (rnd (a / b))
      else if a = 0 then NaN
      else if 0 < a then PlusInfinity else MinusInfinity)"

text \<open>\<open>x * c\<close> for a finite constant \<open>c > 0\<close> (here \<open>100.0\<close>).\<close>

definition double_mul :: "rounding \<Rightarrow> double \<Rightarrow> real \<Rightarrow> double" where
  "double_mul rnd x c =
     (case x of
        Finite a \<Rightarrow> Finite (rnd (a * c))
      | PlusInfinity \<Rightarrow> PlusInfinity
      | MinusInfinity \<Rightarrow> MinusInfinity
      | NaN \<Rightarrow> NaN)"

text \<open>\<open>x > c\<close> for a finite constant \<open>c\<close>: false for not-a-number.\<close>

definition double_greater :: "double \<Rightarrow> real \<Rightarrow> bool" where
  "double_greater x c =
     (case x of
        Finite a \<Rightarrow> c < a
      | PlusInfinity \<Rightarrow> True
      | MinusInfinity \<Rightarrow> False
      | NaN \<Rightarrow> False)"

text \<open>
  What \<open>cmd_bloom_stats\<close> derives from a deserialized filter and prints: the
  numbers handed to \<open>printf\<close> (the formatting itself is not modelled; the sizes in
  bytes and KB, printed besides, are left out) and whether the warning line is
  printed.
\<close>

record bloom_stats =
  bs_m :: u32
  bs_h :: u32
  bs_size_in_words :: u32
  bs_bits_set :: u64
  bs_fill_ratio :: double
  bs_estimated_fpr :: double
  bs_fill_percent :: double
  bs_fpr_percent :: double
  bs_warning :: bool

definition bloom_stats :: "rounding \<Rightarrow> libm_pow \<Rightarrow> bloom_filter \<Rightarrow> bloom_stats" where
  "bloom_stats rnd pow bf =
     (let bits_set = count_bits (bf_bitset bf) (bf_size_in_words bf) 0 0;
          fill_ratio = double_div rnd (double_of_nat rnd (unat bits_set))
                         (double_of_nat rnd (unat (bf_m bf)));
          estimated_fpr = pow fill_ratio (Finite (double_of_nat rnd (unat (bf_h bf))))
      in \<lparr>bs_m = bf_m bf, bs_h = bf_h bf, bs_size_in_words = bf_size_in_words bf,
          bs_bits_set = bits_set, bs_fill_ratio = fill_ratio,
          bs_estimated_fpr = estimated_fpr,
          bs_fill_percent = double_mul rnd fill_ratio 100,
          bs_fpr_percent = double_mul rnd estimated_fpr 100,
          bs_warning = double_greater fill_ratio 0.5\<rparr>)"

text \<open>
  The command.  The filter block is the second from the last; the number of blocks
  that \<open>block_manager_count_blocks\<close> gives is the number of positions of the
  cursor, so that with three or more of them the moves to the last block and one
  block back succeed.  Every exit with \<open>-1\<close> prints its own message and is
  \<open>BloomFailed\<close> here; an empty filter block is reported as a disabled filter,
  with \<open>0\<close>.
\<close>

datatype bloom_outcome = BloomFailed | BloomDisabled | BloomStatistics bloom_stats

definition cmd_bloom_stats ::
  "rounding \<Rightarrow> libm_pow \<Rightarrow> (memory \<Rightarrow> bloom_filter option) \<Rightarrow> bm_open
   \<Rightarrow> int \<times> bloom_outcome" where
  "cmd_bloom_stats rnd pow bloom_filter_deserialize bm =
     (case bm of
        OpenFailed \<Rightarrow> (-1, BloomFailed)
      | CursorInitFailed \<Rightarrow> (-1, BloomFailed)
      | Opened cursor \<Rightarrow>
          if int (length cursor) < 3 then (-1, BloomFailed)
          else
            (case snd (cursor ! (length cursor - 2)) of
               None \<Rightarrow> (-1, BloomFailed)
             | Some bloom_block \<Rightarrow>
                 if blk_size bloom_block = 0 then (0, BloomDisabled)
                 else
                   (case bloom_filter_deserialize (blk_data bloom_block) of
                      None \<Rightarrow> (-1, BloomFailed)
                    | Some bf \<Rightarrow> (0, BloomStatistics (bloom_stats rnd pow bf)))))"

section \<open>Properties of the write-ahead log scan\<close>

text \<open>
  A log of four one-record blocks: the third lacks the value byte its header
  announces, the others are complete.
\<close>

definition wal_example :: bm_cursor where
  "wal_example =
     [(8, Some (block_of [0x00, 0x01, 0x01, 0x01, 0x61, 0x78])),
      (30, Some (block_of [0x00, 0x01, 0x01, 0x02, 0x62, 0x79])),
      (52, Some (block_of [0x00, 0x01, 0x01, 0x03, 0x63])),
      (73, Some (block_of [0x00, 0x01, 0x01, 0x04, 0x64, 0x7A]))]"

lemmas eval_varint =
  take_varint_def decode_varint_safe_def dvs_loop.simps Let_def block_of_def
  TDB_KV_FLAG_HAS_TTL_def TDB_KV_FLAG_HAS_VLOG_def TDB_KV_FLAG_DELTA_SEQ_def

lemma wal_verify_record_Some_size:
  "wal_verify_record mem n = Some s \<Longrightarrow> \<not> n < 1"
  by (auto simp: wal_verify_record_def split: if_splits)

text \<open>
  The two ways \<open>cmd_wal_verify\<close> closes a block it has decoded: the entry is
  valid (sequence range, counter and \<open>last_valid_pos\<close> updated) or corrupted.
\<close>

definition wal_mark_valid :: "u64 \<Rightarrow> u64 \<Rightarrow> wal_verify_state \<Rightarrow> wal_verify_state" where
  "wal_mark_valid current_pos seq st =
     st\<lparr>min_seq := (if seq < min_seq st then seq else min_seq st),
        max_seq := (if seq > max_seq st then seq else max_seq st),
        valid_entries := valid_entries st + 1,
        last_valid_pos := current_pos\<rparr>"

definition wal_mark_corrupted :: "wal_verify_state \<Rightarrow> wal_verify_state" where
  "wal_mark_corrupted st = st\<lparr>corrupted_entries := corrupted_entries st + 1\<rparr>"

lemma wal_mark_valid_sel:
  "valid_entries (wal_mark_valid p s st) = valid_entries st + 1"
  "corrupted_entries (wal_mark_valid p s st) = corrupted_entries st"
  "last_valid_pos (wal_mark_valid p s st) = p"
  by (simp_all add: wal_mark_valid_def)

lemma wal_mark_corrupted_sel:
  "valid_entries (wal_mark_corrupted st) = valid_entries st"
  "corrupted_entries (wal_mark_corrupted st) = corrupted_entries st + 1"
  "last_valid_pos (wal_mark_corrupted st) = last_valid_pos st"
  by (simp_all add: wal_mark_corrupted_def)

lemma wal_verify_walk_valid:
  assumes "wal_verify_record (blk_data b) (blk_size b) = Some s"
  shows "wal_verify_walk ((p, Some b) # rest) st =
     (if rest = [] then wal_mark_valid p s st
      else wal_verify_walk rest (wal_mark_valid p s st))"
  using assms wal_verify_record_Some_size [OF assms]
  by (simp add: wal_mark_valid_def Let_def)

lemma wal_verify_walk_invalid:
  assumes "wal_verify_record (blk_data b) (blk_size b) = None" "1 \<le> blk_size b"
  shows "wal_verify_walk ((p, Some b) # rest) st =
     (if rest = [] then wal_mark_corrupted st
      else wal_verify_walk rest (wal_mark_corrupted st))"
  using assms
  by (simp add: wal_mark_corrupted_def Let_def)

lemma cmd_wal_verify_Opened:
  "cursor \<noteq> [] \<Longrightarrow>
   cmd_wal_verify (Opened cursor) =
     \<lparr>vr_ret = (if corrupted_entries (wal_verify_walk cursor wal_verify_init) > 0
                then -1 else 0),
      vr_status = (if corrupted_entries (wal_verify_walk cursor wal_verify_init) = 0
                   then WalOk
                   else WalCorrupted (last_valid_pos (wal_verify_walk cursor wal_verify_init))),
      vr_state = wal_verify_walk cursor wal_verify_init\<rparr>"
  by (simp add: cmd_wal_verify_def Let_def del: wal_verify_walk.simps)

text \<open>
  C1, as the program behaves.  For a log of four readable blocks of which the
  first, the second and the fourth hold a complete record and the third (not
  empty) does not, the report counts 3 valid and 1 corrupted entries, and the
  position it names as the recovery boundary is the start of the fourth block:
  \<open>last_valid_pos\<close> is assigned at every valid entry, also at one that follows a
  corrupted entry.
\<close>

theorem wal_verify_boundary_is_last_valid_block:
  assumes "wal_verify_record (blk_data b1) (blk_size b1) = Some s1"
    and "wal_verify_record (blk_data b2) (blk_size b2) = Some s2"
    and "1 \<le> blk_size b3"
    and "wal_verify_record (blk_data b3) (blk_size b3) = None"
    and "wal_verify_record (blk_data b4) (blk_size b4) = Some s4"
  shows "valid_entries (vr_state (cmd_wal_verify
           (Opened [(p1, Some b1), (p2, Some b2), (p3, Some b3), (p4, Some b4)]))) = 3
       \<and> corrupted_entries (vr_state (cmd_wal_verify
           (Opened [(p1, Some b1), (p2, Some b2), (p3, Some b3), (p4, Some b4)]))) = 1
       \<and> last_valid_pos (vr_state (cmd_wal_verify
           (Opened [(p1, Some b1), (p2, Some b2), (p3, Some b3), (p4, Some b4)]))) = p4
       \<and> vr_status (cmd_wal_verify
           (Opened [(p1, Some b1), (p2, Some b2), (p3, Some b3), (p4, Some b4)]))
           = WalCorrupted p4
       \<and> vr_ret (cmd_wal_verify
           (Opened [(p1, Some b1), (p2, Some b2), (p3, Some b3), (p4, Some b4)])) = -1"
proof -
  have walk: "wal_verify_walk [(p1, Some b1), (p2, Some b2), (p3, Some b3), (p4, Some b4)]
                wal_verify_init =
              wal_mark_valid p4 s4 (wal_mark_corrupted
                (wal_mark_valid p2 s2 (wal_mark_valid p1 s1 wal_verify_init)))"
    by (simp add: wal_verify_walk_valid [OF assms(1)] wal_verify_walk_valid [OF assms(2)]
        wal_verify_walk_invalid [OF assms(4) assms(3)] wal_verify_walk_valid [OF assms(5)]
        del: wal_verify_walk.simps)
  have init: "valid_entries wal_verify_init = 0" "corrupted_entries wal_verify_init = 0"
    by (simp_all add: wal_verify_init_def)
  have ne: "[(p1, Some b1), (p2, Some b2), (p3, Some b3), (p4, Some b4)] \<noteq> []"
    by simp
  show ?thesis
    unfolding cmd_wal_verify_Opened [OF ne] walk
    by (simp add: wal_mark_valid_sel wal_mark_corrupted_sel init)
qed

theorem wal_verify_boundary_is_last_valid_block_witness:
  "valid_entries (vr_state (cmd_wal_verify (Opened wal_example))) = 3
   \<and> corrupted_entries (vr_state (cmd_wal_verify (Opened wal_example))) = 1
   \<and> last_valid_pos (vr_state (cmd_wal_verify (Opened wal_example))) = 73
   \<and> vr_status (cmd_wal_verify (Opened wal_example)) = WalCorrupted 73"
proof -
  have v1: "wal_verify_record (blk_data (block_of [0x00, 0x01, 0x01, 0x01, 0x61, 0x78]))
              (blk_size (block_of [0x00, 0x01, 0x01, 0x01, 0x61, 0x78])) = Some 1"
    by (simp add: wal_verify_record_def eval_varint)
  have v2: "wal_verify_record (blk_data (block_of [0x00, 0x01, 0x01, 0x02, 0x62, 0x79]))
              (blk_size (block_of [0x00, 0x01, 0x01, 0x02, 0x62, 0x79])) = Some 2"
    by (simp add: wal_verify_record_def eval_varint)
  have s3: "1 \<le> blk_size (block_of [0x00, 0x01, 0x01, 0x03, 0x63])"
    by (simp add: block_of_def)
  have v3: "wal_verify_record (blk_data (block_of [0x00, 0x01, 0x01, 0x03, 0x63]))
              (blk_size (block_of [0x00, 0x01, 0x01, 0x03, 0x63])) = None"
    by (simp add: wal_verify_record_def eval_varint)
  have v4: "wal_verify_record (blk_data (block_of [0x00, 0x01, 0x01, 0x04, 0x64, 0x7A]))
              (blk_size (block_of [0x00, 0x01, 0x01, 0x04, 0x64, 0x7A])) = Some 4"
    by (simp add: wal_verify_record_def eval_varint)
  from wal_verify_boundary_is_last_valid_block [OF v1 v2 s3 v3 v4, of 8 30 52 73]
  show ?thesis
    by (simp add: wal_example_def)
qed

text \<open>
  C1, as the specification states it, fails on this log: the third entry is the
  first break, the boundary the specification asks for is the start of the second
  block (30), and the program reports the start of the fourth (73).
\<close>

theorem wal_verify_boundary_counterexample:
  "valid_entries (vr_state (cmd_wal_verify (Opened wal_example))) = 3
   \<and> corrupted_entries (vr_state (cmd_wal_verify (Opened wal_example))) = 1
   \<and> fst (wal_example ! 1) = 30
   \<and> last_valid_pos (vr_state (cmd_wal_verify (Opened wal_example))) \<noteq> 30
   \<and> vr_status (cmd_wal_verify (Opened wal_example)) \<noteq> WalCorrupted 30"
  by (simp add: wal_example_def cmd_wal_verify_def wal_verify_init_def
      wal_verify_record_def eval_varint)

section \<open>A TTL that does not fit\<close>

text \<open>
  A block of five bytes: flags \<open>HAS_TTL\<close>, key length 1, value length 0,
  sequence 5, and then a single byte where the eight bytes of the TTL should be.
\<close>

definition short_ttl_block :: bm_block where
  "short_ttl_block = block_of [0x02, 0x01, 0x00, 0x05, 0x41]"

text \<open>
  The table decoders and the log verifier stop at a TTL that does not fit: that is
  the \<open>break\<close>, respectively \<open>entry_valid = 0\<close>, under
  \<open>remaining < sizeof(int64_t)\<close>.
\<close>

lemma dump_record_short_ttl:
  assumes "take_varint mem (ptr + 1) (remaining - 1) = Some (key_size, p2, r2)"
    and "take_varint mem p2 r2 = Some (value_size, p3, r3)"
    and "take_varint mem p3 r3 = Some (seq_value, p4, r4)"
    and "mem ptr AND TDB_KV_FLAG_HAS_TTL \<noteq> 0" and "r4 < 8"
  shows "dump_record mem ptr remaining prev_seq = None"
  using assms by (simp add: dump_record_def Let_def)

lemma keys_record_short_ttl:
  assumes "take_varint mem (ptr + 1) (remaining - 1) = Some (key_size, p2, r2)"
    and "take_varint mem p2 r2 = Some (value_size, p3, r3)"
    and "take_varint mem p3 r3 = Some (seq_value, p4, r4)"
    and "mem ptr AND TDB_KV_FLAG_HAS_TTL \<noteq> 0" and "r4 < 8"
  shows "keys_record mem ptr remaining prev_seq = None"
  using assms by (simp add: keys_record_def Let_def)

lemma wal_verify_record_short_ttl:
  assumes "take_varint mem 1 (bsize - 1) = Some (key_size, p2, r2)"
    and "take_varint mem p2 r2 = Some (value_size, p3, r3)"
    and "take_varint mem p3 r3 = Some (seq_value, p4, r4)"
    and "mem 0 AND TDB_KV_FLAG_HAS_TTL \<noteq> 0" and "r4 < 8"
  shows "wal_verify_record mem bsize = None"
  using assms by (simp add: wal_verify_record_def Let_def)

text \<open>
  C3 fails in \<open>cmd_wal_dump\<close>.  On the block above the flags byte has \<open>HAS_TTL\<close>
  and one byte remains at the TTL step, yet the log dump emits the record as
  entry 1, with TTL 0 and with the byte that stands in the TTL's place as its
  key; the table dump, the key listing and the log verifier reject the same bytes.
\<close>

theorem wal_dump_emits_record_with_short_ttl:
  "wr_total (cmd_wal_dump None None (Opened [(8, Some short_ttl_block)])) = 1
   \<and> map (\<lambda>l. (wl_num l, e_flags (wl_entry l), e_seq (wl_entry l), e_ttl (wl_entry l),
                 e_key (wl_entry l)))
        (wr_lines (cmd_wal_dump None None (Opened [(8, Some short_ttl_block)])))
       = [(1, 0x02, 5, 0, [0x41])]
   \<and> wal_verify_record (blk_data short_ttl_block) (blk_size short_ttl_block) = None
   \<and> dump_record (blk_data short_ttl_block) 0 (blk_size short_ttl_block) 0 = None
   \<and> keys_record (blk_data short_ttl_block) 0 (blk_size short_ttl_block) 0 = None"
proof -
  have d: "wal_dump_record (blk_data short_ttl_block) (blk_size short_ttl_block) =
           Some \<lparr>e_flags = 0x02, e_key_size = 1, e_value_size = 0, e_seq_value = 5,
                  e_seq = 5, e_ttl = 0, e_vlog_offset = 0, e_key = [0x41],
                  e_value = None\<rparr>"
    by (simp add: wal_dump_record_def short_ttl_block_def eval_varint window_bytes_def)
  have sz: "blk_size short_ttl_block = 5"
    by (simp add: short_ttl_block_def block_of_def)
  have w: "wal_dump_walk 1000 [(8, Some short_ttl_block)] 0 [] =
           (1, [\<lparr>wl_num = 1, wl_entry =
              \<lparr>e_flags = 0x02, e_key_size = 1, e_value_size = 0, e_seq_value = 5,
               e_seq = 5, e_ttl = 0, e_vlog_offset = 0, e_key = [0x41],
               e_value = None\<rparr>\<rparr>])"
    using d by (simp add: sz Let_def)
  have c: "cmd_wal_dump None None (Opened [(8, Some short_ttl_block)]) =
           \<lparr>wr_ret = 0, wr_warning = False, wr_limit = 1000,
            wr_lines = [\<lparr>wl_num = 1, wl_entry =
              \<lparr>e_flags = 0x02, e_key_size = 1, e_value_size = 0, e_seq_value = 5,
               e_seq = 5, e_ttl = 0, e_vlog_offset = 0, e_key = [0x41],
               e_value = None\<rparr>\<rparr>],
            wr_total = 1\<rparr>"
    by (simp add: cmd_wal_dump_def dump_limit_def large_file_warning_def
        ADMINTOOL_DEFAULT_DUMP_LIMIT_def w del: wal_dump_walk.simps)
  have v: "wal_verify_record (blk_data short_ttl_block) (blk_size short_ttl_block) = None"
    by (simp add: wal_verify_record_def short_ttl_block_def eval_varint)
  have t: "dump_record (blk_data short_ttl_block) 0 (blk_size short_ttl_block) 0 = None"
    by (simp add: dump_record_def short_ttl_block_def eval_varint)
  have k: "keys_record (blk_data short_ttl_block) 0 (blk_size short_ttl_block) 0 = None"
    by (simp add: keys_record_def short_ttl_block_def eval_varint)
  show ?thesis
    unfolding c by (simp add: v t k)
qed

section \<open>Window-bounded decoding\<close>

lemma dvs_loop_stop:
  "i \<le> k \<Longrightarrow> k < min max_bytes 10 \<Longrightarrow> data k AND 0x80 = 0 \<Longrightarrow>
   (\<And>j. i \<le> j \<Longrightarrow> j < k \<Longrightarrow> data j AND 0x80 \<noteq> 0) \<Longrightarrow>
   fst (dvs_loop data max_bytes i shift v) = int k + 1"
proof (induction data max_bytes i shift v rule: dvs_loop.induct)
  case (1 data max_bytes i shift v)
  note unfold = dvs_loop.simps [of data max_bytes i shift v]
  from "1.prems"(1,2) have guard: "i < max_bytes \<and> i < 10" by simp
  show ?case
  proof (cases "data i AND 0x80 = 0")
    case stop: True
    have "i = k"
    proof (rule ccontr)
      assume "i \<noteq> k"
      with "1.prems"(1) have "i < k" by simp
      from "1.prems"(4) [OF le_refl this] stop show False by simp
    qed
    with guard stop show ?thesis
      unfolding unfold by (simp add: Let_def)
  next
    case more: False
    with "1.prems"(1,3) have "i \<noteq> k" by auto
    with "1.prems"(1) have le: "i + 1 \<le> k" by simp
    have "fst (dvs_loop data max_bytes (i + 1) (shift + 7)
                 (v OR push_bit shift (ucast (data i AND 0x7F)))) = int k + 1"
      using "1.IH" [OF guard refl refl refl more le "1.prems"(2,3)] "1.prems"(4) by simp
    with guard more show ?thesis
      unfolding unfold by (simp add: Let_def)
  qed
qed

lemma dvs_loop_fail:
  "(\<And>j. i \<le> j \<Longrightarrow> j < min max_bytes 10 \<Longrightarrow> data j AND 0x80 \<noteq> 0) \<Longrightarrow>
   fst (dvs_loop data max_bytes i shift v) = -1"
proof (induction data max_bytes i shift v rule: dvs_loop.induct)
  case (1 data max_bytes i shift v)
  note unfold = dvs_loop.simps [of data max_bytes i shift v]
  show ?case
  proof (cases "i < max_bytes \<and> i < 10")
    case False
    then show ?thesis
      unfolding unfold by auto
  next
    case True
    then have more: "data i AND 0x80 \<noteq> 0"
      using "1.prems" [of i] by simp
    have "fst (dvs_loop data max_bytes (i + 1) (shift + 7)
                 (v OR push_bit shift (ucast (data i AND 0x7F)))) = -1"
      using "1.IH" [OF True refl refl refl more] "1.prems" by simp
    with True more show ?thesis
      unfolding unfold by (simp add: Let_def)
  qed
qed

text \<open>
  Two runs over the same bytes that both find a terminating byte find the same
  one, whatever their budgets.
\<close>

lemma dvs_loop_budget_indep:
  "fst (dvs_loop data m i shift v) \<noteq> -1 \<Longrightarrow> fst (dvs_loop data m' i shift v) \<noteq> -1 \<Longrightarrow>
   dvs_loop data m i shift v = dvs_loop data m' i shift v"
proof (induction data m i shift v rule: dvs_loop.induct)
  case (1 data m i shift v)
  note unfold = dvs_loop.simps [of data m i shift v]
  note unfold' = dvs_loop.simps [of data m' i shift v]
  have g: "i < m \<and> i < 10"
    using "1.prems"(1) unfolding unfold by (auto split: if_splits)
  have g': "i < m' \<and> i < 10"
    using "1.prems"(2) unfolding unfold' by (auto split: if_splits)
  show ?case
  proof (cases "data i AND 0x80 = 0")
    case True
    with g g' show ?thesis
      unfolding unfold unfold' by (simp add: Let_def)
  next
    case more: False
    have a: "fst (dvs_loop data m (i + 1) (shift + 7)
                (v OR push_bit shift (ucast (data i AND 0x7F)))) \<noteq> -1"
      using "1.prems"(1) g more unfolding unfold by (simp add: Let_def)
    have b: "fst (dvs_loop data m' (i + 1) (shift + 7)
                (v OR push_bit shift (ucast (data i AND 0x7F)))) \<noteq> -1"
      using "1.prems"(2) g' more unfolding unfold' by (simp add: Let_def)
    from "1.IH" [OF g refl refl refl more a b] g g' more show ?thesis
      unfolding unfold unfold' by (simp add: Let_def)
  qed
qed

lemma take_varint_frame:
  assumes "\<And>j. ptr \<le> j \<Longrightarrow> j < ptr + remaining \<Longrightarrow> mem j = mem' j"
  shows "take_varint mem ptr remaining = take_varint mem' ptr remaining"
proof -
  have "decode_varint_safe (\<lambda>i. mem (ptr + i)) remaining =
        decode_varint_safe (\<lambda>i. mem' (ptr + i)) remaining"
    by (rule decode_varint_safe_frame) (simp add: assms)
  then show ?thesis
    by (simp add: take_varint_def)
qed

lemma take_varint_budget_indep:
  assumes "take_varint mem ptr r = Some (v, p, q)"
    and "take_varint mem ptr r' = Some (v', p', q')"
  shows "v' = v" and "p' = p"
proof -
  let ?d = "\<lambda>n. decode_varint_safe (\<lambda>i. mem (ptr + i)) n"
  from assms(1) have a: "fst (?d r) \<noteq> -1" "v = snd (?d r)" "p = ptr + nat (fst (?d r))"
    by (auto simp: take_varint_def split: prod.splits if_splits)
  from assms(2) have b: "fst (?d r') \<noteq> -1" "v' = snd (?d r')" "p' = ptr + nat (fst (?d r'))"
    by (auto simp: take_varint_def split: prod.splits if_splits)
  have "?d r = ?d r'"
    using a(1) b(1) unfolding decode_varint_safe_def by (rule dvs_loop_budget_indep)
  with a b show "v' = v" and "p' = p" by simp_all
qed

text \<open>
  A successful \<open>dump_record\<close> is a chain of successful steps, and conversely.
\<close>

lemma dump_record_chain:
  assumes "dump_record mem ptr remaining prev_seq = Some (e, ptr', remaining', s)"
  obtains ks p2 r2 vs p3 r3 sv p4 r4 t p5 r5 vo p6 r6 val where
    "take_varint mem (ptr + 1) (remaining - 1) = Some (ks, p2, r2)"
    and "take_varint mem p2 r2 = Some (vs, p3, r3)"
    and "take_varint mem p3 r3 = Some (sv, p4, r4)"
    and "(if mem ptr AND TDB_KV_FLAG_HAS_TTL \<noteq> 0 then
            (if r4 < 8 then None else Some (load_int64 mem p4, p4 + 8, r4 - 8))
          else Some (0, p4, r4)) = Some (t, p5, r5)"
    and "(if mem ptr AND TDB_KV_FLAG_HAS_VLOG \<noteq> 0 then take_varint mem p5 r5
          else Some (0, p5, r5)) = Some (vo, p6, r6)"
    and "\<not> r6 < unat ks"
    and "(if mem ptr AND TDB_KV_FLAG_HAS_VLOG = 0 \<and> vs > 0 then
            (if r6 - unat ks < unat vs then None
             else Some (Some (p6 + unat ks), p6 + unat ks + unat vs, r6 - unat ks - unat vs))
          else Some (None, p6 + unat ks, r6 - unat ks)) = Some (val, ptr', remaining')"
    and "s = (if mem ptr AND TDB_KV_FLAG_DELTA_SEQ \<noteq> 0 then prev_seq + sv else sv)"
    and "e = \<lparr>e_flags = mem ptr, e_key_size = ks, e_value_size = vs, e_seq_value = sv,
              e_seq = s, e_ttl = t, e_vlog_offset = vo,
              e_key = window_bytes mem p6 (unat ks),
              e_value = map_option (\<lambda>p. window_bytes mem p (unat vs)) val\<rparr>"
  using assms
  by (auto simp: dump_record_def Let_def split: option.splits if_splits prod.splits)

lemma dump_record_intro:
  assumes "take_varint mem (ptr + 1) (remaining - 1) = Some (ks, p2, r2)"
    and "take_varint mem p2 r2 = Some (vs, p3, r3)"
    and "take_varint mem p3 r3 = Some (sv, p4, r4)"
    and "(if mem ptr AND TDB_KV_FLAG_HAS_TTL \<noteq> 0 then
            (if r4 < 8 then None else Some (load_int64 mem p4, p4 + 8, r4 - 8))
          else Some (0, p4, r4)) = Some (t, p5, r5)"
    and "(if mem ptr AND TDB_KV_FLAG_HAS_VLOG \<noteq> 0 then take_varint mem p5 r5
          else Some (0, p5, r5)) = Some (vo, p6, r6)"
    and "\<not> r6 < unat ks"
    and "(if mem ptr AND TDB_KV_FLAG_HAS_VLOG = 0 \<and> vs > 0 then
            (if r6 - unat ks < unat vs then None
             else Some (Some (p6 + unat ks), p6 + unat ks + unat vs, r6 - unat ks - unat vs))
          else Some (None, p6 + unat ks, r6 - unat ks)) = Some (val, ptr', remaining')"
  shows "dump_record mem ptr remaining prev_seq =
     Some (\<lparr>e_flags = mem ptr, e_key_size = ks, e_value_size = vs, e_seq_value = sv,
             e_seq = (if mem ptr AND TDB_KV_FLAG_DELTA_SEQ \<noteq> 0 then prev_seq + sv else sv),
             e_ttl = t, e_vlog_offset = vo,
             e_key = window_bytes mem p6 (unat ks),
             e_value = map_option (\<lambda>p. window_bytes mem p (unat vs)) val\<rparr>,
           ptr', remaining',
           (if mem ptr AND TDB_KV_FLAG_DELTA_SEQ \<noteq> 0 then prev_seq + sv else sv))"
  using assms(1,2,3,6)
  by (simp add: dump_record_def Let_def assms(4) assms(5) assms(7))

lemma window_bytes_frame:
  "(\<And>j. p \<le> j \<Longrightarrow> j < p + n \<Longrightarrow> mem j = mem' j) \<Longrightarrow>
   window_bytes mem p n = window_bytes mem' p n"
  by (simp add: window_bytes_def)

lemma load_int64_frame:
  "(\<And>j. p \<le> j \<Longrightarrow> j < p + 8 \<Longrightarrow> mem j = mem' j) \<Longrightarrow>
   load_int64 mem p = load_int64 mem' p"
  unfolding load_int64_def by (simp add: window_bytes_frame [of p 8 mem mem'])

lemma dump_record_frame_Some:
  assumes rec: "dump_record mem ptr remaining prev_seq = Some x"
    and pos: "0 < remaining"
    and same: "\<And>j. ptr \<le> j \<Longrightarrow> j < ptr + remaining \<Longrightarrow> mem j = mem' j"
  shows "dump_record mem' ptr remaining prev_seq = Some x"
proof -
  obtain e ptr' remaining' s where x: "x = (e, ptr', remaining', s)"
    by (cases x)
  from rec [unfolded x] obtain ks p2 r2 vs p3 r3 sv p4 r4 t p5 r5 vo p6 r6 val where
    a: "take_varint mem (ptr + 1) (remaining - 1) = Some (ks, p2, r2)"
    and b: "take_varint mem p2 r2 = Some (vs, p3, r3)"
    and c: "take_varint mem p3 r3 = Some (sv, p4, r4)"
    and d: "(if mem ptr AND TDB_KV_FLAG_HAS_TTL \<noteq> 0 then
            (if r4 < 8 then None else Some (load_int64 mem p4, p4 + 8, r4 - 8))
          else Some (0, p4, r4)) = Some (t, p5, r5)"
    and e: "(if mem ptr AND TDB_KV_FLAG_HAS_VLOG \<noteq> 0 then take_varint mem p5 r5
          else Some (0, p5, r5)) = Some (vo, p6, r6)"
    and f: "\<not> r6 < unat ks"
    and g: "(if mem ptr AND TDB_KV_FLAG_HAS_VLOG = 0 \<and> vs > 0 then
            (if r6 - unat ks < unat vs then None
             else Some (Some (p6 + unat ks), p6 + unat ks + unat vs, r6 - unat ks - unat vs))
          else Some (None, p6 + unat ks, r6 - unat ks)) = Some (val, ptr', remaining')"
    and s: "s = (if mem ptr AND TDB_KV_FLAG_DELTA_SEQ \<noteq> 0 then prev_seq + sv else sv)"
    and ee: "e = \<lparr>e_flags = mem ptr, e_key_size = ks, e_value_size = vs, e_seq_value = sv,
              e_seq = s, e_ttl = t, e_vlog_offset = vo,
              e_key = window_bytes mem p6 (unat ks),
              e_value = map_option (\<lambda>p. window_bytes mem p (unat vs)) val\<rparr>"
    by (rule dump_record_chain)
  let ?end = "ptr + remaining"
  note A = take_varint_advance [OF a] and B = take_varint_advance [OF b]
    and C = take_varint_advance [OF c]
  from pos A have w2: "ptr \<le> p2" "p2 + r2 = ?end" by simp_all
  from w2 B have w3: "ptr \<le> p3" "p3 + r3 = ?end" by simp_all
  from w3 C have w4: "ptr \<le> p4" "p4 + r4 = ?end" by simp_all
  from d w4 have w5: "ptr \<le> p5" "p5 + r5 = ?end"
    by (auto split: if_splits)
  from e w5 have w6: "ptr \<le> p6" "p6 + r6 = ?end"
    by (auto split: if_splits dest: take_varint_advance)
  have fl: "mem' ptr = mem ptr"
    using same [of ptr] pos by simp
  have tv: "take_varint mem' p r = take_varint mem p r"
    if "ptr \<le> p" "p + r \<le> ?end" for p r
    by (rule take_varint_frame [symmetric]) (use that in \<open>simp add: same\<close>)
  have a': "take_varint mem' (ptr + 1) (remaining - 1) = Some (ks, p2, r2)"
    using a pos by (simp add: tv)
  have b': "take_varint mem' p2 r2 = Some (vs, p3, r3)"
    using b w2 by (simp add: tv)
  have c': "take_varint mem' p3 r3 = Some (sv, p4, r4)"
    using c w3 by (simp add: tv)
  have li: "load_int64 mem' p4 = load_int64 mem p4" if "\<not> r4 < 8"
    by (rule load_int64_frame [symmetric]) (use that w4 in \<open>simp add: same\<close>)
  have d': "(if mem' ptr AND TDB_KV_FLAG_HAS_TTL \<noteq> 0 then
            (if r4 < 8 then None else Some (load_int64 mem' p4, p4 + 8, r4 - 8))
          else Some (0, p4, r4)) = Some (t, p5, r5)"
    using d li by (auto simp: fl split: if_splits)
  have e': "(if mem' ptr AND TDB_KV_FLAG_HAS_VLOG \<noteq> 0 then take_varint mem' p5 r5
          else Some (0, p5, r5)) = Some (vo, p6, r6)"
    using e w5 by (cases "mem ptr AND TDB_KV_FLAG_HAS_VLOG = 0") (simp_all add: fl tv)
  have g': "(if mem' ptr AND TDB_KV_FLAG_HAS_VLOG = 0 \<and> vs > 0 then
            (if r6 - unat ks < unat vs then None
             else Some (Some (p6 + unat ks), p6 + unat ks + unat vs, r6 - unat ks - unat vs))
          else Some (None, p6 + unat ks, r6 - unat ks)) = Some (val, ptr', remaining')"
    using g by (simp only: fl)
  have key: "window_bytes mem' p6 (unat ks) = window_bytes mem p6 (unat ks)"
    by (rule window_bytes_frame [symmetric]) (use f w6 in \<open>simp add: same\<close>)
  have val: "map_option (\<lambda>p. window_bytes mem' p (unat vs)) val =
             map_option (\<lambda>p. window_bytes mem p (unat vs)) val"
  proof (cases val)
    case None
    then show ?thesis by simp
  next
    case (Some q)
    with g f have "q = p6 + unat ks" "\<not> r6 - unat ks < unat vs"
      by (auto split: if_splits)
    with f w6 have "window_bytes mem' q (unat vs) = window_bytes mem q (unat vs)"
      by (intro window_bytes_frame [symmetric]) (simp add: same)
    with Some show ?thesis by simp
  qed
  from dump_record_intro [OF a' b' c' d' e' f g', of prev_seq]
  show ?thesis
    by (simp add: x ee s fl key val)
qed

lemma dump_record_frame:
  assumes pos: "0 < remaining"
    and same: "\<And>j. ptr \<le> j \<Longrightarrow> j < ptr + remaining \<Longrightarrow> mem j = mem' j"
  shows "dump_record mem ptr remaining prev_seq = dump_record mem' ptr remaining prev_seq"
proof (cases "dump_record mem ptr remaining prev_seq")
  case (Some x)
  from dump_record_frame_Some [OF Some pos same] Some show ?thesis by simp
next
  case None
  show ?thesis
  proof (cases "dump_record mem' ptr remaining prev_seq")
    case None': None
    with None show ?thesis by simp
  next
    case (Some y)
    have "dump_record mem ptr remaining prev_seq = Some y"
      by (rule dump_record_frame_Some [OF Some pos]) (simp add: same)
    with None show ?thesis by simp
  qed
qed

lemma dump_block_loop_frame:
  "(\<And>j. ptr \<le> j \<Longrightarrow> j < ptr + remaining \<Longrightarrow> mem j = mem' j) \<Longrightarrow>
   dump_block_loop mem limit block_num ptr remaining prev_seq total_entries out =
   dump_block_loop mem' limit block_num ptr remaining prev_seq total_entries out"
proof (induction mem limit block_num ptr remaining prev_seq total_entries out
    rule: dump_block_loop.induct)
  case (1 mem limit block_num ptr remaining prev_seq total_entries out)
  note unfold = dump_block_loop.simps
    [of mem limit block_num ptr remaining prev_seq total_entries out]
    dump_block_loop.simps
    [of mem' limit block_num ptr remaining prev_seq total_entries out]
  show ?case
  proof (cases "remaining > 0 \<and> total_entries < limit")
    case False
    then show ?thesis
      unfolding unfold by auto
  next
    case True
    then have pos: "0 < remaining" by simp
    have rec: "dump_record mem' ptr remaining prev_seq = dump_record mem ptr remaining prev_seq"
      by (rule dump_record_frame [symmetric, OF pos]) (simp add: "1.prems")
    show ?thesis
    proof (cases "dump_record mem ptr remaining prev_seq")
      case None
      with True rec show ?thesis
        unfolding unfold by simp
    next
      case (Some x)
      obtain e ptr' remaining' s where x: "x = (e, ptr', remaining', s)"
        by (cases x)
      note adv = dump_record_advance [OF Some [unfolded x] pos]
      have "dump_block_loop mem limit block_num ptr' remaining' s (total_entries + 1)
              (out @ [\<lparr>dl_num = total_entries + 1, dl_blk = block_num, dl_entry = e\<rparr>]) =
            dump_block_loop mem' limit block_num ptr' remaining' s (total_entries + 1)
              (out @ [\<lparr>dl_num = total_entries + 1, dl_blk = block_num, dl_entry = e\<rparr>])"
        using adv "1.prems"
        by (intro "1.IH" [OF True Some [unfolded x] refl refl refl]) simp_all
      with True Some rec x show ?thesis
        unfolding unfold by simp
    qed
  qed
qed

text \<open>
  How far a record reaches does not depend on the budget: two successful decodings
  at the same place end at the same place.
\<close>

lemma dump_record_budget_indep:
  assumes "dump_record mem ptr r prev_seq = Some (e, ptr', q, s)"
    and "dump_record mem ptr r' prev_seq' = Some (e', ptr'', q', s')"
  shows "ptr'' = ptr'"
proof -
  from assms(1) obtain ks p2 r2 vs p3 r3 sv p4 r4 t p5 r5 vo p6 r6 val where
    a: "take_varint mem (ptr + 1) (r - 1) = Some (ks, p2, r2)"
    and b: "take_varint mem p2 r2 = Some (vs, p3, r3)"
    and c: "take_varint mem p3 r3 = Some (sv, p4, r4)"
    and d: "(if mem ptr AND TDB_KV_FLAG_HAS_TTL \<noteq> 0 then
            (if r4 < 8 then None else Some (load_int64 mem p4, p4 + 8, r4 - 8))
          else Some (0, p4, r4)) = Some (t, p5, r5)"
    and e: "(if mem ptr AND TDB_KV_FLAG_HAS_VLOG \<noteq> 0 then take_varint mem p5 r5
          else Some (0, p5, r5)) = Some (vo, p6, r6)"
    and g: "(if mem ptr AND TDB_KV_FLAG_HAS_VLOG = 0 \<and> vs > 0 then
            (if r6 - unat ks < unat vs then None
             else Some (Some (p6 + unat ks), p6 + unat ks + unat vs, r6 - unat ks - unat vs))
          else Some (None, p6 + unat ks, r6 - unat ks)) = Some (val, ptr', q)"
    by (rule dump_record_chain)
  from assms(2) obtain ks' p2' r2' vs' p3' r3' sv' p4' r4' t' p5' r5' vo' p6' r6' val' where
    a': "take_varint mem (ptr + 1) (r' - 1) = Some (ks', p2', r2')"
    and b': "take_varint mem p2' r2' = Some (vs', p3', r3')"
    and c': "take_varint mem p3' r3' = Some (sv', p4', r4')"
    and d': "(if mem ptr AND TDB_KV_FLAG_HAS_TTL \<noteq> 0 then
            (if r4' < 8 then None else Some (load_int64 mem p4', p4' + 8, r4' - 8))
          else Some (0, p4', r4')) = Some (t', p5', r5')"
    and e': "(if mem ptr AND TDB_KV_FLAG_HAS_VLOG \<noteq> 0 then take_varint mem p5' r5'
          else Some (0, p5', r5')) = Some (vo', p6', r6')"
    and g': "(if mem ptr AND TDB_KV_FLAG_HAS_VLOG = 0 \<and> vs' > 0 then
            (if r6' - unat ks' < unat vs' then None
             else Some (Some (p6' + unat ks'), p6' + unat ks' + unat vs',
                        r6' - unat ks' - unat vs'))
          else Some (None, p6' + unat ks', r6' - unat ks')) = Some (val', ptr'', q')"
    by (rule dump_record_chain)
  from take_varint_budget_indep [OF a a'] have 1: "ks' = ks" "p2' = p2" .
  from take_varint_budget_indep [OF b b' [unfolded 1]] have 2: "vs' = vs" "p3' = p3" .
  from take_varint_budget_indep [OF c c' [unfolded 2]] have 3: "sv' = sv" "p4' = p4" .
  from d d' 3 have 4: "p5' = p5"
    by (auto split: if_splits)
  have 5: "p6' = p6"
  proof (cases "mem ptr AND TDB_KV_FLAG_HAS_VLOG = 0")
    case True
    with e e' 4 show ?thesis by simp
  next
    case False
    with e e' 4 have "take_varint mem p5 r5 = Some (vo, p6, r6)"
      "take_varint mem p5 r5' = Some (vo', p6', r6')"
      by simp_all
    from take_varint_budget_indep(2) [OF this] show ?thesis .
  qed
  from g g' 1 2 5 show ?thesis
    by (auto split: if_splits)
qed

lemma dump_record_truncated:
  assumes "dump_record mem ptr r prev_seq = Some (e, ptr', q, s)"
    and "0 < t" and "ptr + t < ptr'"
  shows "dump_record mem ptr t prev_seq' = None"
proof (cases "dump_record mem ptr t prev_seq'")
  case None
  then show ?thesis .
next
  case (Some x)
  obtain e' ptr'' q' s' where x: "x = (e', ptr'', q', s')"
    by (cases x)
  from dump_record_budget_indep [OF assms(1) Some [unfolded x]] have "ptr'' = ptr'" .
  moreover from dump_record_advance(1) [OF Some [unfolded x] assms(2)]
  have "ptr'' \<le> ptr + t" by simp
  ultimately show ?thesis
    using assms(3) by simp
qed

lemma dump_block_loop_truncated:
  assumes "dump_record mem ptr r prev_seq = Some (e, ptr', q, s)"
    and "ptr + t < ptr'"
  shows "dump_block_loop mem limit block_num ptr t prev_seq' total_entries out =
         (total_entries, out)"
proof (cases "0 < t")
  case False
  then have "t = 0" by simp
  then show ?thesis
    by (simp add: dump_block_loop.simps [of mem limit block_num ptr 0])
next
  case True
  from dump_record_truncated [OF assms(1) True assms(2)] show ?thesis
    by (simp add: dump_block_loop.simps [of mem limit block_num ptr t])
qed

lemma dump_walk_skip:
  assumes "total_entries < limit" and "\<not> blk_size b < 4"
    and "dump_block b limit block_num total_entries out = (total_entries, out)"
    and "rest \<noteq> []"
  shows "dump_walk limit ((pos, Some b) # rest) total_entries block_num out =
         dump_walk limit rest total_entries (block_num + 1) out"
  using assms by simp

section \<open>Records cut by the end of the window\<close>

text \<open>
  A run that finds a terminating byte finds the same one under any bigger budget.
\<close>

lemma dvs_loop_budget_mono:
  "fst (dvs_loop data m i shift v) \<noteq> -1 \<Longrightarrow> m \<le> m' \<Longrightarrow>
   dvs_loop data m' i shift v = dvs_loop data m i shift v"
proof (induction data m i shift v rule: dvs_loop.induct)
  case (1 data m i shift v)
  note unfold = dvs_loop.simps [of data m i shift v]
  note unfold' = dvs_loop.simps [of data m' i shift v]
  have g: "i < m \<and> i < 10"
    using "1.prems"(1) unfolding unfold by (auto split: if_splits)
  with "1.prems"(2) have g': "i < m' \<and> i < 10"
    by simp
  show ?case
  proof (cases "data i AND 0x80 = 0")
    case True
    with g g' show ?thesis
      unfolding unfold unfold' by (simp add: Let_def)
  next
    case more: False
    have a: "fst (dvs_loop data m (i + 1) (shift + 7)
                (v OR push_bit shift (ucast (data i AND 0x7F)))) \<noteq> -1"
      using "1.prems"(1) g more unfolding unfold by (simp add: Let_def)
    from "1.IH" [OF g refl refl refl more a "1.prems"(2)] g g' more show ?thesis
      unfolding unfold unfold' by (simp add: Let_def)
  qed
qed

lemma take_varint_budget_mono:
  assumes "take_varint mem ptr r = Some (v, p, q)" and "r \<le> r'"
  shows "take_varint mem ptr r' = Some (v, p, q + (r' - r))"
proof -
  let ?d = "\<lambda>n. decode_varint_safe (\<lambda>i. mem (ptr + i)) n"
  from assms(1) have a: "\<not> fst (?d r) < 0" "nat (fst (?d r)) \<le> r" "v = snd (?d r)"
    "p = ptr + nat (fst (?d r))" "q = r - nat (fst (?d r))"
    by (auto simp: take_varint_def split: prod.splits if_splits)
  from a(1) have "fst (?d r) \<noteq> -1"
    by auto
  then have "?d r' = ?d r"
    unfolding decode_varint_safe_def using assms(2) by (rule dvs_loop_budget_mono)
  with a assms(2) show ?thesis
    by (auto simp: take_varint_def split: prod.splits)
qed

text \<open>
  A record that decodes in a window decodes to the same entry, with the same end,
  in every bigger window.
\<close>

lemma dump_record_budget_mono:
  assumes "dump_record mem ptr r prev_seq = Some (e, ptr', q, s)"
    and "0 < r" and "r \<le> r'"
  shows "dump_record mem ptr r' prev_seq = Some (e, ptr', q + (r' - r), s)"
proof -
  define d where "d = r' - r"
  from assms(1) obtain ks p2 r2 vs p3 r3 sv p4 r4 t p5 r5 vo p6 r6 val where
    a: "take_varint mem (ptr + 1) (r - 1) = Some (ks, p2, r2)"
    and b: "take_varint mem p2 r2 = Some (vs, p3, r3)"
    and c: "take_varint mem p3 r3 = Some (sv, p4, r4)"
    and dd: "(if mem ptr AND TDB_KV_FLAG_HAS_TTL \<noteq> 0 then
            (if r4 < 8 then None else Some (load_int64 mem p4, p4 + 8, r4 - 8))
          else Some (0, p4, r4)) = Some (t, p5, r5)"
    and ee: "(if mem ptr AND TDB_KV_FLAG_HAS_VLOG \<noteq> 0 then take_varint mem p5 r5
          else Some (0, p5, r5)) = Some (vo, p6, r6)"
    and f: "\<not> r6 < unat ks"
    and g: "(if mem ptr AND TDB_KV_FLAG_HAS_VLOG = 0 \<and> vs > 0 then
            (if r6 - unat ks < unat vs then None
             else Some (Some (p6 + unat ks), p6 + unat ks + unat vs, r6 - unat ks - unat vs))
          else Some (None, p6 + unat ks, r6 - unat ks)) = Some (val, ptr', q)"
    and s: "s = (if mem ptr AND TDB_KV_FLAG_DELTA_SEQ \<noteq> 0 then prev_seq + sv else sv)"
    and e: "e = \<lparr>e_flags = mem ptr, e_key_size = ks, e_value_size = vs, e_seq_value = sv,
              e_seq = s, e_ttl = t, e_vlog_offset = vo,
              e_key = window_bytes mem p6 (unat ks),
              e_value = map_option (\<lambda>p. window_bytes mem p (unat vs)) val\<rparr>"
    by (rule dump_record_chain)
  have le: "r - 1 \<le> r' - 1" and diff: "r' - 1 - (r - 1) = d"
    using assms(2,3) by (simp_all add: d_def)
  from take_varint_budget_mono [OF a le]
  have a': "take_varint mem (ptr + 1) (r' - 1) = Some (ks, p2, r2 + d)"
    unfolding diff .
  from take_varint_budget_mono [OF b, of "r2 + d"]
  have b': "take_varint mem p2 (r2 + d) = Some (vs, p3, r3 + d)"
    by simp
  from take_varint_budget_mono [OF c, of "r3 + d"]
  have c': "take_varint mem p3 (r3 + d) = Some (sv, p4, r4 + d)"
    by simp
  from dd have d': "(if mem ptr AND TDB_KV_FLAG_HAS_TTL \<noteq> 0 then
            (if r4 + d < 8 then None else Some (load_int64 mem p4, p4 + 8, r4 + d - 8))
          else Some (0, p4, r4 + d)) = Some (t, p5, r5 + d)"
    by (auto split: if_splits)
  have e': "(if mem ptr AND TDB_KV_FLAG_HAS_VLOG \<noteq> 0 then take_varint mem p5 (r5 + d)
          else Some (0, p5, r5 + d)) = Some (vo, p6, r6 + d)"
  proof (cases "mem ptr AND TDB_KV_FLAG_HAS_VLOG \<noteq> 0")
    case True
    with ee have "take_varint mem p5 r5 = Some (vo, p6, r6)"
      by simp
    from take_varint_budget_mono [OF this, of "r5 + d"] True show ?thesis
      by simp
  next
    case False
    with ee show ?thesis
      by simp
  qed
  from f have f': "\<not> r6 + d < unat ks"
    by simp
  from g f have g': "(if mem ptr AND TDB_KV_FLAG_HAS_VLOG = 0 \<and> vs > 0 then
            (if r6 + d - unat ks < unat vs then None
             else Some (Some (p6 + unat ks), p6 + unat ks + unat vs,
                        r6 + d - unat ks - unat vs))
          else Some (None, p6 + unat ks, r6 + d - unat ks)) = Some (val, ptr', q + d)"
    by (auto split: if_splits)
  from dump_record_intro [OF a' b' c' d' e' f' g', of prev_seq] show ?thesis
    unfolding e s d_def by simp
qed

text \<open>A record takes at least four bytes: the flags and three varints.\<close>

lemma dump_record_min_size:
  assumes "dump_record mem ptr r prev_seq = Some (e, ptr', q, s)"
  shows "ptr + 4 \<le> ptr'"
proof -
  from assms obtain ks p2 r2 vs p3 r3 sv p4 r4 t p5 r5 vo p6 r6 val where
    a: "take_varint mem (ptr + 1) (r - 1) = Some (ks, p2, r2)"
    and b: "take_varint mem p2 r2 = Some (vs, p3, r3)"
    and c: "take_varint mem p3 r3 = Some (sv, p4, r4)"
    and dd: "(if mem ptr AND TDB_KV_FLAG_HAS_TTL \<noteq> 0 then
            (if r4 < 8 then None else Some (load_int64 mem p4, p4 + 8, r4 - 8))
          else Some (0, p4, r4)) = Some (t, p5, r5)"
    and ee: "(if mem ptr AND TDB_KV_FLAG_HAS_VLOG \<noteq> 0 then take_varint mem p5 r5
          else Some (0, p5, r5)) = Some (vo, p6, r6)"
    and g: "(if mem ptr AND TDB_KV_FLAG_HAS_VLOG = 0 \<and> vs > 0 then
            (if r6 - unat ks < unat vs then None
             else Some (Some (p6 + unat ks), p6 + unat ks + unat vs, r6 - unat ks - unat vs))
          else Some (None, p6 + unat ks, r6 - unat ks)) = Some (val, ptr', q)"
    by (rule dump_record_chain)
  note A = take_varint_advance(3) [OF a] and B = take_varint_advance(3) [OF b]
    and C = take_varint_advance(3) [OF c]
  from dd have D: "p4 \<le> p5"
    by (auto split: if_splits)
  from ee have E: "p5 \<le> p6"
    by (auto split: if_splits dest: take_varint_advance(3))
  from g have G: "p6 \<le> ptr'"
    by (auto split: if_splits)
  from A B C D E G show ?thesis
    by simp
qed

text \<open>
  Records laid out one behind the other from a position on: each entry of the
  list is a record with the offset at which it ends, and it decodes, in exactly
  the bytes from its start to its end, to that entry.
\<close>

fun laid_out :: "memory \<Rightarrow> nat \<Rightarrow> u64 \<Rightarrow> (kv_entry \<times> nat) list \<Rightarrow> bool" where
  "laid_out mem ptr prev_seq [] = True"
| "laid_out mem ptr prev_seq ((e, ptr') # rs) =
     (ptr < ptr' \<and>
      (case dump_record mem ptr (ptr' - ptr) prev_seq of
         None \<Rightarrow> False
       | Some (e', p, q, s) \<Rightarrow> e' = e \<and> p = ptr' \<and> laid_out mem ptr' s rs))"

text \<open>The lines the table dump prints for a list of entries of one block.\<close>

fun dump_lines :: "int \<Rightarrow> int \<Rightarrow> kv_entry list \<Rightarrow> dump_line list" where
  "dump_lines block_num total_entries [] = []"
| "dump_lines block_num total_entries (e # es) =
     \<lparr>dl_num = total_entries + 1, dl_blk = block_num, dl_entry = e\<rparr>
     # dump_lines block_num (total_entries + 1) es"

text \<open>
  The records that lie in full inside a window of \<open>w\<close> bytes, as far as the limit
  lets them be printed.
\<close>

definition complete_records :: "nat \<Rightarrow> int \<Rightarrow> int \<Rightarrow> (kv_entry \<times> nat) list \<Rightarrow> kv_entry list" where
  "complete_records w limit total_entries rs =
     take (nat (limit - total_entries)) (map fst (takeWhile (\<lambda>r. snd r \<le> w) rs))"

lemma dump_block_loop_window:
  assumes "laid_out mem ptr prev_seq rs" and "ptr \<le> w"
    and "w \<le> (if rs = [] then ptr else snd (last rs))"
  shows "dump_block_loop mem limit block_num ptr (w - ptr) prev_seq total_entries out =
     (total_entries + int (length (complete_records w limit total_entries rs)),
      out @ dump_lines block_num total_entries (complete_records w limit total_entries rs))"
  using assms
proof (induction rs arbitrary: ptr prev_seq total_entries out)
  case Nil
  then have "w - ptr = 0"
    by simp
  then show ?case
    by (simp add: dump_block_loop.simps [of mem limit block_num ptr 0]
        complete_records_def)
next
  case (Cons x rs)
  obtain e ptr' where x: "x = (e, ptr')"
    by (cases x)
  from Cons.prems(1) obtain q s where
    lt: "ptr < ptr'"
    and rec: "dump_record mem ptr (ptr' - ptr) prev_seq = Some (e, ptr', q, s)"
    and rest: "laid_out mem ptr' s rs"
    unfolding x by (auto split: option.splits)
  note unfold = dump_block_loop.simps [of mem limit block_num ptr "w - ptr" prev_seq
      total_entries out]
  show ?case
  proof (cases "ptr' \<le> w")
    case False
    then have cut: "ptr + (w - ptr) < ptr'"
      using Cons.prems(2) by simp
    have "dump_block_loop mem limit block_num ptr (w - ptr) prev_seq total_entries out =
          (total_entries, out)"
      using rec cut by (rule dump_block_loop_truncated)
    moreover have "complete_records w limit total_entries (x # rs) = []"
      using False by (simp add: complete_records_def x)
    ultimately show ?thesis
      by simp
  next
    case fits: True
    show ?thesis
    proof (cases "total_entries < limit")
      case False
      then have "complete_records w limit total_entries (x # rs) = []"
        by (simp add: complete_records_def)
      with False show ?thesis
        unfolding unfold by simp
    next
      case True
      from dump_record_advance(1) [OF rec] lt have q: "q = 0"
        by simp
      have pos: "0 < ptr' - ptr" and le: "ptr' - ptr \<le> w - ptr"
        using lt fits by simp_all
      from dump_record_budget_mono [OF rec pos le] q
      have rec': "dump_record mem ptr (w - ptr) prev_seq = Some (e, ptr', w - ptr', s)"
        using lt fits by simp
      have w': "w \<le> (if rs = [] then ptr' else snd (last rs))"
        using Cons.prems(3) fits by (auto simp: x split: if_splits)
      let ?l = "\<lparr>dl_num = total_entries + 1, dl_blk = block_num, dl_entry = e\<rparr>"
      have step: "dump_block_loop mem limit block_num ptr (w - ptr) prev_seq total_entries out =
                  dump_block_loop mem limit block_num ptr' (w - ptr') s (total_entries + 1)
                    (out @ [?l])"
        using True lt fits rec' unfolding unfold by simp
      have cr: "complete_records w limit total_entries (x # rs) =
                e # complete_records w limit (total_entries + 1) rs"
      proof -
        from True obtain k where k: "nat (limit - total_entries) = Suc k"
          and k': "nat (limit - (total_entries + 1)) = k"
          by (cases "nat (limit - total_entries)") auto
        show ?thesis
          using fits by (simp add: complete_records_def x k k')
      qed
      show ?thesis
        unfolding step Cons.IH [OF rest fits w'] cr by simp
    qed
  qed
qed

lemma laid_out_first_end:
  assumes "laid_out mem ptr prev_seq rs" and "w < ptr + 4"
  shows "takeWhile (\<lambda>r. snd r \<le> w) rs = []"
proof (cases rs)
  case Nil
  then show ?thesis by simp
next
  case (Cons x rs')
  obtain e ptr' where x: "x = (e, ptr')"
    by (cases x)
  from assms(1) obtain q s where
    "dump_record mem ptr (ptr' - ptr) prev_seq = Some (e, ptr', q, s)"
    unfolding Cons x by (auto split: option.splits)
  from dump_record_min_size [OF this] assms(2) show ?thesis
    by (simp add: Cons x)
qed

lemma dump_block_window:
  assumes "laid_out mem 0 0 rs" and "rs \<noteq> []" and "t \<le> snd (last rs)"
  shows "dump_block \<lparr>blk_data = mem, blk_size = t\<rparr> limit block_num total_entries out =
     (total_entries + int (length (complete_records t limit total_entries rs)),
      out @ dump_lines block_num total_entries (complete_records t limit total_entries rs))"
  using dump_block_loop_window [of mem 0 0 rs t limit block_num total_entries out] assms
  by (simp add: dump_block_def)

lemma dump_walk_window:
  assumes "laid_out mem 0 0 rs" and "rs \<noteq> []" and "t \<le> snd (last rs)"
    and "total_entries < limit"
  shows "dump_walk limit ((pos, Some \<lparr>blk_data = mem, blk_size = t\<rparr>) # rest)
           total_entries block_num out =
     (if rest = [] then
        (total_entries + int (length (complete_records t limit total_entries rs)), block_num,
         out @ dump_lines block_num total_entries (complete_records t limit total_entries rs))
      else
        dump_walk limit rest
          (total_entries + int (length (complete_records t limit total_entries rs)))
          (block_num + 1)
          (out @ dump_lines block_num total_entries
                   (complete_records t limit total_entries rs)))"
proof (cases "t < 4")
  case True
  then have "takeWhile (\<lambda>r. snd r \<le> t) rs = []"
    by (intro laid_out_first_end [OF assms(1)]) simp
  then have "complete_records t limit total_entries rs = []"
    by (simp add: complete_records_def)
  with True assms(4) show ?thesis
    by simp
next
  case False
  with assms(4) show ?thesis
    by (simp add: dump_block_window [OF assms(1,2,3)])
qed

text \<open>
  C2.  (1) \<open>decode_varint_safe\<close> depends on the first \<open>min max_bytes 10\<close> bytes
  only, that is, it reads no other; (2) when the first byte with the continuation
  bit clear stands at index \<open>k\<close> inside that range, it returns \<open>k + 1\<close>, the
  number of bytes consumed; (3) when no byte of the range has the bit clear
  (budget exhausted or 10-byte cap reached) it returns \<open>-1\<close>.  (4) What the
  record loop of the table dump emits for a block depends on the \<open>size\<close> bytes of
  the block only.  (5) When the first record of a block decodes in a window, every
  shorter window that cuts it makes the loop stop without emitting an entry, and
  the walk then goes on with the next block.  (6) The same at any position of the
  loop, whatever it has decoded before: when the window ends inside the record
  that starts there, the loop stops and emits nothing for it.  (7) Hence, for a
  payload of records laid out one behind the other and a window that ends at any
  byte offset \<open>t\<close> of it: the loop emits exactly the records that lie in full
  inside the window (as far as the limit allows), numbered on from the count so
  far, and nothing for the record the window cuts; and (8) the walk is not
  aborted: it goes on with the next block, or ends in the regular way when there
  is none.
\<close>

theorem decoding_is_window_bounded:
  "((\<forall>j. j < min max_bytes 10 \<longrightarrow> data j = data' j) \<longrightarrow>
      decode_varint_safe data max_bytes = decode_varint_safe data' max_bytes)
   \<and> (k < min max_bytes 10 \<and> data k AND 0x80 = 0 \<and> (\<forall>j. j < k \<longrightarrow> data j AND 0x80 \<noteq> 0) \<longrightarrow>
      fst (decode_varint_safe data max_bytes) = int k + 1)
   \<and> ((\<forall>j. j < min max_bytes 10 \<longrightarrow> data j AND 0x80 \<noteq> 0) \<longrightarrow>
      fst (decode_varint_safe data max_bytes) = -1)
   \<and> ((\<forall>j. j < blk_size b \<longrightarrow> blk_data b j = blk_data b' j) \<and> blk_size b' = blk_size b \<longrightarrow>
      dump_block b limit block_num total_entries out =
      dump_block b' limit block_num total_entries out)
   \<and> (dump_record mem 0 n 0 = Some (e, ptr', q, s) \<and> t < ptr' \<longrightarrow>
      dump_block \<lparr>blk_data = mem, blk_size = t\<rparr> limit block_num total_entries out =
        (total_entries, out)
      \<and> (total_entries < limit \<and> 4 \<le> t \<and> rest \<noteq> [] \<longrightarrow>
         dump_walk limit ((pos, Some \<lparr>blk_data = mem, blk_size = t\<rparr>) # rest)
           total_entries block_num out =
         dump_walk limit rest total_entries (block_num + 1) out))
   \<and> (dump_record mem ptr n prev_seq = Some (e, ptr', q, s) \<and> ptr + t < ptr' \<longrightarrow>
      dump_block_loop mem limit block_num ptr t prev_seq' total_entries out =
        (total_entries, out))
   \<and> (laid_out mem 0 0 rs \<and> rs \<noteq> [] \<and> t \<le> snd (last rs) \<longrightarrow>
      dump_block \<lparr>blk_data = mem, blk_size = t\<rparr> limit block_num total_entries out =
        (total_entries + int (length (complete_records t limit total_entries rs)),
         out @ dump_lines block_num total_entries (complete_records t limit total_entries rs))
      \<and> (total_entries < limit \<longrightarrow>
         dump_walk limit ((pos, Some \<lparr>blk_data = mem, blk_size = t\<rparr>) # rest)
           total_entries block_num out =
         (if rest = [] then
            (total_entries + int (length (complete_records t limit total_entries rs)),
             block_num,
             out @ dump_lines block_num total_entries
                     (complete_records t limit total_entries rs))
          else
            dump_walk limit rest
              (total_entries + int (length (complete_records t limit total_entries rs)))
              (block_num + 1)
              (out @ dump_lines block_num total_entries
                       (complete_records t limit total_entries rs)))))"
proof (intro conjI impI)
  assume "\<forall>j. j < min max_bytes 10 \<longrightarrow> data j = data' j"
  then show "decode_varint_safe data max_bytes = decode_varint_safe data' max_bytes"
    by (intro decode_varint_safe_frame) simp
next
  assume "k < min max_bytes 10 \<and> data k AND 0x80 = 0 \<and> (\<forall>j. j < k \<longrightarrow> data j AND 0x80 \<noteq> 0)"
  then show "fst (decode_varint_safe data max_bytes) = int k + 1"
    unfolding decode_varint_safe_def by (intro dvs_loop_stop) simp_all
next
  assume "\<forall>j. j < min max_bytes 10 \<longrightarrow> data j AND 0x80 \<noteq> 0"
  then show "fst (decode_varint_safe data max_bytes) = -1"
    unfolding decode_varint_safe_def by (intro dvs_loop_fail) simp
next
  assume "(\<forall>j. j < blk_size b \<longrightarrow> blk_data b j = blk_data b' j) \<and> blk_size b' = blk_size b"
  then show "dump_block b limit block_num total_entries out =
             dump_block b' limit block_num total_entries out"
    unfolding dump_block_def by (auto intro: dump_block_loop_frame)
next
  assume h: "dump_record mem 0 n 0 = Some (e, ptr', q, s) \<and> t < ptr'"
  then have rec: "dump_record mem 0 n 0 = Some (e, ptr', q, s)" and lt: "0 + t < ptr'"
    by simp_all
  show blk: "dump_block \<lparr>blk_data = mem, blk_size = t\<rparr> limit block_num total_entries out =
        (total_entries, out)"
    unfolding dump_block_def
    using dump_block_loop_truncated [OF rec lt] by simp
  assume "total_entries < limit \<and> 4 \<le> t \<and> rest \<noteq> []"
  then show "dump_walk limit ((pos, Some \<lparr>blk_data = mem, blk_size = t\<rparr>) # rest)
           total_entries block_num out =
         dump_walk limit rest total_entries (block_num + 1) out"
    by (intro dump_walk_skip) (simp_all add: blk)
next
  assume "dump_record mem ptr n prev_seq = Some (e, ptr', q, s) \<and> ptr + t < ptr'"
  then have rec: "dump_record mem ptr n prev_seq = Some (e, ptr', q, s)"
    and lt: "ptr + t < ptr'"
    by simp_all
  from rec lt
  show "dump_block_loop mem limit block_num ptr t prev_seq' total_entries out =
        (total_entries, out)"
    by (rule dump_block_loop_truncated)
next
  assume "laid_out mem 0 0 rs \<and> rs \<noteq> [] \<and> t \<le> snd (last rs)"
  then have lay: "laid_out mem 0 0 rs" and ne: "rs \<noteq> []" and le: "t \<le> snd (last rs)"
    by simp_all
  from lay ne le
  show "dump_block \<lparr>blk_data = mem, blk_size = t\<rparr> limit block_num total_entries out =
        (total_entries + int (length (complete_records t limit total_entries rs)),
         out @ dump_lines block_num total_entries (complete_records t limit total_entries rs))"
    by (rule dump_block_window)
  assume "total_entries < limit"
  with lay ne le
  show "dump_walk limit ((pos, Some \<lparr>blk_data = mem, blk_size = t\<rparr>) # rest)
           total_entries block_num out =
         (if rest = [] then
            (total_entries + int (length (complete_records t limit total_entries rs)),
             block_num,
             out @ dump_lines block_num total_entries
                     (complete_records t limit total_entries rs))
          else
            dump_walk limit rest
              (total_entries + int (length (complete_records t limit total_entries rs)))
              (block_num + 1)
              (out @ dump_lines block_num total_entries
                       (complete_records t limit total_entries rs)))"
    by (rule dump_walk_window)
qed

text \<open>
  The example record: flags 0, key length 1, value length 1, sequence 7, key
  \<open>k\<close>, value \<open>v\<close>; and a payload of two such records, with the sequences 7
  and 8.
\<close>

definition record_example :: "u8 list" where
  "record_example = [0x00, 0x01, 0x01, 0x07, 0x6B, 0x76]"

definition two_records_example :: "u8 list" where
  "two_records_example =
     [0x00, 0x01, 0x01, 0x07, 0x6B, 0x76, 0x00, 0x01, 0x01, 0x08, 0x6B, 0x76]"

definition example_entry :: "u64 \<Rightarrow> kv_entry" where
  "example_entry seq =
     \<lparr>e_flags = 0, e_key_size = 1, e_value_size = 1, e_seq_value = seq, e_seq = seq,
      e_ttl = 0, e_vlog_offset = 0, e_key = [0x6B], e_value = Some [0x76]\<rparr>"

theorem decoding_is_window_bounded_witness:
  "decode_varint_safe (blk_data (block_of [0x81, 0x01])) 2 =
     decode_varint_safe (blk_data (block_of [0x81, 0x01, 0xFF])) 2
   \<and> blk_data (block_of [0x81, 0x01]) 2 \<noteq> blk_data (block_of [0x81, 0x01, 0xFF]) 2
   \<and> fst (decode_varint_safe (blk_data (block_of [0x81, 0x01])) 2) = 2
   \<and> fst (decode_varint_safe (blk_data (block_of [0x81, 0x81])) 2) = -1
   \<and> dump_block (block_of record_example) 1000 0 0 [] =
       dump_block \<lparr>blk_data = blk_data (block_of (record_example @ [0xFF])), blk_size = 6\<rparr>
         1000 0 0 []
   \<and> dump_block \<lparr>blk_data = blk_data (block_of record_example), blk_size = 4\<rparr> 1000 0 0 []
       = (0, [])
   \<and> dump_walk 1000
        [(8, Some \<lparr>blk_data = blk_data (block_of record_example), blk_size = 4\<rparr>),
         (28, Some (block_of record_example))] 0 0 [] =
      dump_walk 1000 [(28, Some (block_of record_example))] 0 1 []
   \<and> dump_block_loop (blk_data (block_of two_records_example)) 1000 0 6 3 7 1
        [\<lparr>dl_num = 1, dl_blk = 0, dl_entry = example_entry 7\<rparr>] =
      (1, [\<lparr>dl_num = 1, dl_blk = 0, dl_entry = example_entry 7\<rparr>])
   \<and> dump_block \<lparr>blk_data = blk_data (block_of two_records_example), blk_size = 9\<rparr>
        1000 0 0 [] =
      (1, [\<lparr>dl_num = 1, dl_blk = 0, dl_entry = example_entry 7\<rparr>])
   \<and> dump_walk 1000
        [(8, Some \<lparr>blk_data = blk_data (block_of two_records_example), blk_size = 9\<rparr>),
         (28, Some (block_of record_example))] 0 0 [] =
      dump_walk 1000 [(28, Some (block_of record_example))] 1 1
        [\<lparr>dl_num = 1, dl_blk = 0, dl_entry = example_entry 7\<rparr>]"
proof -
  have two: "j = 0 \<or> j = 1" if "j < min 2 10" for j :: nat
    using that by auto
  have h1: "\<forall>j. j < min 2 10 \<longrightarrow>
              blk_data (block_of [0x81, 0x01]) j = blk_data (block_of [0x81, 0x01, 0xFF]) j"
  proof (intro allI impI)
    fix j :: nat
    assume "j < min 2 10"
    from two [OF this]
    show "blk_data (block_of [0x81, 0x01]) j = blk_data (block_of [0x81, 0x01, 0xFF]) j"
      by (auto simp: block_of_def)
  qed
  have h2: "(1::nat) < min 2 10 \<and> blk_data (block_of [0x81, 0x01]) 1 AND 0x80 = 0
            \<and> (\<forall>j. j < 1 \<longrightarrow> blk_data (block_of [0x81, 0x01]) j AND 0x80 \<noteq> 0)"
    by (simp add: block_of_def)
  have h3: "\<forall>j. j < min 2 10 \<longrightarrow> blk_data (block_of [0x81, 0x81]) j AND 0x80 \<noteq> 0"
  proof (intro allI impI)
    fix j :: nat
    assume "j < min 2 10"
    from two [OF this] show "blk_data (block_of [0x81, 0x81]) j AND 0x80 \<noteq> 0"
      by (auto simp: block_of_def)
  qed
  have len: "length record_example = 6"
    by (simp add: record_example_def)
  have h4: "(\<forall>j. j < blk_size (block_of record_example) \<longrightarrow>
               blk_data (block_of record_example) j =
               blk_data \<lparr>blk_data = blk_data (block_of (record_example @ [0xFF])),
                         blk_size = 6\<rparr> j)
            \<and> blk_size \<lparr>blk_data = blk_data (block_of (record_example @ [0xFF])),
                         blk_size = 6\<rparr> = blk_size (block_of record_example)"
    by (simp add: block_of_def nth_append len)
  have h5: "dump_record (blk_data (block_of record_example)) 0 6 0 =
              Some (\<lparr>e_flags = 0, e_key_size = 1, e_value_size = 1, e_seq_value = 7,
                      e_seq = 7, e_ttl = 0, e_vlog_offset = 0, e_key = [0x6B],
                      e_value = Some [0x76]\<rparr>, 6, 0, 7)
            \<and> (4::nat) < 6"
    by (simp add: dump_record_def record_example_def eval_varint window_bytes_def)
  have h6: "(0::int) < 1000 \<and> (4::nat) \<le> 4
            \<and> [(28::u64, Some (block_of record_example))] \<noteq> []"
    by simp
  let ?mem = "blk_data (block_of two_records_example)"
  let ?rs = "[(example_entry 7, 6 :: nat), (example_entry 8, 12)]"
  let ?l = "\<lparr>dl_num = 1, dl_blk = 0, dl_entry = example_entry 7\<rparr>"
  have r1: "dump_record ?mem 0 6 0 = Some (example_entry 7, 6, 0, 7)"
    by (simp add: dump_record_def two_records_example_def example_entry_def eval_varint
        window_bytes_def)
  have r2: "dump_record ?mem 6 6 7 = Some (example_entry 8, 12, 0, 8)"
    by (simp add: dump_record_def two_records_example_def example_entry_def eval_varint
        window_bytes_def)
  have h7: "dump_record ?mem 6 6 7 = Some (example_entry 8, 12, 0, 8) \<and> (6::nat) + 3 < 12"
    using r2 by simp
  have h8: "laid_out ?mem 0 0 ?rs \<and> ?rs \<noteq> [] \<and> 9 \<le> snd (last ?rs)"
    by (simp add: r1 r2)
  have h9: "(0::int) < 1000"
    by simp
  have cr: "complete_records 9 1000 0 ?rs = [example_entry 7]"
    by (simp add: complete_records_def)
  note i12 = decoding_is_window_bounded
    [where max_bytes = 2 and data = "blk_data (block_of [0x81, 0x01])"
      and data' = "blk_data (block_of [0x81, 0x01, 0xFF])" and k = 1]
  note i3 = decoding_is_window_bounded
    [where max_bytes = 2 and data = "blk_data (block_of [0x81, 0x81])"]
  note i4 = decoding_is_window_bounded
    [where b = "block_of record_example"
      and b' = "\<lparr>blk_data = blk_data (block_of (record_example @ [0xFF])), blk_size = 6\<rparr>"
      and limit = 1000 and block_num = 0 and total_entries = 0 and out = "[]"]
  note i56 = decoding_is_window_bounded
    [where mem = "blk_data (block_of record_example)" and n = 6 and t = 4
      and limit = 1000 and block_num = 0 and total_entries = 0 and out = "[]"
      and rest = "[(28, Some (block_of record_example))]" and pos = 8]
  note i7 = decoding_is_window_bounded
    [where mem = ?mem and ptr = 6 and n = 6 and prev_seq = 7 and prev_seq' = 7 and t = 3
      and limit = 1000 and block_num = 0 and total_entries = 1 and out = "[?l]"]
  note i8 = decoding_is_window_bounded
    [where mem = ?mem and rs = ?rs and t = 9
      and limit = 1000 and block_num = 0 and total_entries = 0 and out = "[]"
      and rest = "[(28, Some (block_of record_example))]" and pos = 8]
  note c1 = i12 [THEN conjunct1, THEN mp, OF h1]
  note c2 = i12 [THEN conjunct2, THEN conjunct1, THEN mp, OF h2]
  note c3 = i3 [THEN conjunct2, THEN conjunct2, THEN conjunct1, THEN mp, OF h3]
  note c4 = i4 [THEN conjunct2, THEN conjunct2, THEN conjunct2, THEN conjunct1, THEN mp, OF h4]
  note c56 = i56 [THEN conjunct2, THEN conjunct2, THEN conjunct2, THEN conjunct2,
    THEN conjunct1, THEN mp, OF h5]
  note c5 = c56 [THEN conjunct1]
  note c6 = c56 [THEN conjunct2, THEN mp, OF h6, unfolded add.left_neutral]
  note c7 = i7 [THEN conjunct2, THEN conjunct2, THEN conjunct2, THEN conjunct2,
    THEN conjunct2, THEN conjunct1, THEN mp, OF h7]
  note c89 = i8 [THEN conjunct2, THEN conjunct2, THEN conjunct2, THEN conjunct2,
    THEN conjunct2, THEN conjunct2, THEN mp, OF h8, unfolded cr]
  note c8 = c89 [THEN conjunct1]
  note c9 = c89 [THEN conjunct2, THEN mp, OF h9]
  have ne: "blk_data (block_of [0x81, 0x01]) 2 \<noteq> blk_data (block_of [0x81, 0x01, 0xFF]) 2"
    by (simp add: block_of_def)
  from c2 have c2': "fst (decode_varint_safe (blk_data (block_of [0x81, 0x01])) 2) = 2"
    by simp
  from c8
  have c8': "dump_block \<lparr>blk_data = ?mem, blk_size = 9\<rparr> 1000 0 0 [] = (1, [?l])"
    by simp
  from c9
  have c9': "dump_walk 1000
        [(8, Some \<lparr>blk_data = ?mem, blk_size = 9\<rparr>),
         (28, Some (block_of record_example))] 0 0 [] =
      dump_walk 1000 [(28, Some (block_of record_example))] 1 1 [?l]"
    by (simp del: dump_walk.simps)
  from c1 ne c2' c3 c4 c5 c6 c7 c8' c9' show ?thesis
    by (intro conjI)
qed

section \<open>Delta-encoded sequence numbers\<close>

text \<open>
  The rule of the specification for a list of decoded records and the sequence
  number that precedes them: a record with \<open>DELTA_SEQ\<close> carries the previous
  absolute sequence plus its encoded integer, any other record its encoded
  integer.  Sequence numbers are \<open>uint64_t\<close>, so the sums are sums of 64-bit
  values.
\<close>

fun seq_chain :: "u64 \<Rightarrow> kv_entry list \<Rightarrow> bool" where
  "seq_chain prev [] = True"
| "seq_chain prev (e # es) =
     (e_seq e = (if e_flags e AND TDB_KV_FLAG_DELTA_SEQ \<noteq> 0 then prev + e_seq_value e
                 else e_seq_value e)
      \<and> seq_chain (e_seq e) es)"

text \<open>The records a dump printed for the block with a given number.\<close>

definition block_entries :: "int \<Rightarrow> dump_line list \<Rightarrow> kv_entry list" where
  "block_entries n ls = map dl_entry (filter (\<lambda>l. dl_blk l = n) ls)"

lemma seq_chain_append:
  "seq_chain prev (xs @ ys) =
     (seq_chain prev xs \<and> seq_chain (if xs = [] then prev else e_seq (last xs)) ys)"
  by (induction xs arbitrary: prev) auto

lemma dump_record_seq:
  assumes "dump_record mem ptr remaining prev_seq = Some (e, ptr', remaining', s)"
  shows "s = e_seq e"
    and "e_seq e = (if e_flags e AND TDB_KV_FLAG_DELTA_SEQ \<noteq> 0 then prev_seq + e_seq_value e
                    else e_seq_value e)"
  using assms by (auto elim!: dump_record_chain)

text \<open>
  What one run of the record loop adds to the output: the new lines carry the
  number of the block, their sequence numbers follow the rule from \<open>prev_seq\<close>
  on, they are numbered consecutively, and the counter never passes the limit.
\<close>

lemma dump_block_loop_new:
  "\<exists>new. dump_block_loop mem limit block_num ptr remaining prev_seq total_entries out =
            (total_entries + int (length new), out @ new)
         \<and> seq_chain prev_seq (map dl_entry new)
         \<and> (\<forall>l \<in> set new. dl_blk l = block_num)
         \<and> (new \<noteq> [] \<longrightarrow> total_entries + int (length new) \<le> limit)"
proof (induction mem limit block_num ptr remaining prev_seq total_entries out
    rule: dump_block_loop.induct)
  case (1 mem limit block_num ptr remaining prev_seq total_entries out)
  note unfold = dump_block_loop.simps
    [of mem limit block_num ptr remaining prev_seq total_entries out]
  show ?case
  proof (cases "remaining > 0 \<and> total_entries < limit")
    case False
    then have "dump_block_loop mem limit block_num ptr remaining prev_seq total_entries out =
               (total_entries + int (length ([] :: dump_line list)), out @ [])"
      unfolding unfold by auto
    then show ?thesis
      by (intro exI [of _ "[]"]) simp
  next
    case True
    show ?thesis
    proof (cases "dump_record mem ptr remaining prev_seq")
      case None
      with True
      have "dump_block_loop mem limit block_num ptr remaining prev_seq total_entries out =
            (total_entries + int (length ([] :: dump_line list)), out @ [])"
        unfolding unfold by simp
      then show ?thesis
        by (intro exI [of _ "[]"]) simp
    next
      case (Some x)
      obtain e ptr' remaining' s where x: "x = (e, ptr', remaining', s)"
        by (cases x)
      let ?l = "\<lparr>dl_num = total_entries + 1, dl_blk = block_num, dl_entry = e\<rparr>"
      from "1.IH" [OF True Some [unfolded x] refl refl refl]
      obtain new where
        run: "dump_block_loop mem limit block_num ptr' remaining' s (total_entries + 1)
                (out @ [?l]) = (total_entries + 1 + int (length new), (out @ [?l]) @ new)"
        and chain: "seq_chain s (map dl_entry new)"
        and blk: "\<forall>l \<in> set new. dl_blk l = block_num"
        and bound: "new \<noteq> [] \<longrightarrow> total_entries + 1 + int (length new) \<le> limit"
        by blast
      note sq = dump_record_seq [OF Some [unfolded x]]
      have eq: "dump_block_loop mem limit block_num ptr remaining prev_seq total_entries out =
                (total_entries + int (length (?l # new)), out @ (?l # new))"
        using True Some x run unfolding unfold by simp
      have c: "seq_chain prev_seq (map dl_entry (?l # new))"
        using chain sq by simp
      have d: "\<forall>l \<in> set (?l # new). dl_blk l = block_num"
        using blk by simp
      have f: "?l # new \<noteq> [] \<longrightarrow> total_entries + int (length (?l # new)) \<le> limit"
        using bound True by (cases "new = []") simp_all
      show ?thesis
        by (intro exI [of _ "?l # new"] conjI) (fact eq c d f)+
    qed
  qed
qed

lemma dump_block_new:
  "\<exists>new. dump_block b limit block_num total_entries out =
            (total_entries + int (length new), out @ new)
         \<and> seq_chain 0 (map dl_entry new)
         \<and> (\<forall>l \<in> set new. dl_blk l = block_num)
         \<and> (new \<noteq> [] \<longrightarrow> total_entries + int (length new) \<le> limit)"
  unfolding dump_block_def by (rule dump_block_loop_new)

lemma block_entries_append:
  "block_entries n (xs @ ys) = block_entries n xs @ block_entries n ys"
  by (simp add: block_entries_def)

lemma block_entries_same:
  "\<forall>l \<in> set ls. dl_blk l = n \<Longrightarrow> block_entries n ls = map dl_entry ls"
  by (simp add: block_entries_def)

lemma block_entries_other:
  "\<forall>l \<in> set ls. dl_blk l \<noteq> n \<Longrightarrow> block_entries n ls = []"
  by (simp add: block_entries_def)

text \<open>
  The whole walk: the lines it adds carry block numbers from the current one on,
  and the lines of each block follow the rule from 0.
\<close>

lemma dump_walk_new:
  "\<exists>new bn'. dump_walk limit cursor total_entries block_num out =
            (total_entries + int (length new), bn', out @ new)
         \<and> (\<forall>l \<in> set new. block_num \<le> dl_blk l)
         \<and> (\<forall>n. seq_chain 0 (block_entries n new))
         \<and> (new \<noteq> [] \<longrightarrow> total_entries + int (length new) \<le> limit)"
proof (induction cursor arbitrary: total_entries block_num out)
  case Nil
  show ?case
    by (intro exI [of _ "[]"] exI [of _ block_num]) (simp add: block_entries_def)
next
  case (Cons slot rest)
  obtain pos rd where slot: "slot = (pos, rd)"
    by (cases slot)
  have stop: ?case
    if "dump_walk limit (slot # rest) total_entries block_num out =
        (total_entries, block_num, out)"
    using that by (intro exI [of _ "[]"] exI [of _ block_num]) (simp add: block_entries_def)
  show ?case
  proof (cases "total_entries < limit")
    case False
    then show ?thesis
      by (intro stop) (simp add: slot)
  next
    case lim: True
    show ?thesis
    proof (cases rd)
      case None
      with lim show ?thesis
        by (intro stop) (simp add: slot)
    next
      case (Some block)
      show ?thesis
      proof (cases "blk_size block < 4")
        case small: True
        show ?thesis
        proof (cases "rest = []")
          case True
          with lim Some small show ?thesis
            by (intro stop) (simp add: slot)
        next
          case False
          from Cons.IH [of total_entries "block_num + 1" out]
          obtain new bn' where
            w: "dump_walk limit rest total_entries (block_num + 1) out =
                  (total_entries + int (length new), bn', out @ new)"
            and blk: "\<forall>l \<in> set new. block_num + 1 \<le> dl_blk l"
            and chain: "\<forall>n. seq_chain 0 (block_entries n new)"
            and bound: "new \<noteq> [] \<longrightarrow> total_entries + int (length new) \<le> limit"
            by blast
          have "dump_walk limit (slot # rest) total_entries block_num out =
                (total_entries + int (length new), bn', out @ new)"
            using lim Some small False w by (simp add: slot)
          moreover from blk have "\<forall>l \<in> set new. block_num \<le> dl_blk l"
            by auto
          ultimately show ?thesis
            using chain bound by blast
        qed
      next
        case big: False
        from dump_block_new [of block limit block_num total_entries out]
        obtain new1 where
          b: "dump_block block limit block_num total_entries out =
                (total_entries + int (length new1), out @ new1)"
          and chain1: "seq_chain 0 (map dl_entry new1)"
          and blk1: "\<forall>l \<in> set new1. dl_blk l = block_num"
          and bound1: "new1 \<noteq> [] \<longrightarrow> total_entries + int (length new1) \<le> limit"
          by blast
        have chains1: "seq_chain 0 (block_entries n new1)" for n
        proof (cases "n = block_num")
          case True
          with blk1 chain1 show ?thesis
            by (simp add: block_entries_same)
        next
          case False
          with blk1 have "block_entries n new1 = []"
            by (intro block_entries_other) simp
          then show ?thesis by simp
        qed
        show ?thesis
        proof (cases "rest = []")
          case True
          have "dump_walk limit (slot # rest) total_entries block_num out =
                (total_entries + int (length new1), block_num, out @ new1)"
            using lim Some big True b by (simp add: slot)
          moreover from blk1 have "\<forall>l \<in> set new1. block_num \<le> dl_blk l"
            by simp
          ultimately show ?thesis
            using chains1 bound1 by blast
        next
          case False
          from Cons.IH [of "total_entries + int (length new1)" "block_num + 1" "out @ new1"]
          obtain new2 bn' where
            w: "dump_walk limit rest (total_entries + int (length new1)) (block_num + 1)
                  (out @ new1) =
                  (total_entries + int (length new1) + int (length new2), bn',
                   (out @ new1) @ new2)"
            and blk2: "\<forall>l \<in> set new2. block_num + 1 \<le> dl_blk l"
            and chain2: "\<forall>n. seq_chain 0 (block_entries n new2)"
            and bound2: "new2 \<noteq> [] \<longrightarrow>
                           total_entries + int (length new1) + int (length new2) \<le> limit"
            by blast
          have eq: "dump_walk limit (slot # rest) total_entries block_num out =
                (total_entries + int (length (new1 @ new2)), bn', out @ (new1 @ new2))"
            using lim Some big False b w by (simp add: slot)
          have blk: "\<forall>l \<in> set (new1 @ new2). block_num \<le> dl_blk l"
            using blk1 blk2 by auto
          have chain: "seq_chain 0 (block_entries n (new1 @ new2))" for n
          proof (cases "n = block_num")
            case True
            from blk2 True have "block_entries n new2 = []"
              by (intro block_entries_other) auto
            with chains1 [of n] show ?thesis
              by (simp add: block_entries_append)
          next
            case False
            with blk1 have "block_entries n new1 = []"
              by (intro block_entries_other) simp
            with chain2 show ?thesis
              by (simp add: block_entries_append)
          qed
          have bound: "new1 @ new2 \<noteq> [] \<longrightarrow>
                         total_entries + int (length (new1 @ new2)) \<le> limit"
            using bound1 bound2 by (cases "new2 = []") auto
          from eq blk chain bound show ?thesis
            by blast
        qed
      qed
    qed
  qed
qed

lemma cmd_sstable_dump_chain:
  "seq_chain 0 (block_entries n (rp_lines (cmd_sstable_dump arg st bm)))"
proof (cases bm)
  case (Opened cursor)
  show ?thesis
  proof (cases "cursor = []")
    case True
    with Opened show ?thesis
      by (simp add: cmd_sstable_dump_def block_entries_def)
  next
    case False
    from dump_walk_new [of "dump_limit arg" cursor 0 0 "[]"]
    obtain new bn' where
      w: "dump_walk (dump_limit arg) cursor 0 0 [] = (0 + int (length new), bn', [] @ new)"
      and chain: "\<forall>n. seq_chain 0 (block_entries n new)"
      by blast
    from w have "rp_lines (cmd_sstable_dump arg st bm) = new"
      using Opened False by (simp add: cmd_sstable_dump_def Let_def)
    with chain show ?thesis by simp
  qed
qed (simp_all add: cmd_sstable_dump_def block_entries_def)

lemma seq_chain_all_delta:
  "seq_chain prev es \<Longrightarrow> \<forall>e \<in> set es. e_flags e AND TDB_KV_FLAG_DELTA_SEQ \<noteq> 0 \<Longrightarrow>
   k < length es \<Longrightarrow>
   e_seq (es ! k) = prev + sum_list (map e_seq_value (take (Suc k) es))"
proof (induction es arbitrary: prev k)
  case Nil
  then show ?case by simp
next
  case (Cons e es)
  show ?case
  proof (cases k)
    case 0
    with Cons.prems show ?thesis by simp
  next
    case (Suc j)
    from Cons.prems(1) have hd: "e_seq e = prev + e_seq_value e"
      and tl: "seq_chain (e_seq e) es"
      using Cons.prems(2) by auto
    from Cons.prems Suc
    have "e_seq (es ! j) = e_seq e + sum_list (map e_seq_value (take (Suc j) es))"
      by (intro Cons.IH [OF tl]) simp_all
    with hd Suc show ?thesis
      by (simp add: add.assoc)
  qed
qed

lemma unat_sum_list_u64:
  "unat (sum_list ws) = sum_list (map unat ws) mod 2 ^ 64" for ws :: "u64 list"
proof (induction ws)
  case Nil
  then show ?case by simp
next
  case (Cons w ws)
  have "unat (w + sum_list ws) = (unat w + unat (sum_list ws)) mod 2 ^ 64"
    by (simp add: unat_word_ariths)
  also have "\<dots> = (unat w + sum_list (map unat ws) mod 2 ^ 64) mod 2 ^ 64"
    by (simp add: Cons.IH)
  also have "\<dots> = (unat w + sum_list (map unat ws)) mod 2 ^ 64"
    by (rule mod_add_right_eq)
  finally show ?case by simp
qed

lemma unat_add_sum_list_u64:
  fixes s :: u64
  assumes "unat s + sum_list (map unat ws) < 2 ^ 64"
  shows "unat (s + sum_list ws) = unat s + sum_list (map unat ws)"
proof -
  have "unat (s + sum_list ws) = (unat s + unat (sum_list ws)) mod 2 ^ 64"
    by (simp add: unat_word_ariths)
  also have "\<dots> = (unat s + sum_list (map unat ws) mod 2 ^ 64) mod 2 ^ 64"
    by (simp add: unat_sum_list_u64)
  also have "\<dots> = (unat s + sum_list (map unat ws)) mod 2 ^ 64"
    by (rule mod_add_right_eq)
  also have "\<dots> = unat s + sum_list (map unat ws)"
    using assms by simp
  finally show ?thesis .
qed

text \<open>
  C4.  Take the records the table dump printed for one block, in order.  Their
  sequence numbers follow the delta rule starting from 0 (the accumulator is reset
  for every block).  So, when the first record \<open>e0\<close> is absolute and the
  following records \<open>es\<close> all carry \<open>DELTA_SEQ\<close>, the first sequence is the
  encoded \<open>s_0\<close> and the \<open>k\<close>-th following one is \<open>s_0 + d_1 + \<dots> + d_k\<close>, as
  64-bit sums and, while they stay below \<open>2^64\<close>, as sums of natural numbers;
  and when the first record of a block carries \<open>DELTA_SEQ\<close>, its sequence is its
  encoded integer, that is, it is taken relative to 0.
\<close>

theorem delta_sequences_accumulate_per_block:
  "seq_chain 0 (block_entries n (rp_lines (cmd_sstable_dump arg st bm)))
   \<and> (block_entries n (rp_lines (cmd_sstable_dump arg st bm)) = e0 # es
      \<and> e_flags e0 AND TDB_KV_FLAG_DELTA_SEQ = 0
      \<and> (\<forall>e \<in> set es. e_flags e AND TDB_KV_FLAG_DELTA_SEQ \<noteq> 0) \<longrightarrow>
      e_seq e0 = e_seq_value e0
      \<and> (\<forall>k < length es.
            e_seq (es ! k) = e_seq_value e0 + sum_list (map e_seq_value (take (Suc k) es))
            \<and> (unat (e_seq_value e0) + sum_list (map unat (map e_seq_value (take (Suc k) es)))
                 < 2 ^ 64 \<longrightarrow>
               unat (e_seq (es ! k)) =
                 unat (e_seq_value e0)
                 + sum_list (map unat (map e_seq_value (take (Suc k) es))))))
   \<and> (block_entries n (rp_lines (cmd_sstable_dump arg st bm)) = e0 # es
      \<and> e_flags e0 AND TDB_KV_FLAG_DELTA_SEQ \<noteq> 0 \<longrightarrow>
      e_seq e0 = e_seq_value e0)"
proof (intro conjI impI allI)
  show "seq_chain 0 (block_entries n (rp_lines (cmd_sstable_dump arg st bm)))"
    by (rule cmd_sstable_dump_chain)
next
  assume h: "block_entries n (rp_lines (cmd_sstable_dump arg st bm)) = e0 # es
      \<and> e_flags e0 AND TDB_KV_FLAG_DELTA_SEQ = 0
      \<and> (\<forall>e \<in> set es. e_flags e AND TDB_KV_FLAG_DELTA_SEQ \<noteq> 0)"
  with cmd_sstable_dump_chain [of n arg st bm]
  have first: "e_seq e0 = e_seq_value e0" and chain: "seq_chain (e_seq e0) es"
    by auto
  show "e_seq e0 = e_seq_value e0" by (rule first)
  fix k
  assume k: "k < length es"
  from seq_chain_all_delta [OF chain _ k] h first
  show sum: "e_seq (es ! k) = e_seq_value e0 + sum_list (map e_seq_value (take (Suc k) es))"
    by simp
  assume "unat (e_seq_value e0) + sum_list (map unat (map e_seq_value (take (Suc k) es)))
            < 2 ^ 64"
  from unat_add_sum_list_u64 [OF this] sum
  show "unat (e_seq (es ! k)) =
          unat (e_seq_value e0) + sum_list (map unat (map e_seq_value (take (Suc k) es)))"
    by simp
next
  assume "block_entries n (rp_lines (cmd_sstable_dump arg st bm)) = e0 # es
      \<and> e_flags e0 AND TDB_KV_FLAG_DELTA_SEQ \<noteq> 0"
  with cmd_sstable_dump_chain [of n arg st bm]
  show "e_seq e0 = e_seq_value e0"
    by simp
qed

text \<open>
  A table of two blocks.  The first holds three records with the encoded
  sequence integers 100, 5 and 7, the second and the third with \<open>DELTA_SEQ\<close>;
  the second block holds one record with \<open>DELTA_SEQ\<close> and the integer 3.
\<close>

definition delta_example :: bm_cursor where
  "delta_example =
     [(8, Some (block_of [0x00, 0x01, 0x00, 0x64, 0x61,
                          0x08, 0x01, 0x00, 0x05, 0x62,
                          0x08, 0x01, 0x00, 0x07, 0x63])),
      (39, Some (block_of [0x08, 0x01, 0x00, 0x03, 0x64]))]"

definition delta_entry :: "u8 \<Rightarrow> u64 \<Rightarrow> u64 \<Rightarrow> u8 \<Rightarrow> kv_entry" where
  "delta_entry flags seq_value seq key =
     \<lparr>e_flags = flags, e_key_size = 1, e_value_size = 0, e_seq_value = seq_value,
      e_seq = seq, e_ttl = 0, e_vlog_offset = 0, e_key = [key], e_value = None\<rparr>"

lemma delta_example_lines:
  "rp_lines (cmd_sstable_dump None None (Opened delta_example)) =
   [\<lparr>dl_num = 1, dl_blk = 0, dl_entry = delta_entry 0x00 100 100 0x61\<rparr>,
    \<lparr>dl_num = 2, dl_blk = 0, dl_entry = delta_entry 0x08 5 105 0x62\<rparr>,
    \<lparr>dl_num = 3, dl_blk = 0, dl_entry = delta_entry 0x08 7 112 0x63\<rparr>,
    \<lparr>dl_num = 4, dl_blk = 1, dl_entry = delta_entry 0x08 3 3 0x64\<rparr>]"
  by (simp add: cmd_sstable_dump_def delta_example_def dump_limit_def
      ADMINTOOL_DEFAULT_DUMP_LIMIT_def large_file_warning_def dump_block_def
      dump_block_loop.simps dump_record_def eval_varint window_bytes_def delta_entry_def)

theorem delta_sequences_accumulate_per_block_witness:
  "map e_seq (block_entries 0 (rp_lines (cmd_sstable_dump None None (Opened delta_example))))
     = [100, 100 + 5, 100 + (5 + 7)]
   \<and> unat (e_seq (block_entries 0
         (rp_lines (cmd_sstable_dump None None (Opened delta_example))) ! 2)) = 100 + (5 + 7)
   \<and> map e_seq (block_entries 1 (rp_lines (cmd_sstable_dump None None (Opened delta_example))))
     = [3]"
proof -
  let ?L = "rp_lines (cmd_sstable_dump None None (Opened delta_example))"
  let ?a = "delta_entry 0x00 100 100 0x61" and ?b = "delta_entry 0x08 5 105 0x62"
  let ?c = "delta_entry 0x08 7 112 0x63" and ?d = "delta_entry 0x08 3 3 0x64"
  have b0: "block_entries 0 ?L = ?a # [?b, ?c]" and b1: "block_entries 1 ?L = ?d # []"
    by (simp_all add: delta_example_lines block_entries_def)
  have h0: "block_entries 0 ?L = ?a # [?b, ?c]
            \<and> e_flags ?a AND TDB_KV_FLAG_DELTA_SEQ = 0
            \<and> (\<forall>e \<in> set [?b, ?c]. e_flags e AND TDB_KV_FLAG_DELTA_SEQ \<noteq> 0)"
    using b0 by (simp add: delta_entry_def TDB_KV_FLAG_DELTA_SEQ_def)
  have h1: "block_entries 1 ?L = ?d # [] \<and> e_flags ?d AND TDB_KV_FLAG_DELTA_SEQ \<noteq> 0"
    using b1 by (simp add: delta_entry_def TDB_KV_FLAG_DELTA_SEQ_def)
  note t0 = delta_sequences_accumulate_per_block
    [where n = 0 and arg = None and st = None and bm = "Opened delta_example"
      and ?e0.0 = ?a and es = "[?b, ?c]", THEN conjunct2, THEN conjunct1, THEN mp, OF h0]
  note t1 = delta_sequences_accumulate_per_block
    [where n = 1 and arg = None and st = None and bm = "Opened delta_example"
      and ?e0.0 = ?d and es = "[]", THEN conjunct2, THEN conjunct2, THEN mp, OF h1]
  have k0: "(0::nat) < length [?b, ?c]" and k1: "(1::nat) < length [?b, ?c]"
    by simp_all
  note s0 = t0 [THEN conjunct2, THEN spec, THEN mp, OF k0, THEN conjunct1]
  note s1 = t0 [THEN conjunct2, THEN spec, THEN mp, OF k1]
  have small: "unat (e_seq_value ?a)
               + sum_list (map unat (map e_seq_value (take (Suc 1) [?b, ?c]))) < 2 ^ 64"
    by (simp add: delta_entry_def)
  note u1 = s1 [THEN conjunct2, THEN mp, OF small]
  have "e_seq ?a = 100"
    using t0 [THEN conjunct1] by (simp add: delta_entry_def)
  moreover have "e_seq ?b = 100 + 5"
    using s0 by (simp add: delta_entry_def)
  moreover have "e_seq ?c = 100 + (5 + 7)"
    using s1 [THEN conjunct1] by (simp add: delta_entry_def)
  moreover have "unat (e_seq ?c) = 100 + (5 + 7)"
    using u1 by (simp add: delta_entry_def)
  moreover have "e_seq ?d = 3"
    using t1 by (simp add: delta_entry_def)
  ultimately show ?thesis
    by (simp add: b0 b1)
qed

section \<open>The positional scanner, block by block\<close>

text \<open>
  What the positional scanners find at a position: the header fields when eight
  bytes can be read, and the payload with them when the declared length is
  admissible, the buffer can be allocated and the payload is there in full.
\<close>

definition header_at :: "u8 list \<Rightarrow> nat \<Rightarrow> (u32 \<times> u32) option" where
  "header_at file pos =
     (if length (pread file 8 pos) \<noteq> 8 then None
      else Some (decode_uint32_le (pread file 8 pos),
                 decode_uint32_le (drop 4 (pread file 8 pos))))"

definition block_at :: "(nat \<Rightarrow> bool) \<Rightarrow> u8 list \<Rightarrow> nat \<Rightarrow> (u32 \<times> u32 \<times> u8 list) option" where
  "block_at malloc_ok file pos =
     (case header_at file pos of
        None \<Rightarrow> None
      | Some (block_size, stored_checksum) \<Rightarrow>
          if block_size = 0 \<or> block_size > MAX_BLOCK_SIZE then None
          else if \<not> malloc_ok (unat block_size) then None
          else if length (pread file (unat block_size) (pos + 8)) \<noteq> unat block_size then None
          else Some (block_size, stored_checksum, pread file (unat block_size) (pos + 8)))"

lemma block_at_Some:
  assumes "block_at malloc_ok file pos = Some (block_size, stored_checksum, data)"
  shows "length (pread file 8 pos) = 8"
    and "block_size = decode_uint32_le (pread file 8 pos)"
    and "stored_checksum = decode_uint32_le (drop 4 (pread file 8 pos))"
    and "\<not> (block_size = 0 \<or> block_size > MAX_BLOCK_SIZE)"
    and "malloc_ok (unat block_size)"
    and "data = pread file (unat block_size) (pos + 8)"
    and "length data = unat block_size"
  using assms
  by (auto simp: block_at_def header_at_def split: if_splits)

lemma block_at_stride:
  "block_at malloc_ok file pos = Some (block_size, stored_checksum, data) \<Longrightarrow>
   block_stride block_size = 8 + unat block_size + 8"
  by (rule block_stride_valid) (rule block_at_Some(4))

text \<open>The list of visited headers is well strided: see C8 below.\<close>

fun strided :: "(nat \<times> u32) list \<Rightarrow> bool" where
  "strided [] = True"
| "strided [x] = True"
| "strided ((pos, block_size) # (pos', block_size') # rest) =
     (block_size \<noteq> 0 \<and> block_size \<le> MAX_BLOCK_SIZE
      \<and> pos' = pos + 8 + unat block_size + 8
      \<and> strided ((pos', block_size') # rest))"

lemma strided_Cons:
  "strided ((pos, block_size) # vs) =
     (vs = [] \<or> (block_size \<noteq> 0 \<and> block_size \<le> MAX_BLOCK_SIZE
                 \<and> fst (hd vs) = pos + 8 + unat block_size + 8 \<and> strided vs))"
  by (cases vs) auto

lemma checksum_loop_block:
  assumes "pos < length file"
    and "block_at malloc_ok file pos = Some (block_size, stored_checksum, data)"
  shows "checksum_loop XXH32 malloc_ok file pos block_num valid_blocks invalid_blocks visited =
     (if compute_block_checksum XXH32 data (unat block_size) \<noteq> stored_checksum then
        checksum_loop XXH32 malloc_ok file (pos + 8 + unat block_size + 8) (block_num + 1)
          valid_blocks (invalid_blocks + 1) (visited @ [(pos, block_size)])
      else
        checksum_loop XXH32 malloc_ok file (pos + 8 + unat block_size + 8) (block_num + 1)
          (valid_blocks + 1) invalid_blocks (visited @ [(pos, block_size)]))"
  using assms(1) block_at_Some [OF assms(2)] block_at_stride [OF assms(2)]
  by (simp add: checksum_loop.simps
      [of XXH32 malloc_ok _ pos block_num valid_blocks invalid_blocks visited] Let_def
      add.assoc)

lemma checksum_loop_stop:
  assumes "\<not> pos < length file \<or> block_at malloc_ok file pos = None"
  shows "checksum_loop XXH32 malloc_ok file pos block_num valid_blocks invalid_blocks visited =
     (if \<not> pos < length file then (block_num, valid_blocks, invalid_blocks, visited)
      else case header_at file pos of
        None \<Rightarrow> (block_num, valid_blocks, invalid_blocks, visited)
      | Some (block_size, stored_checksum) \<Rightarrow>
          if block_size = 0 \<or> block_size > MAX_BLOCK_SIZE then
            (block_num, valid_blocks, invalid_blocks + 1, visited @ [(pos, block_size)])
          else if \<not> malloc_ok (unat block_size) then
            (block_num, valid_blocks, invalid_blocks, visited @ [(pos, block_size)])
          else (block_num, valid_blocks, invalid_blocks + 1, visited @ [(pos, block_size)]))"
  using assms
  by (auto simp: checksum_loop.simps
      [of XXH32 malloc_ok _ pos block_num valid_blocks invalid_blocks visited] Let_def
      block_at_def header_at_def split: if_splits)

lemma checksum_loop_visited:
  "\<exists>bn' v' i' vis.
     checksum_loop XXH32 malloc_ok file pos block_num valid_blocks invalid_blocks visited =
       (bn', v', i', visited @ vis)
     \<and> strided vis \<and> (vis \<noteq> [] \<longrightarrow> fst (hd vis) = pos)"
proof (induction "length file - pos" arbitrary: pos block_num valid_blocks invalid_blocks visited
    rule: less_induct)
  case less
  show ?case
  proof (cases "pos < length file \<and> block_at malloc_ok file pos \<noteq> None")
    case False
    then have stop: "\<not> pos < length file \<or> block_at malloc_ok file pos = None"
      by (cases "block_at malloc_ok file pos") auto
    show ?thesis
    proof (cases "\<not> pos < length file \<or> header_at file pos = None")
      case True
      with checksum_loop_stop [OF stop]
      have "checksum_loop XXH32 malloc_ok file pos block_num valid_blocks invalid_blocks visited
            = (block_num, valid_blocks, invalid_blocks, visited @ [])"
        by auto
      then show ?thesis
        by (intro exI [of _ "[]"] exI) simp
    next
      case False
      then obtain block_size stored_checksum where
        h: "header_at file pos = Some (block_size, stored_checksum)" and "pos < length file"
        by auto
      with checksum_loop_stop [OF stop]
      have "\<exists>bn' v' i'.
              checksum_loop XXH32 malloc_ok file pos block_num valid_blocks invalid_blocks
                visited = (bn', v', i', visited @ [(pos, block_size)])"
        by (auto split: if_splits)
      then show ?thesis
        by (auto intro!: exI [of _ "[(pos, block_size)]"])
    qed
  next
    case True
    then obtain block_size stored_checksum data where
      inside: "pos < length file"
      and blk: "block_at malloc_ok file pos = Some (block_size, stored_checksum, data)"
      by (cases "block_at malloc_ok file pos") auto
    let ?next = "pos + 8 + unat block_size + 8"
    have smaller: "length file - ?next < length file - pos"
      using inside by simp
    have valid: "block_size \<noteq> 0 \<and> block_size \<le> MAX_BLOCK_SIZE"
      using block_at_Some(4) [OF blk] by (simp add: not_less)
    have step: "\<exists>v2 i2.
        checksum_loop XXH32 malloc_ok file pos block_num valid_blocks invalid_blocks visited =
        checksum_loop XXH32 malloc_ok file ?next (block_num + 1) v2 i2
          (visited @ [(pos, block_size)])"
      unfolding checksum_loop_block [OF inside blk] by auto
    then obtain v2 i2 where
      eq: "checksum_loop XXH32 malloc_ok file pos block_num valid_blocks invalid_blocks visited =
           checksum_loop XXH32 malloc_ok file ?next (block_num + 1) v2 i2
             (visited @ [(pos, block_size)])"
      by blast
    from less [OF smaller, of "block_num + 1" v2 i2 "visited @ [(pos, block_size)]"]
    obtain bn' v' i' vis where
      run: "checksum_loop XXH32 malloc_ok file ?next (block_num + 1) v2 i2
              (visited @ [(pos, block_size)]) = (bn', v', i', (visited @ [(pos, block_size)]) @ vis)"
      and st: "strided vis" and hd: "vis \<noteq> [] \<longrightarrow> fst (hd vis) = ?next"
      by blast
    have "checksum_loop XXH32 malloc_ok file pos block_num valid_blocks invalid_blocks visited =
          (bn', v', i', visited @ ((pos, block_size) # vis))"
      using eq run by simp
    moreover have "strided ((pos, block_size) # vis)"
      using st hd valid by (auto simp: strided_Cons)
    ultimately show ?thesis
      by (intro exI [of _ "(pos, block_size) # vis"] exI [of _ bn'] exI [of _ v']
          exI [of _ i']) simp
  qed
qed

lemma strided_invalid_is_last:
  "strided vs \<Longrightarrow> k < length vs \<Longrightarrow> snd (vs ! k) = 0 \<or> snd (vs ! k) > MAX_BLOCK_SIZE \<Longrightarrow>
   Suc k = length vs"
proof (induction vs arbitrary: k rule: strided.induct)
  case 1
  then show ?case by simp
next
  case (2 x)
  then show ?case by simp
next
  case (3 pos block_size pos' block_size' rest)
  show ?case
  proof (cases k)
    case 0
    with "3.prems" show ?thesis by (auto simp: not_less [symmetric])
  next
    case (Suc j)
    from "3.prems"(1) have tl: "strided ((pos', block_size') # rest)"
      by auto
    from "3.prems"(2,3) Suc have "Suc j = length ((pos', block_size') # rest)"
      by (intro "3.IH" [OF tl]) simp_all
    with Suc show ?thesis by simp
  qed
qed

lemma strided_nth_Suc:
  "strided vs \<Longrightarrow> Suc k < length vs \<Longrightarrow>
   fst (vs ! Suc k) = fst (vs ! k) + 8 + unat (snd (vs ! k)) + 8"
proof (induction vs arbitrary: k rule: strided.induct)
  case 1
  then show ?case by simp
next
  case (2 x)
  then show ?case by simp
next
  case (3 pos block_size pos' block_size' rest)
  show ?case
  proof (cases k)
    case 0
    with "3.prems" show ?thesis by simp
  next
    case (Suc j)
    from "3.prems"(1) have tl: "strided ((pos', block_size') # rest)"
      by auto
    from "3.prems"(2) Suc have "fst (((pos', block_size') # rest) ! Suc j) =
        fst (((pos', block_size') # rest) ! j) + 8
        + unat (snd (((pos', block_size') # rest) ! j)) + 8"
      by (intro "3.IH" [OF tl]) simp_all
    with Suc show ?thesis by simp
  qed
qed

text \<open>
  What one run of the record loop of the full dump adds: lines of the current
  block, flagged exactly when its checksum failed, never more than the limit.
\<close>

lemma full_block_loop_new:
  "\<exists>new. full_block_loop XXH32 malloc_ok vlog mem limit block_num checksum_ok ptr remaining
            prev_seq total_entries out = (total_entries + int (length new), out @ new)
         \<and> (\<forall>l \<in> set new. fl_blk l = block_num \<and> fl_checksum_err l = (\<not> checksum_ok))
         \<and> (new \<noteq> [] \<longrightarrow> total_entries + int (length new) \<le> limit)"
proof (induction XXH32 malloc_ok vlog mem limit block_num checksum_ok ptr remaining prev_seq
    total_entries out rule: full_block_loop.induct)
  case (1 XXH32 malloc_ok vlog mem limit block_num checksum_ok ptr remaining prev_seq
    total_entries out)
  note unfold = full_block_loop.simps [of XXH32 malloc_ok vlog mem limit block_num checksum_ok
    ptr remaining prev_seq total_entries out]
  have stop: ?case
    if "full_block_loop XXH32 malloc_ok vlog mem limit block_num checksum_ok ptr remaining
          prev_seq total_entries out = (total_entries, out)"
    using that by (intro exI [of _ "[]"]) simp
  show ?case
  proof (cases "remaining > 0 \<and> total_entries < limit")
    case False
    then show ?thesis
      by (intro stop) (auto simp: unfold)
  next
    case True
    show ?thesis
    proof (cases "full_record XXH32 malloc_ok vlog mem ptr remaining prev_seq")
      case None
      with True show ?thesis
        by (intro stop) (simp add: unfold)
    next
      case (Some x)
      obtain e vlog_status ptr' remaining' s where
        x: "x = ((e, vlog_status), ptr', remaining', s)"
        by (cases x) auto
      let ?l = "\<lparr>fl_num = total_entries + 1, fl_blk = block_num,
                  fl_checksum_err = (\<not> checksum_ok), fl_vlog_status = vlog_status,
                  fl_vlog_note =
                    (if e_flags e AND TDB_KV_FLAG_HAS_VLOG \<noteq> 0
                     then vlog_annotation vlog_status (vlog \<noteq> NoVlogPath) else []),
                  fl_entry = e\<rparr>"
      from "1.IH" [OF True Some [unfolded x] refl refl refl refl]
      obtain new where
        run: "full_block_loop XXH32 malloc_ok vlog mem limit block_num checksum_ok ptr'
                remaining' s (total_entries + 1) (out @ [?l]) =
                (total_entries + 1 + int (length new), (out @ [?l]) @ new)"
        and blk: "\<forall>l \<in> set new. fl_blk l = block_num \<and> fl_checksum_err l = (\<not> checksum_ok)"
        and bound: "new \<noteq> [] \<longrightarrow> total_entries + 1 + int (length new) \<le> limit"
        by blast
      have eq: "full_block_loop XXH32 malloc_ok vlog mem limit block_num checksum_ok ptr
                  remaining prev_seq total_entries out =
                (total_entries + int (length (?l # new)), out @ (?l # new))"
        using True Some x run unfolding unfold by simp
      have d: "\<forall>l \<in> set (?l # new). fl_blk l = block_num \<and> fl_checksum_err l = (\<not> checksum_ok)"
        using blk by simp
      have f: "?l # new \<noteq> [] \<longrightarrow> total_entries + int (length (?l # new)) \<le> limit"
        using bound True by (cases "new = []") simp_all
      show ?thesis
        by (intro exI [of _ "?l # new"] conjI) (fact eq d f)+
    qed
  qed
qed

text \<open>
  The checksum of a block enters the record loop through the flag of the lines
  only: two runs that differ in \<open>checksum_ok\<close> add the same lines up to the flag.
\<close>

lemma full_block_loop_flag:
  "full_block_loop XXH32 malloc_ok vlog mem limit block_num ok' ptr remaining prev_seq
     total_entries (map (\<lambda>l. l\<lparr>fl_checksum_err := \<not> ok'\<rparr>) out) =
   (fst (full_block_loop XXH32 malloc_ok vlog mem limit block_num checksum_ok ptr remaining
           prev_seq total_entries out),
    map (\<lambda>l. l\<lparr>fl_checksum_err := \<not> ok'\<rparr>)
      (snd (full_block_loop XXH32 malloc_ok vlog mem limit block_num checksum_ok ptr remaining
              prev_seq total_entries out)))"
proof (induction XXH32 malloc_ok vlog mem limit block_num checksum_ok ptr remaining prev_seq
    total_entries out rule: full_block_loop.induct)
  case (1 XXH32 malloc_ok vlog mem limit block_num checksum_ok ptr remaining prev_seq
    total_entries out)
  let ?f = "\<lambda>l. l\<lparr>fl_checksum_err := \<not> ok'\<rparr>"
  note unfold = full_block_loop.simps [of XXH32 malloc_ok vlog mem limit block_num checksum_ok
    ptr remaining prev_seq total_entries out]
  note unfold' = full_block_loop.simps [of XXH32 malloc_ok vlog mem limit block_num ok'
    ptr remaining prev_seq total_entries "map ?f out"]
  show ?case
  proof (cases "remaining > 0 \<and> total_entries < limit")
    case False
    then show ?thesis
      unfolding unfold unfold' by auto
  next
    case True
    show ?thesis
    proof (cases "full_record XXH32 malloc_ok vlog mem ptr remaining prev_seq")
      case None
      with True show ?thesis
        unfolding unfold unfold' by simp
    next
      case (Some x)
      obtain e vlog_status ptr' remaining' s where
        x: "x = ((e, vlog_status), ptr', remaining', s)"
        by (cases x) auto
      let ?l = "\<lambda>ok. \<lparr>fl_num = total_entries + 1, fl_blk = block_num,
                  fl_checksum_err = (\<not> ok), fl_vlog_status = vlog_status,
                  fl_vlog_note =
                    (if e_flags e AND TDB_KV_FLAG_HAS_VLOG \<noteq> 0
                     then vlog_annotation vlog_status (vlog \<noteq> NoVlogPath) else []),
                  fl_entry = e\<rparr>"
      have line: "map ?f out @ [?l ok'] = map ?f (out @ [?l checksum_ok])"
        by simp
      note ih = "1.IH" [OF True Some [unfolded x] refl refl refl refl]
      have a: "full_block_loop XXH32 malloc_ok vlog mem limit block_num ok' ptr remaining
                 prev_seq total_entries (map ?f out) =
               full_block_loop XXH32 malloc_ok vlog mem limit block_num ok' ptr' remaining' s
                 (total_entries + 1) (map ?f (out @ [?l checksum_ok]))"
        using True Some x unfolding unfold' line [symmetric] by simp
      have b: "full_block_loop XXH32 malloc_ok vlog mem limit block_num checksum_ok ptr
                 remaining prev_seq total_entries out =
               full_block_loop XXH32 malloc_ok vlog mem limit block_num checksum_ok ptr'
                 remaining' s (total_entries + 1) (out @ [?l checksum_ok])"
        using True Some x unfolding unfold by simp
      show ?thesis
        unfolding a b by (rule ih)
    qed
  qed
qed

lemma full_block_loop_out:
  "full_block_loop XXH32 malloc_ok vlog mem limit block_num checksum_ok ptr remaining prev_seq
     total_entries (pre @ out) =
   (fst (full_block_loop XXH32 malloc_ok vlog mem limit block_num checksum_ok ptr remaining
           prev_seq total_entries out),
    pre @ snd (full_block_loop XXH32 malloc_ok vlog mem limit block_num checksum_ok ptr
                 remaining prev_seq total_entries out))"
proof (induction XXH32 malloc_ok vlog mem limit block_num checksum_ok ptr remaining prev_seq
    total_entries out rule: full_block_loop.induct)
  case (1 XXH32 malloc_ok vlog mem limit block_num checksum_ok ptr remaining prev_seq
    total_entries out)
  note unfold = full_block_loop.simps [of XXH32 malloc_ok vlog mem limit block_num checksum_ok
    ptr remaining prev_seq total_entries out]
  note unfold' = full_block_loop.simps [of XXH32 malloc_ok vlog mem limit block_num checksum_ok
    ptr remaining prev_seq total_entries "pre @ out"]
  show ?case
  proof (cases "remaining > 0 \<and> total_entries < limit")
    case False
    then show ?thesis
      unfolding unfold unfold' by auto
  next
    case True
    show ?thesis
    proof (cases "full_record XXH32 malloc_ok vlog mem ptr remaining prev_seq")
      case None
      with True show ?thesis
        unfolding unfold unfold' by simp
    next
      case (Some x)
      obtain e vlog_status ptr' remaining' s where
        x: "x = ((e, vlog_status), ptr', remaining', s)"
        by (cases x) auto
      let ?l = "\<lparr>fl_num = total_entries + 1, fl_blk = block_num,
                  fl_checksum_err = (\<not> checksum_ok), fl_vlog_status = vlog_status,
                  fl_vlog_note =
                    (if e_flags e AND TDB_KV_FLAG_HAS_VLOG \<noteq> 0
                     then vlog_annotation vlog_status (vlog \<noteq> NoVlogPath) else []),
                  fl_entry = e\<rparr>"
      note ih = "1.IH" [OF True Some [unfolded x] refl refl refl refl]
      have a: "full_block_loop XXH32 malloc_ok vlog mem limit block_num checksum_ok ptr
                 remaining prev_seq total_entries (pre @ out) =
               full_block_loop XXH32 malloc_ok vlog mem limit block_num checksum_ok ptr'
                 remaining' s (total_entries + 1) (pre @ (out @ [?l]))"
        using True Some x unfolding unfold' by simp
      have b: "full_block_loop XXH32 malloc_ok vlog mem limit block_num checksum_ok ptr
                 remaining prev_seq total_entries out =
               full_block_loop XXH32 malloc_ok vlog mem limit block_num checksum_ok ptr'
                 remaining' s (total_entries + 1) (out @ [?l])"
        using True Some x unfolding unfold by simp
      show ?thesis
        unfolding a b by (rule ih)
    qed
  qed
qed

text \<open>
  Hence: what a block with a failed checksum adds to the output is what the block
  adds when its checksum is good, every line flagged.
\<close>

lemma full_block_loop_checksum:
  "full_block_loop XXH32 malloc_ok vlog mem limit block_num False ptr remaining prev_seq
     total_entries out =
   (fst (full_block_loop XXH32 malloc_ok vlog mem limit block_num True ptr remaining
           prev_seq total_entries []),
    out @ map (\<lambda>l. l\<lparr>fl_checksum_err := True\<rparr>)
            (snd (full_block_loop XXH32 malloc_ok vlog mem limit block_num True ptr remaining
                    prev_seq total_entries [])))"
proof -
  have "full_block_loop XXH32 malloc_ok vlog mem limit block_num False ptr remaining prev_seq
          total_entries (out @ []) =
        (fst (full_block_loop XXH32 malloc_ok vlog mem limit block_num False ptr remaining
                prev_seq total_entries []),
         out @ snd (full_block_loop XXH32 malloc_ok vlog mem limit block_num False ptr
                      remaining prev_seq total_entries []))"
    by (rule full_block_loop_out)
  moreover
  have "full_block_loop XXH32 malloc_ok vlog mem limit block_num False ptr remaining prev_seq
          total_entries (map (\<lambda>l. l\<lparr>fl_checksum_err := \<not> False\<rparr>) []) =
        (fst (full_block_loop XXH32 malloc_ok vlog mem limit block_num True ptr remaining
                prev_seq total_entries []),
         map (\<lambda>l. l\<lparr>fl_checksum_err := \<not> False\<rparr>)
           (snd (full_block_loop XXH32 malloc_ok vlog mem limit block_num True ptr remaining
                   prev_seq total_entries [])))"
    by (rule full_block_loop_flag)
  ultimately show ?thesis
    by simp
qed

lemma full_scan_block:
  assumes "total_entries < limit" and "pos < length file"
    and "block_at malloc_ok file pos = Some (block_size, stored_checksum, data)"
  shows "full_scan XXH32 malloc_ok vlog file limit pos total_entries block_num checksum_errors
           out visited =
     full_scan XXH32 malloc_ok vlog file limit (pos + 8 + unat block_size + 8)
       (fst (full_block_loop XXH32 malloc_ok vlog (\<lambda>i. data ! i) limit block_num
               (compute_block_checksum XXH32 data (unat block_size) = stored_checksum)
               0 (unat block_size) 0 total_entries out))
       (block_num + 1)
       (if compute_block_checksum XXH32 data (unat block_size) \<noteq> stored_checksum
        then checksum_errors + 1 else checksum_errors)
       (snd (full_block_loop XXH32 malloc_ok vlog (\<lambda>i. data ! i) limit block_num
               (compute_block_checksum XXH32 data (unat block_size) = stored_checksum)
               0 (unat block_size) 0 total_entries out))
       (visited @ [(pos, block_size)])"
  using assms(1,2) block_at_Some [OF assms(3)] block_at_stride [OF assms(3)]
  by (simp add: full_scan.simps
      [of XXH32 malloc_ok vlog _ limit pos total_entries block_num checksum_errors out visited]
      Let_def add.assoc split: prod.splits)

lemma full_scan_stop:
  assumes "\<not> (total_entries < limit \<and> pos < length file) \<or> block_at malloc_ok file pos = None"
  shows "\<exists>vis. full_scan XXH32 malloc_ok vlog file limit pos total_entries block_num
                 checksum_errors out visited =
               (total_entries, block_num, checksum_errors, out, visited @ vis)
             \<and> strided vis \<and> (vis \<noteq> [] \<longrightarrow> fst (hd vis) = pos)"
proof (cases "\<not> (total_entries < limit \<and> pos < length file) \<or> header_at file pos = None")
  case True
  then have "full_scan XXH32 malloc_ok vlog file limit pos total_entries block_num
               checksum_errors out visited =
             (total_entries, block_num, checksum_errors, out, visited @ [])"
    by (auto simp: full_scan.simps
        [of XXH32 malloc_ok vlog _ limit pos total_entries block_num checksum_errors out visited]
        Let_def header_at_def split: if_splits)
  then show ?thesis
    by (intro exI [of _ "[]"]) simp
next
  case False
  then obtain block_size stored_checksum where
    h: "header_at file pos = Some (block_size, stored_checksum)"
    and g: "total_entries < limit" "pos < length file"
    by auto
  with assms have "block_at malloc_ok file pos = None"
    by simp
  with h g have "full_scan XXH32 malloc_ok vlog file limit pos total_entries block_num
               checksum_errors out visited =
             (total_entries, block_num, checksum_errors, out, visited @ [(pos, block_size)])"
    by (auto simp: full_scan.simps
        [of XXH32 malloc_ok vlog _ limit pos total_entries block_num checksum_errors out visited]
        Let_def header_at_def block_at_def split: if_splits)
  then show ?thesis
    by (intro exI [of _ "[(pos, block_size)]"]) simp
qed

text \<open>
  The whole scan of the full dump: it adds lines, never more than the limit
  allows; the headers it visits are well strided from the start position on; and
  the count of checksum errors only grows.
\<close>

lemma full_scan_new:
  "\<exists>new vis bn' ce'.
     full_scan XXH32 malloc_ok vlog file limit pos total_entries block_num checksum_errors
       out visited = (total_entries + int (length new), bn', ce', out @ new, visited @ vis)
     \<and> strided vis \<and> (vis \<noteq> [] \<longrightarrow> fst (hd vis) = pos)
     \<and> (new \<noteq> [] \<longrightarrow> total_entries + int (length new) \<le> limit)
     \<and> checksum_errors \<le> ce'"
proof (induction "length file - pos" arbitrary: pos total_entries block_num checksum_errors out
    visited rule: less_induct)
  case less
  show ?case
  proof (cases "total_entries < limit \<and> pos < length file
                \<and> block_at malloc_ok file pos \<noteq> None")
    case False
    then have "\<not> (total_entries < limit \<and> pos < length file)
               \<or> block_at malloc_ok file pos = None"
      by (cases "block_at malloc_ok file pos") auto
    from full_scan_stop [OF this, of XXH32 vlog block_num checksum_errors out visited]
    obtain vis where
      "full_scan XXH32 malloc_ok vlog file limit pos total_entries block_num
         checksum_errors out visited =
       (total_entries + int (length ([] :: full_line list)), block_num, checksum_errors,
        out @ [], visited @ vis)"
      and "strided vis" and "vis \<noteq> [] \<longrightarrow> fst (hd vis) = pos"
      by auto
    then show ?thesis
      by (intro exI [of _ "[]"] exI [of _ vis] exI [of _ block_num]
          exI [of _ checksum_errors]) simp
  next
    case True
    then obtain block_size stored_checksum data where
      lim: "total_entries < limit" and inside: "pos < length file"
      and blk: "block_at malloc_ok file pos = Some (block_size, stored_checksum, data)"
      by (cases "block_at malloc_ok file pos") auto
    let ?next = "pos + 8 + unat block_size + 8"
    let ?ok = "compute_block_checksum XXH32 data (unat block_size) = stored_checksum"
    let ?ce = "if compute_block_checksum XXH32 data (unat block_size) \<noteq> stored_checksum
               then checksum_errors + 1 else checksum_errors"
    have smaller: "length file - ?next < length file - pos"
      using inside by simp
    have valid: "block_size \<noteq> 0 \<and> block_size \<le> MAX_BLOCK_SIZE"
      using block_at_Some(4) [OF blk] by (simp add: not_less)
    from full_block_loop_new
      [of XXH32 malloc_ok vlog "\<lambda>i. data ! i" limit block_num ?ok 0 "unat block_size" 0
        total_entries out]
    obtain new1 where
      b: "full_block_loop XXH32 malloc_ok vlog (\<lambda>i. data ! i) limit block_num ?ok 0
            (unat block_size) 0 total_entries out =
          (total_entries + int (length new1), out @ new1)"
      and bound1: "new1 \<noteq> [] \<longrightarrow> total_entries + int (length new1) \<le> limit"
      by blast
    have eq: "full_scan XXH32 malloc_ok vlog file limit pos total_entries block_num
                checksum_errors out visited =
              full_scan XXH32 malloc_ok vlog file limit ?next
                (total_entries + int (length new1)) (block_num + 1) ?ce (out @ new1)
                (visited @ [(pos, block_size)])"
      unfolding full_scan_block [OF lim inside blk] b by simp
    from less [OF smaller, of "total_entries + int (length new1)" "block_num + 1" ?ce
        "out @ new1" "visited @ [(pos, block_size)]"]
    obtain new2 vis bn' ce' where
      run: "full_scan XXH32 malloc_ok vlog file limit ?next
              (total_entries + int (length new1)) (block_num + 1) ?ce (out @ new1)
              (visited @ [(pos, block_size)]) =
            (total_entries + int (length new1) + int (length new2), bn', ce',
             (out @ new1) @ new2, (visited @ [(pos, block_size)]) @ vis)"
      and st: "strided vis" and hd: "vis \<noteq> [] \<longrightarrow> fst (hd vis) = ?next"
      and bound2: "new2 \<noteq> [] \<longrightarrow>
                     total_entries + int (length new1) + int (length new2) \<le> limit"
      and ce: "?ce \<le> ce'"
      by blast
    have r: "full_scan XXH32 malloc_ok vlog file limit pos total_entries block_num
               checksum_errors out visited =
             (total_entries + int (length (new1 @ new2)), bn', ce', out @ (new1 @ new2),
              visited @ ((pos, block_size) # vis))"
      using eq run by simp
    have s: "strided ((pos, block_size) # vis)"
      using st hd valid by (auto simp: strided_Cons)
    have h: "(pos, block_size) # vis \<noteq> [] \<longrightarrow> fst (hd ((pos, block_size) # vis)) = pos"
      by simp
    have bound: "new1 @ new2 \<noteq> [] \<longrightarrow> total_entries + int (length (new1 @ new2)) \<le> limit"
      using bound1 bound2 by (cases "new2 = []") auto
    have c: "checksum_errors \<le> ce'"
      using ce by (simp split: if_splits)
    show ?thesis
      by (intro exI [of _ "new1 @ new2"] exI [of _ "(pos, block_size) # vis"] exI [of _ bn']
          exI [of _ ce'] conjI) (fact r s h bound c)+
  qed
qed

section \<open>The result-count ceiling\<close>











section \<open>Stride of the positional scanner\<close>

lemma cmd_sstable_checksum_visited:
  "strided (ck_visited (cmd_sstable_checksum XXH32 malloc_ok fd))
   \<and> (ck_visited (cmd_sstable_checksum XXH32 malloc_ok fd) \<noteq> [] \<longrightarrow>
      fst (hd (ck_visited (cmd_sstable_checksum XXH32 malloc_ok fd))) = 8)"
proof (cases fd)
  case (File content)
  from checksum_loop_visited [of XXH32 malloc_ok content 8 0 0 0 "[]"]
  obtain bn' v' i' vis where
    "checksum_loop XXH32 malloc_ok content 8 0 0 0 [] = (bn', v', i', [] @ vis)"
    and "strided vis" and "vis \<noteq> [] \<longrightarrow> fst (hd vis) = 8"
    by blast
  with File show ?thesis
    by (simp add: cmd_sstable_checksum_def)
qed (simp_all add: cmd_sstable_checksum_def)

lemma cmd_sstable_dump_full_visited:
  "strided (fr_visited (cmd_sstable_dump_full XXH32 malloc_ok arg2 arg3 vlog_file klog))
   \<and> (fr_visited (cmd_sstable_dump_full XXH32 malloc_ok arg2 arg3 vlog_file klog) \<noteq> [] \<longrightarrow>
      fst (hd (fr_visited (cmd_sstable_dump_full XXH32 malloc_ok arg2 arg3 vlog_file klog)))
        = 8)"
proof (cases klog)
  case None
  then show ?thesis
    by (simp add: cmd_sstable_dump_full_def Let_def)
next
  case (Some content)
  let ?vlog = "case arg2 of Some (True, parsed) \<Rightarrow> VlogPath vlog_file | _ \<Rightarrow> NoVlogPath"
  from full_scan_new
    [of XXH32 malloc_ok ?vlog content "dump_full_limit arg2 arg3" 8 0 0 0 "[]" "[]"]
  obtain new vis bn' ce' where
    "full_scan XXH32 malloc_ok ?vlog content (dump_full_limit arg2 arg3) 8 0 0 0 [] [] =
       (0 + int (length new), bn', ce', [] @ new, [] @ vis)"
    and "strided vis" and "vis \<noteq> [] \<longrightarrow> fst (hd vis) = 8"
    by blast
  with Some show ?thesis
    by (simp add: cmd_sstable_dump_full_def Let_def)
qed

lemma cmd_sstable_checksum_status:
  "(ck_status (cmd_sstable_checksum XXH32 malloc_ok fd) = StatusOk
      \<and> ck_ret (cmd_sstable_checksum XXH32 malloc_ok fd) = 0)
   = ((\<exists>content. fd = File content)
      \<and> ck_invalid (cmd_sstable_checksum XXH32 malloc_ok fd) = 0)"
  by (cases fd) (auto simp: cmd_sstable_checksum_def split: prod.splits)

text \<open>
  C8.  Both positional scanners, the checksum verification and the full dump,
  read their first block header at offset 8; each further header is read
  \<open>8 + payload_length + 8\<close> bytes behind the previous one; and a header that
  declares a payload length of 0 or above 100 MiB is the last one read.  The
  checksum command prints \<open>OK\<close> and returns 0 exactly when the file could be
  opened and its count of invalid blocks is 0.
\<close>

theorem positional_scanner_stride:
  "(ck_visited (cmd_sstable_checksum XXH32 malloc_ok fd) \<noteq> [] \<longrightarrow>
      fst (hd (ck_visited (cmd_sstable_checksum XXH32 malloc_ok fd))) = 8)
   \<and> (Suc k < length (ck_visited (cmd_sstable_checksum XXH32 malloc_ok fd)) \<longrightarrow>
      fst (ck_visited (cmd_sstable_checksum XXH32 malloc_ok fd) ! Suc k) =
        fst (ck_visited (cmd_sstable_checksum XXH32 malloc_ok fd) ! k) + 8
        + unat (snd (ck_visited (cmd_sstable_checksum XXH32 malloc_ok fd) ! k)) + 8)
   \<and> (k < length (ck_visited (cmd_sstable_checksum XXH32 malloc_ok fd))
      \<and> (snd (ck_visited (cmd_sstable_checksum XXH32 malloc_ok fd) ! k) = 0
         \<or> snd (ck_visited (cmd_sstable_checksum XXH32 malloc_ok fd) ! k) > 100 * 1024 * 1024)
      \<longrightarrow> Suc k = length (ck_visited (cmd_sstable_checksum XXH32 malloc_ok fd)))
   \<and> ((ck_status (cmd_sstable_checksum XXH32 malloc_ok fd) = StatusOk
        \<and> ck_ret (cmd_sstable_checksum XXH32 malloc_ok fd) = 0)
      = ((\<exists>content. fd = File content)
         \<and> ck_invalid (cmd_sstable_checksum XXH32 malloc_ok fd) = 0))
   \<and> (fr_visited (cmd_sstable_dump_full XXH32 malloc_ok arg2 arg3 vlog_file klog) \<noteq> [] \<longrightarrow>
      fst (hd (fr_visited (cmd_sstable_dump_full XXH32 malloc_ok arg2 arg3 vlog_file klog)))
        = 8)
   \<and> (Suc k < length (fr_visited (cmd_sstable_dump_full XXH32 malloc_ok arg2 arg3 vlog_file
                                      klog)) \<longrightarrow>
      fst (fr_visited (cmd_sstable_dump_full XXH32 malloc_ok arg2 arg3 vlog_file klog) ! Suc k)
        = fst (fr_visited (cmd_sstable_dump_full XXH32 malloc_ok arg2 arg3 vlog_file klog) ! k)
          + 8
          + unat (snd (fr_visited (cmd_sstable_dump_full XXH32 malloc_ok arg2 arg3 vlog_file
                                     klog) ! k))
          + 8)
   \<and> (k < length (fr_visited (cmd_sstable_dump_full XXH32 malloc_ok arg2 arg3 vlog_file klog))
      \<and> (snd (fr_visited (cmd_sstable_dump_full XXH32 malloc_ok arg2 arg3 vlog_file klog) ! k)
            = 0
         \<or> snd (fr_visited (cmd_sstable_dump_full XXH32 malloc_ok arg2 arg3 vlog_file klog) ! k)
            > 100 * 1024 * 1024)
      \<longrightarrow> Suc k = length (fr_visited (cmd_sstable_dump_full XXH32 malloc_ok arg2 arg3
                                        vlog_file klog)))"
proof -
  let ?c = "ck_visited (cmd_sstable_checksum XXH32 malloc_ok fd)"
  let ?f = "fr_visited (cmd_sstable_dump_full XXH32 malloc_ok arg2 arg3 vlog_file klog)"
  note c = cmd_sstable_checksum_visited [of XXH32 malloc_ok fd]
  note f = cmd_sstable_dump_full_visited [of XXH32 malloc_ok arg2 arg3 vlog_file klog]
  have max: "(100 * 1024 * 1024 :: u32) = MAX_BLOCK_SIZE"
    by (simp add: MAX_BLOCK_SIZE_def)
  have c1: "?c \<noteq> [] \<longrightarrow> fst (hd ?c) = 8"
    using c by simp
  have c2: "Suc k < length ?c \<longrightarrow> fst (?c ! Suc k) = fst (?c ! k) + 8 + unat (snd (?c ! k)) + 8"
    using c strided_nth_Suc [of ?c k] by blast
  have c3: "k < length ?c \<and> (snd (?c ! k) = 0 \<or> snd (?c ! k) > 100 * 1024 * 1024)
            \<longrightarrow> Suc k = length ?c"
    unfolding max using c strided_invalid_is_last [of ?c k] by blast
  have f1: "?f \<noteq> [] \<longrightarrow> fst (hd ?f) = 8"
    using f by simp
  have f2: "Suc k < length ?f \<longrightarrow> fst (?f ! Suc k) = fst (?f ! k) + 8 + unat (snd (?f ! k)) + 8"
    using f strided_nth_Suc [of ?f k] by blast
  have f3: "k < length ?f \<and> (snd (?f ! k) = 0 \<or> snd (?f ! k) > 100 * 1024 * 1024)
            \<longrightarrow> Suc k = length ?f"
    unfolding max using f strided_invalid_is_last [of ?f k] by blast
  from c1 c2 c3 cmd_sstable_checksum_status [of XXH32 malloc_ok fd] f1 f2 f3
  show ?thesis
    by (intro conjI)
qed

text \<open>
  A stand-in for the hash and a table file for the examples: the 8-byte file
  header, a block with the example record and its right checksum, the same block
  with a wrong checksum, and a header that declares the length 0.
\<close>

definition example_hash :: xxh32 where
  "example_hash bytes seed = seed + of_nat (length bytes)"

definition klog_example :: "u8 list" where
  "klog_example =
     [0, 0, 0, 0, 0, 0, 0, 0,
      6, 0, 0, 0, 6, 0, 0, 0, 0x00, 0x01, 0x01, 0x07, 0x6B, 0x76, 0, 0, 0, 0, 0, 0, 0, 0,
      6, 0, 0, 0, 9, 0, 0, 0, 0x00, 0x01, 0x01, 0x07, 0x6B, 0x76, 0, 0, 0, 0, 0, 0, 0, 0,
      0, 0, 0, 0, 0, 0, 0, 0]"

lemmas eval_scan =
  pread_def decode_uint32_le_def compute_block_checksum_def MAX_BLOCK_SIZE_def
  block_stride_def example_hash_def Let_def

lemma klog_example_checksum:
  "cmd_sstable_checksum example_hash (\<lambda>n. True) (File klog_example) =
     \<lparr>ck_ret = -1, ck_status = StatusCorrupted, ck_total = 2, ck_valid = 1, ck_invalid = 2,
      ck_visited = [(8, 6), (30, 6), (52, 0)]\<rparr>"
  by (simp add: cmd_sstable_checksum_def klog_example_def checksum_loop.simps eval_scan)

lemma klog_example_full_scan:
  "full_scan example_hash (\<lambda>n. True) NoVlogPath klog_example 1000 8 0 0 0 [] [] =
     (2, 2, 1,
      [\<lparr>fl_num = 1, fl_blk = 0, fl_checksum_err = False, fl_vlog_status = 0,
        fl_vlog_note = [],
        fl_entry = \<lparr>e_flags = 0, e_key_size = 1, e_value_size = 1, e_seq_value = 7, e_seq = 7,
                     e_ttl = 0, e_vlog_offset = 0, e_key = [0x6B], e_value = Some [0x76]\<rparr>\<rparr>,
       \<lparr>fl_num = 2, fl_blk = 1, fl_checksum_err = True, fl_vlog_status = 0,
        fl_vlog_note = [],
        fl_entry = \<lparr>e_flags = 0, e_key_size = 1, e_value_size = 1, e_seq_value = 7, e_seq = 7,
                     e_ttl = 0, e_vlog_offset = 0, e_key = [0x6B], e_value = Some [0x76]\<rparr>\<rparr>],
      [(8, 6), (30, 6), (52, 0)])"
  by (simp add: klog_example_def full_scan.simps full_block_loop.simps full_record_def
      eval_scan eval_varint window_bytes_def)

lemma klog_example_full_visited:
  "fr_visited (cmd_sstable_dump_full example_hash (\<lambda>n. True) None None None
                 (Some klog_example)) = [(8, 6), (30, 6), (52, 0)]"
  by (simp add: cmd_sstable_dump_full_def dump_full_limit_def ADMINTOOL_DEFAULT_DUMP_LIMIT_def
      klog_example_full_scan)

theorem positional_scanner_stride_witness:
  "fst (hd (ck_visited (cmd_sstable_checksum example_hash (\<lambda>n. True) (File klog_example)))) = 8
   \<and> fst (ck_visited (cmd_sstable_checksum example_hash (\<lambda>n. True) (File klog_example)) ! 1)
       = 8 + 8 + 6 + 8
   \<and> Suc 2 = length (ck_visited (cmd_sstable_checksum example_hash (\<lambda>n. True)
                                   (File klog_example)))
   \<and> fst (hd (fr_visited (cmd_sstable_dump_full example_hash (\<lambda>n. True) None None None
                             (Some klog_example)))) = 8
   \<and> fst (fr_visited (cmd_sstable_dump_full example_hash (\<lambda>n. True) None None None
                         (Some klog_example)) ! 1) = 8 + 8 + 6 + 8
   \<and> Suc 2 = length (fr_visited (cmd_sstable_dump_full example_hash (\<lambda>n. True) None None None
                                   (Some klog_example)))"
proof -
  let ?c = "ck_visited (cmd_sstable_checksum example_hash (\<lambda>n. True) (File klog_example))"
  let ?f = "fr_visited (cmd_sstable_dump_full example_hash (\<lambda>n. True) None None None
                          (Some klog_example))"
  have c: "?c = [(8, 6), (30, 6), (52, 0)]"
    by (simp add: klog_example_checksum)
  note f = klog_example_full_visited
  note t0 = positional_scanner_stride
    [where ?XXH32.0 = example_hash and malloc_ok = "\<lambda>n. True" and fd = "File klog_example"
      and ?arg2.0 = None and ?arg3.0 = None and vlog_file = None and klog = "Some klog_example"
      and k = 0]
  note t2 = positional_scanner_stride
    [where ?XXH32.0 = example_hash and malloc_ok = "\<lambda>n. True" and fd = "File klog_example"
      and ?arg2.0 = None and ?arg3.0 = None and vlog_file = None and klog = "Some klog_example"
      and k = 2]
  have c1: "fst (hd ?c) = 8"
    using t0 [THEN conjunct1] c by simp
  have c2: "fst (?c ! 1) = 8 + 8 + 6 + 8"
    using t0 [THEN conjunct2, THEN conjunct1] c by simp
  have c3: "Suc 2 = length ?c"
    using t2 [THEN conjunct2, THEN conjunct2, THEN conjunct1] c by simp
  have f1: "fst (hd ?f) = 8"
    using t0 [THEN conjunct2, THEN conjunct2, THEN conjunct2, THEN conjunct2, THEN conjunct1] f
    by simp
  have f2: "fst (?f ! 1) = 8 + 8 + 6 + 8"
    using t0 [THEN conjunct2, THEN conjunct2, THEN conjunct2, THEN conjunct2, THEN conjunct2,
      THEN conjunct1] f
    by simp
  have f3: "Suc 2 = length ?f"
    using t2 [THEN conjunct2, THEN conjunct2, THEN conjunct2, THEN conjunct2, THEN conjunct2,
      THEN conjunct2] f
    by simp
  from c1 c2 c3 f1 f2 f3 show ?thesis
    by (intro conjI)
qed

section \<open>Checksum mismatches in a full dump\<close>

text \<open>
  Whether the block whose header was read at a position (with the declared
  length) fails the comparison of the stored with the recomputed checksum.
\<close>

definition mismatch_at :: "xxh32 \<Rightarrow> u8 list \<Rightarrow> nat \<times> u32 \<Rightarrow> bool" where
  "mismatch_at XXH32 file v =
     (compute_block_checksum XXH32 (pread file (unat (snd v)) (fst v + 8)) (unat (snd v))
      \<noteq> decode_uint32_le (drop 4 (pread file 8 (fst v))))"

lemma full_scan_flags:
  "\<exists>new vis bn' ce'.
     full_scan XXH32 malloc_ok vlog file limit pos total_entries block_num checksum_errors
       out visited = (total_entries + int (length new), bn', ce', out @ new, visited @ vis)
     \<and> (\<forall>l \<in> set new. \<exists>k < length vis. fl_blk l = block_num + int k
            \<and> fl_checksum_err l = mismatch_at XXH32 file (vis ! k))
     \<and> block_num \<le> bn' \<and> nat (bn' - block_num) \<le> length vis
     \<and> ce' = checksum_errors
           + int (length (filter (mismatch_at XXH32 file) (take (nat (bn' - block_num)) vis)))"
proof (induction "length file - pos" arbitrary: pos total_entries block_num checksum_errors out
    visited rule: less_induct)
  case less
  show ?case
  proof (cases "total_entries < limit \<and> pos < length file
                \<and> block_at malloc_ok file pos \<noteq> None")
    case False
    then have "\<not> (total_entries < limit \<and> pos < length file)
               \<or> block_at malloc_ok file pos = None"
      by (cases "block_at malloc_ok file pos") auto
    from full_scan_stop [OF this, of XXH32 vlog block_num checksum_errors out visited]
    obtain vis where
      "full_scan XXH32 malloc_ok vlog file limit pos total_entries block_num
         checksum_errors out visited =
       (total_entries + int (length ([] :: full_line list)), block_num, checksum_errors,
        out @ [], visited @ vis)"
      by auto
    then show ?thesis
      by (intro exI [of _ "[]"] exI [of _ vis] exI [of _ block_num]
          exI [of _ checksum_errors]) simp
  next
    case True
    then obtain block_size stored_checksum data where
      lim: "total_entries < limit" and inside: "pos < length file"
      and blk: "block_at malloc_ok file pos = Some (block_size, stored_checksum, data)"
      by (cases "block_at malloc_ok file pos") auto
    let ?next = "pos + 8 + unat block_size + 8"
    let ?ok = "compute_block_checksum XXH32 data (unat block_size) = stored_checksum"
    let ?ce = "if compute_block_checksum XXH32 data (unat block_size) \<noteq> stored_checksum
               then checksum_errors + 1 else checksum_errors"
    have smaller: "length file - ?next < length file - pos"
      using inside by simp
    have mm: "mismatch_at XXH32 file (pos, block_size) = (\<not> ?ok)"
      using block_at_Some(3,6) [OF blk] by (simp add: mismatch_at_def)
    from full_block_loop_new
      [of XXH32 malloc_ok vlog "\<lambda>i. data ! i" limit block_num ?ok 0 "unat block_size" 0
        total_entries out]
    obtain new1 where
      b: "full_block_loop XXH32 malloc_ok vlog (\<lambda>i. data ! i) limit block_num ?ok 0
            (unat block_size) 0 total_entries out =
          (total_entries + int (length new1), out @ new1)"
      and fl1: "\<forall>l \<in> set new1. fl_blk l = block_num \<and> fl_checksum_err l = (\<not> ?ok)"
      by blast
    have eq: "full_scan XXH32 malloc_ok vlog file limit pos total_entries block_num
                checksum_errors out visited =
              full_scan XXH32 malloc_ok vlog file limit ?next
                (total_entries + int (length new1)) (block_num + 1) ?ce (out @ new1)
                (visited @ [(pos, block_size)])"
      unfolding full_scan_block [OF lim inside blk] b by simp
    from less [OF smaller, of "total_entries + int (length new1)" "block_num + 1" ?ce
        "out @ new1" "visited @ [(pos, block_size)]"]
    obtain new2 vis bn' ce' where
      run: "full_scan XXH32 malloc_ok vlog file limit ?next
              (total_entries + int (length new1)) (block_num + 1) ?ce (out @ new1)
              (visited @ [(pos, block_size)]) =
            (total_entries + int (length new1) + int (length new2), bn', ce',
             (out @ new1) @ new2, (visited @ [(pos, block_size)]) @ vis)"
      and fl2: "\<forall>l \<in> set new2. \<exists>k < length vis. fl_blk l = block_num + 1 + int k
                  \<and> fl_checksum_err l = mismatch_at XXH32 file (vis ! k)"
      and bn: "block_num + 1 \<le> bn'" "nat (bn' - (block_num + 1)) \<le> length vis"
      and ce: "ce' = ?ce + int (length (filter (mismatch_at XXH32 file)
                                          (take (nat (bn' - (block_num + 1))) vis)))"
      by blast
    let ?vis = "(pos, block_size) # vis"
    have r: "full_scan XXH32 malloc_ok vlog file limit pos total_entries block_num
               checksum_errors out visited =
             (total_entries + int (length (new1 @ new2)), bn', ce', out @ (new1 @ new2),
              visited @ ?vis)"
      using eq run by simp
    have fl: "\<forall>l \<in> set (new1 @ new2). \<exists>k < length ?vis. fl_blk l = block_num + int k
                \<and> fl_checksum_err l = mismatch_at XXH32 file (?vis ! k)"
    proof
      fix l
      assume "l \<in> set (new1 @ new2)"
      then consider "l \<in> set new1" | "l \<in> set new2"
        by auto
      then show "\<exists>k < length ?vis. fl_blk l = block_num + int k
                   \<and> fl_checksum_err l = mismatch_at XXH32 file (?vis ! k)"
      proof cases
        case 1
        with fl1 mm show ?thesis
          by (intro exI [of _ 0]) simp
      next
        case 2
        with fl2 obtain k where "k < length vis" "fl_blk l = block_num + 1 + int k"
          "fl_checksum_err l = mismatch_at XXH32 file (vis ! k)"
          by blast
        then show ?thesis
          by (intro exI [of _ "Suc k"]) simp
      qed
    qed
    have n: "nat (bn' - block_num) = Suc (nat (bn' - (block_num + 1)))"
      using bn(1) by simp
    have b1: "block_num \<le> bn'" and b2: "nat (bn' - block_num) \<le> length ?vis"
      using bn by simp_all
    have c: "ce' = checksum_errors
               + int (length (filter (mismatch_at XXH32 file)
                                (take (nat (bn' - block_num)) ?vis)))"
      unfolding n using ce mm by simp
    show ?thesis
      by (intro exI [of _ "new1 @ new2"] exI [of _ ?vis] exI [of _ bn'] exI [of _ ce'] conjI)
        (fact r fl b1 b2 c)+
  qed
qed

lemma full_scan_mismatch_step:
  assumes "total_entries < limit" and "pos < length file"
    and "block_at malloc_ok file pos = Some (block_size, stored_checksum, data)"
    and "compute_block_checksum XXH32 data (unat block_size) \<noteq> stored_checksum"
  shows "full_scan XXH32 malloc_ok vlog file limit pos total_entries block_num checksum_errors
           out visited =
     full_scan XXH32 malloc_ok vlog file limit (pos + 8 + unat block_size + 8)
       (fst (full_block_loop XXH32 malloc_ok vlog (\<lambda>i. data ! i) limit block_num True
               0 (unat block_size) 0 total_entries []))
       (block_num + 1) (checksum_errors + 1)
       (out @ map (\<lambda>l. l\<lparr>fl_checksum_err := True\<rparr>)
                (snd (full_block_loop XXH32 malloc_ok vlog (\<lambda>i. data ! i) limit block_num True
                        0 (unat block_size) 0 total_entries [])))
       (visited @ [(pos, block_size)])"
  unfolding full_scan_block [OF assms(1,2,3)]
  using assms(4)
  by (simp add: full_block_loop_checksum
      [of XXH32 malloc_ok vlog "\<lambda>i. data ! i" limit block_num 0 "unat block_size" 0
        total_entries out])

text \<open>
  C6.  (1) When the scan of a full dump stands at a readable block whose stored
  checksum differs from the recomputed one, it goes on exactly as follows: the
  lines the block yields when its checksum is good are added, each with the
  checksum-error flag set; the error count grows by one; and the scan continues at
  the next block header.  (2) In the result of the command every printed record
  carries the flag exactly when the block it names fails the comparison, (3) the
  count of checksum errors in the summary is the number of processed blocks that
  fail it, and (4) the command returns \<open>-1\<close> exactly when that count is positive.
\<close>

theorem checksum_mismatch_is_not_fatal:
  "(total_entries < limit \<and> pos < length klog_bytes
    \<and> block_at malloc_ok klog_bytes pos = Some (block_size, stored_checksum, data)
    \<and> compute_block_checksum XXH32 data (unat block_size) \<noteq> stored_checksum \<longrightarrow>
    full_scan XXH32 malloc_ok vlog klog_bytes limit pos total_entries block_num checksum_errors
      out visited =
    full_scan XXH32 malloc_ok vlog klog_bytes limit (pos + 8 + unat block_size + 8)
      (fst (full_block_loop XXH32 malloc_ok vlog (\<lambda>i. data ! i) limit block_num True
              0 (unat block_size) 0 total_entries []))
      (block_num + 1) (checksum_errors + 1)
      (out @ map (\<lambda>l. l\<lparr>fl_checksum_err := True\<rparr>)
               (snd (full_block_loop XXH32 malloc_ok vlog (\<lambda>i. data ! i) limit block_num True
                       0 (unat block_size) 0 total_entries [])))
      (visited @ [(pos, block_size)]))
   \<and> (\<forall>l \<in> set (fr_lines (cmd_sstable_dump_full XXH32 malloc_ok arg2 arg3 vlog_file
                               (Some content))).
        0 \<le> fl_blk l
        \<and> nat (fl_blk l) < length (fr_visited (cmd_sstable_dump_full XXH32 malloc_ok arg2 arg3
                                                 vlog_file (Some content)))
        \<and> fl_checksum_err l =
            mismatch_at XXH32 content
              (fr_visited (cmd_sstable_dump_full XXH32 malloc_ok arg2 arg3 vlog_file
                             (Some content)) ! nat (fl_blk l)))
   \<and> fr_checksum_errors (cmd_sstable_dump_full XXH32 malloc_ok arg2 arg3 vlog_file
                            (Some content)) =
       int (length (filter (mismatch_at XXH32 content)
              (take (nat (fr_blocks (cmd_sstable_dump_full XXH32 malloc_ok arg2 arg3 vlog_file
                                       (Some content))))
                 (fr_visited (cmd_sstable_dump_full XXH32 malloc_ok arg2 arg3 vlog_file
                                (Some content))))))
   \<and> fr_ret (cmd_sstable_dump_full XXH32 malloc_ok arg2 arg3 vlog_file klog) =
       (if fr_checksum_errors (cmd_sstable_dump_full XXH32 malloc_ok arg2 arg3 vlog_file klog)
           > 0 then -1
        else if klog = None then -1 else 0)"
proof (intro conjI impI)
  assume h: "total_entries < limit \<and> pos < length klog_bytes
    \<and> block_at malloc_ok klog_bytes pos = Some (block_size, stored_checksum, data)
    \<and> compute_block_checksum XXH32 data (unat block_size) \<noteq> stored_checksum"
  from h have a: "total_entries < limit" and b: "pos < length klog_bytes"
    and c: "block_at malloc_ok klog_bytes pos = Some (block_size, stored_checksum, data)"
    and d: "compute_block_checksum XXH32 data (unat block_size) \<noteq> stored_checksum"
    by blast+
  show "full_scan XXH32 malloc_ok vlog klog_bytes limit pos total_entries block_num
      checksum_errors out visited =
    full_scan XXH32 malloc_ok vlog klog_bytes limit (pos + 8 + unat block_size + 8)
      (fst (full_block_loop XXH32 malloc_ok vlog (\<lambda>i. data ! i) limit block_num True
              0 (unat block_size) 0 total_entries []))
      (block_num + 1) (checksum_errors + 1)
      (out @ map (\<lambda>l. l\<lparr>fl_checksum_err := True\<rparr>)
               (snd (full_block_loop XXH32 malloc_ok vlog (\<lambda>i. data ! i) limit block_num True
                       0 (unat block_size) 0 total_entries [])))
      (visited @ [(pos, block_size)])"
    by (rule full_scan_mismatch_step [OF a b c d])
next
  let ?vlog = "case arg2 of Some (True, parsed) \<Rightarrow> VlogPath vlog_file | _ \<Rightarrow> NoVlogPath"
  let ?R = "cmd_sstable_dump_full XXH32 malloc_ok arg2 arg3 vlog_file (Some content)"
  from full_scan_flags
    [of XXH32 malloc_ok ?vlog content "dump_full_limit arg2 arg3" 8 0 0 0 "[]" "[]"]
  obtain new vis bn' ce' where
    w: "full_scan XXH32 malloc_ok ?vlog content (dump_full_limit arg2 arg3) 8 0 0 0 [] [] =
          (0 + int (length new), bn', ce', [] @ new, [] @ vis)"
    and fl: "\<forall>l \<in> set new. \<exists>k < length vis. fl_blk l = 0 + int k
               \<and> fl_checksum_err l = mismatch_at XXH32 content (vis ! k)"
    and ce: "ce' = 0 + int (length (filter (mismatch_at XXH32 content)
                                      (take (nat (bn' - 0)) vis)))"
    by blast
  from w have R: "fr_lines ?R = new" "fr_visited ?R = vis" "fr_blocks ?R = bn'"
    "fr_checksum_errors ?R = ce'"
    by (simp_all add: cmd_sstable_dump_full_def Let_def)
  show "\<forall>l \<in> set (fr_lines ?R). 0 \<le> fl_blk l \<and> nat (fl_blk l) < length (fr_visited ?R)
          \<and> fl_checksum_err l = mismatch_at XXH32 content (fr_visited ?R ! nat (fl_blk l))"
    unfolding R using fl by fastforce
  show "fr_checksum_errors ?R =
          int (length (filter (mismatch_at XXH32 content)
                 (take (nat (fr_blocks ?R)) (fr_visited ?R))))"
    unfolding R using ce by simp
next
  show "fr_ret (cmd_sstable_dump_full XXH32 malloc_ok arg2 arg3 vlog_file klog) =
       (if fr_checksum_errors (cmd_sstable_dump_full XXH32 malloc_ok arg2 arg3 vlog_file klog)
           > 0 then -1
        else if klog = None then -1 else 0)"
    by (cases klog) (simp_all add: cmd_sstable_dump_full_def Let_def split: prod.splits)
qed

theorem checksum_mismatch_is_not_fatal_witness:
  "full_scan example_hash (\<lambda>n. True) NoVlogPath klog_example 1000 30 1 1 0 [] [] =
     full_scan example_hash (\<lambda>n. True) NoVlogPath klog_example 1000 52 2 2 1
       [\<lparr>fl_num = 2, fl_blk = 1, fl_checksum_err = True, fl_vlog_status = 0,
         fl_vlog_note = [],
         fl_entry = \<lparr>e_flags = 0, e_key_size = 1, e_value_size = 1, e_seq_value = 7,
                      e_seq = 7, e_ttl = 0, e_vlog_offset = 0, e_key = [0x6B],
                      e_value = Some [0x76]\<rparr>\<rparr>]
       [(30, 6)]
   \<and> mismatch_at example_hash klog_example (30, 6)
   \<and> \<not> mismatch_at example_hash klog_example (8, 6)
   \<and> fr_checksum_errors (cmd_sstable_dump_full example_hash (\<lambda>n. True) None None None
                            (Some klog_example)) = 1
   \<and> fr_ret (cmd_sstable_dump_full example_hash (\<lambda>n. True) None None None
                (Some klog_example)) = -1
   \<and> length (fr_lines (cmd_sstable_dump_full example_hash (\<lambda>n. True) None None None
                          (Some klog_example))) = 2"
proof -
  let ?R = "cmd_sstable_dump_full example_hash (\<lambda>n. True) None None None (Some klog_example)"
  let ?e = "\<lparr>e_flags = 0, e_key_size = 1, e_value_size = 1, e_seq_value = 7,
              e_seq = 7, e_ttl = 0, e_vlog_offset = 0, e_key = [0x6B],
              e_value = Some [0x76]\<rparr>"
  let ?l1 = "\<lparr>fl_num = 1, fl_blk = 0, fl_checksum_err = False, fl_vlog_status = 0,
               fl_vlog_note = [], fl_entry = ?e\<rparr>"
  let ?l2 = "\<lparr>fl_num = 2, fl_blk = 1, fl_checksum_err = True, fl_vlog_status = 0,
               fl_vlog_note = [], fl_entry = ?e\<rparr>"
  have R: "fr_lines ?R = [?l1, ?l2]" "fr_visited ?R = [(8, 6), (30, 6), (52, 0)]"
    "fr_blocks ?R = 2"
    by (simp_all add: cmd_sstable_dump_full_def dump_full_limit_def
        ADMINTOOL_DEFAULT_DUMP_LIMIT_def klog_example_full_scan)
  have blk: "block_at (\<lambda>n. True) klog_example 30 = Some (6, 9, record_example)"
    by (simp add: block_at_def header_at_def klog_example_def record_example_def eval_scan)
  have h: "(1::int) < 1000 \<and> 30 < length klog_example
           \<and> block_at (\<lambda>n. True) klog_example 30 = Some (6, 9, record_example)
           \<and> compute_block_checksum example_hash record_example (unat (6 :: u32)) \<noteq> 9"
    using blk by (simp add: klog_example_def record_example_def eval_scan)
  note t = checksum_mismatch_is_not_fatal
    [where ?XXH32.0 = example_hash and malloc_ok = "\<lambda>n. True" and klog_bytes = klog_example
      and content = klog_example and klog = "Some klog_example"
      and ?arg2.0 = None and ?arg3.0 = None and vlog_file = None
      and limit = 1000 and pos = 30 and total_entries = 1 and block_num = 1
      and checksum_errors = 0 and out = "[]" and visited = "[]" and vlog = NoVlogPath
      and block_size = 6 and stored_checksum = 9 and data = record_example]
  have loop: "full_block_loop example_hash (\<lambda>n. True) NoVlogPath ((!) record_example)
                1000 1 True 0 6 0 1 [] = (2, [?l2\<lparr>fl_checksum_err := False\<rparr>])"
    by (simp add: full_block_loop.simps full_record_def record_example_def eval_varint
        window_bytes_def)
  have step: "full_scan example_hash (\<lambda>n. True) NoVlogPath klog_example 1000 30 1 1 0 [] [] =
     full_scan example_hash (\<lambda>n. True) NoVlogPath klog_example 1000 52 2 2 1 [?l2] [(30, 6)]"
    using t [THEN conjunct1, THEN mp, OF h] by (simp add: loop)
  note flags = t [THEN conjunct2, THEN conjunct1, unfolded R]
  have m2: "mismatch_at example_hash klog_example (30, 6)"
    using flags [THEN bspec, of ?l2] by simp
  have m1: "\<not> mismatch_at example_hash klog_example (8, 6)"
    using flags [THEN bspec, of ?l1] by simp
  have ce: "fr_checksum_errors ?R = 1"
    using t [THEN conjunct2, THEN conjunct2, THEN conjunct1, unfolded R] m1 m2 by simp
  have ret: "fr_ret ?R = -1"
    using t [THEN conjunct2, THEN conjunct2, THEN conjunct2] ce by simp
  have n: "length (fr_lines ?R) = 2"
    by (simp add: R)
  from step m2 m1 ce ret n show ?thesis
    by (intro conjI)
qed

section \<open>Outcomes of value-log resolution\<close>

text \<open>
  \<open>read_vlog_value\<close> in terms of what stands at the offset: no file, no readable
  admissible block, a block that fails the checksum, a block that passes.
\<close>

lemma read_vlog_value_cases:
  "read_vlog_value XXH32 malloc_ok vlog vlog_offset value_size =
     (case vlog of
        None \<Rightarrow> (-1, None)
      | Some content \<Rightarrow>
          (case block_at malloc_ok content (unat vlog_offset) of
             None \<Rightarrow> (-1, None)
           | Some (block_size, stored_checksum, data) \<Rightarrow>
               if compute_block_checksum XXH32 data (unat block_size) \<noteq> stored_checksum
               then (-2, None)
               else (uint block_size, Some data)))"
  by (auto simp: read_vlog_value_def block_at_def header_at_def Let_def split: option.splits)

lemma block_at_None:
  "(block_at malloc_ok content pos = None) =
     (length (pread content 8 pos) \<noteq> 8
      \<or> decode_uint32_le (pread content 8 pos) = 0
      \<or> decode_uint32_le (pread content 8 pos) > MAX_BLOCK_SIZE
      \<or> \<not> malloc_ok (unat (decode_uint32_le (pread content 8 pos)))
      \<or> length (pread content (unat (decode_uint32_le (pread content 8 pos))) (pos + 8))
          \<noteq> unat (decode_uint32_le (pread content 8 pos)))"
  by (auto simp: block_at_def header_at_def)

lemma block_at_size_positive:
  assumes "block_at malloc_ok content pos = Some (block_size, stored_checksum, data)"
  shows "0 < uint block_size"
proof -
  from block_at_Some(4) [OF assms] have "block_size \<noteq> 0" by simp
  then have "uint block_size \<noteq> 0"
    by (simp add: uint_0_iff)
  then show ?thesis
    using uint_ge_0 [of block_size] by linarith
qed

lemma read_vlog_value_status:
  "fst (read_vlog_value XXH32 malloc_ok vlog vlog_offset value_size) = -1
   \<or> fst (read_vlog_value XXH32 malloc_ok vlog vlog_offset value_size) = -2
   \<or> 0 < fst (read_vlog_value XXH32 malloc_ok vlog vlog_offset value_size)"
  unfolding read_vlog_value_cases
  by (auto split: option.splits dest: block_at_size_positive)

lemma read_vlog_value_read_error:
  "(fst (read_vlog_value XXH32 malloc_ok vlog vlog_offset value_size) = -1) =
     (case vlog of None \<Rightarrow> True
      | Some content \<Rightarrow> block_at malloc_ok content (unat vlog_offset) = None)"
  unfolding read_vlog_value_cases
  by (auto split: option.splits dest: block_at_size_positive)

lemma read_vlog_value_checksum_error:
  "(fst (read_vlog_value XXH32 malloc_ok vlog vlog_offset value_size) = -2) =
     (\<exists>content block_size stored_checksum data.
        vlog = Some content
        \<and> block_at malloc_ok content (unat vlog_offset) = Some (block_size, stored_checksum, data)
        \<and> compute_block_checksum XXH32 data (unat block_size) \<noteq> stored_checksum)"
  unfolding read_vlog_value_cases
  by (auto split: option.splits dest: block_at_size_positive)

lemma read_vlog_value_success:
  "(0 < fst (read_vlog_value XXH32 malloc_ok vlog vlog_offset value_size)) =
     (\<exists>content block_size stored_checksum data.
        vlog = Some content
        \<and> block_at malloc_ok content (unat vlog_offset) = Some (block_size, stored_checksum, data)
        \<and> compute_block_checksum XXH32 data (unat block_size) = stored_checksum
        \<and> read_vlog_value XXH32 malloc_ok vlog vlog_offset value_size
            = (uint block_size, Some data))"
  unfolding read_vlog_value_cases
  by (auto split: option.splits dest: block_at_size_positive)

lemma read_vlog_value_payload:
  "(snd (read_vlog_value XXH32 malloc_ok vlog vlog_offset value_size) \<noteq> None) =
     (0 < fst (read_vlog_value XXH32 malloc_ok vlog vlog_offset value_size))"
  unfolding read_vlog_value_cases
  by (auto split: option.splits dest: block_at_size_positive)

text \<open>
  The caller: for a record with \<open>HAS_VLOG\<close> the full dump takes status and value
  from \<open>read_vlog_value\<close> when a path is given and the value size is positive, and
  has no value and the status 0 when no path is given.
\<close>

lemma full_record_vlog:
  assumes "full_record XXH32 malloc_ok (VlogPath vf) mem ptr remaining prev_seq =
             Some ((e, vlog_status), ptr', remaining', s)"
    and "e_flags e AND TDB_KV_FLAG_HAS_VLOG \<noteq> 0" and "e_value_size e > 0"
  shows "vlog_status =
           fst (read_vlog_value XXH32 malloc_ok vf (e_vlog_offset e) (unat (e_value_size e)))"
    and "e_value e =
           snd (read_vlog_value XXH32 malloc_ok vf (e_vlog_offset e) (unat (e_value_size e)))"
proof -
  let ?r = "read_vlog_value XXH32 malloc_ok vf (e_vlog_offset e) (unat (e_value_size e))"
  from assms have "vlog_status = fst ?r \<and> e_value e = (if 0 < fst ?r then snd ?r else None)"
    by (auto simp: full_record_def Let_def split: option.splits if_splits prod.splits)
  moreover have "(if 0 < fst ?r then snd ?r else None) = snd ?r"
    using read_vlog_value_payload
      [of XXH32 malloc_ok vf "e_vlog_offset e" "unat (e_value_size e)"]
    by auto
  ultimately show "vlog_status = fst ?r" and "e_value e = snd ?r"
    by simp_all
qed

lemma full_record_no_vlog:
  assumes "full_record XXH32 malloc_ok NoVlogPath mem ptr remaining prev_seq =
             Some ((e, vlog_status), ptr', remaining', s)"
    and "e_flags e AND TDB_KV_FLAG_HAS_VLOG \<noteq> 0"
  shows "vlog_status = 0" and "e_value e = None"
  using assms
  by (auto simp: full_record_def Let_def split: option.splits if_splits prod.splits)

lemma full_record_vlog_empty:
  assumes "full_record XXH32 malloc_ok (VlogPath vf) mem ptr remaining prev_seq =
             Some ((e, vlog_status), ptr', remaining', s)"
    and "e_flags e AND TDB_KV_FLAG_HAS_VLOG \<noteq> 0" and "\<not> e_value_size e > 0"
  shows "vlog_status = 0" and "e_value e = None"
  using assms
  by (auto simp: full_record_def Let_def split: option.splits if_splits prod.splits)

lemma vlog_annotation_path:
  assumes "vlog_status = -1 \<or> vlog_status = -2 \<or> 0 < vlog_status"
  shows "vlog_annotation vlog_status True =
           (if vlog_status = -2 then '' CHECKSUM_ERR''
            else if vlog_status = -1 then '' READ_ERR'' else [])"
  using assms by (auto simp: vlog_annotation_def)

text \<open>
  How a line of the full dump renders the value-log resolution of its record.
\<close>

definition vlog_rendered :: "xxh32 \<Rightarrow> (nat \<Rightarrow> bool) \<Rightarrow> vlog_arg \<Rightarrow> full_line \<Rightarrow> bool" where
  "vlog_rendered XXH32 malloc_ok vlog l =
     (if e_flags (fl_entry l) AND TDB_KV_FLAG_HAS_VLOG = 0 then fl_vlog_note l = []
      else
        (case vlog of
           NoVlogPath \<Rightarrow>
             fl_vlog_status l = 0 \<and> e_value (fl_entry l) = None
             \<and> fl_vlog_note l = '' NO_VLOG_FILE''
         | VlogPath vf \<Rightarrow>
             if 0 < e_value_size (fl_entry l) then
               fl_vlog_status l =
                 fst (read_vlog_value XXH32 malloc_ok vf (e_vlog_offset (fl_entry l))
                        (unat (e_value_size (fl_entry l))))
               \<and> e_value (fl_entry l) =
                 snd (read_vlog_value XXH32 malloc_ok vf (e_vlog_offset (fl_entry l))
                        (unat (e_value_size (fl_entry l))))
               \<and> fl_vlog_note l =
                 (if fl_vlog_status l = -2 then '' CHECKSUM_ERR''
                  else if fl_vlog_status l = -1 then '' READ_ERR'' else [])
             else fl_vlog_status l = 0 \<and> e_value (fl_entry l) = None \<and> fl_vlog_note l = []))"

lemma full_record_rendered:
  assumes "full_record XXH32 malloc_ok vlog mem ptr remaining prev_seq =
             Some ((e, vlog_status), ptr', remaining', s)"
  shows "vlog_rendered XXH32 malloc_ok vlog
           \<lparr>fl_num = n, fl_blk = b, fl_checksum_err = c, fl_vlog_status = vlog_status,
            fl_vlog_note =
              (if e_flags e AND TDB_KV_FLAG_HAS_VLOG \<noteq> 0
               then vlog_annotation vlog_status (vlog \<noteq> NoVlogPath) else []),
            fl_entry = e\<rparr>"
proof (cases "e_flags e AND TDB_KV_FLAG_HAS_VLOG = 0")
  case True
  then show ?thesis
    by (simp add: vlog_rendered_def)
next
  case flag: False
  show ?thesis
  proof (cases vlog)
    case NoVlogPath
    from full_record_no_vlog [OF assms [unfolded NoVlogPath] flag] flag show ?thesis
      by (simp add: vlog_rendered_def NoVlogPath vlog_annotation_def)
  next
    case (VlogPath vf)
    show ?thesis
    proof (cases "0 < e_value_size e")
      case True
      note r = full_record_vlog [OF assms [unfolded VlogPath] flag True]
      have "vlog_status = -1 \<or> vlog_status = -2 \<or> 0 < vlog_status"
        unfolding r(1) by (rule read_vlog_value_status)
      from vlog_annotation_path [OF this] r flag True show ?thesis
        by (simp add: vlog_rendered_def VlogPath)
    next
      case False
      from full_record_vlog_empty [OF assms [unfolded VlogPath] flag False] flag False
      show ?thesis
        by (simp add: vlog_rendered_def VlogPath vlog_annotation_def)
    qed
  qed
qed

lemma full_block_loop_rendered:
  "\<forall>l \<in> set out. vlog_rendered XXH32 malloc_ok vlog l \<Longrightarrow>
   \<forall>l \<in> set (snd (full_block_loop XXH32 malloc_ok vlog mem limit block_num checksum_ok ptr
                     remaining prev_seq total_entries out)).
     vlog_rendered XXH32 malloc_ok vlog l"
proof (induction XXH32 malloc_ok vlog mem limit block_num checksum_ok ptr remaining prev_seq
    total_entries out rule: full_block_loop.induct)
  case (1 XXH32 malloc_ok vlog mem limit block_num checksum_ok ptr remaining prev_seq
    total_entries out)
  note unfold = full_block_loop.simps [of XXH32 malloc_ok vlog mem limit block_num checksum_ok
    ptr remaining prev_seq total_entries out]
  show ?case
  proof (cases "remaining > 0 \<and> total_entries < limit")
    case False
    then show ?thesis
      using "1.prems" unfolding unfold by auto
  next
    case True
    show ?thesis
    proof (cases "full_record XXH32 malloc_ok vlog mem ptr remaining prev_seq")
      case None
      with True show ?thesis
        using "1.prems" unfolding unfold by simp
    next
      case (Some x)
      obtain e vlog_status ptr' remaining' s where
        x: "x = ((e, vlog_status), ptr', remaining', s)"
        by (cases x) auto
      let ?l = "\<lparr>fl_num = total_entries + 1, fl_blk = block_num,
                  fl_checksum_err = (\<not> checksum_ok), fl_vlog_status = vlog_status,
                  fl_vlog_note =
                    (if e_flags e AND TDB_KV_FLAG_HAS_VLOG \<noteq> 0
                     then vlog_annotation vlog_status (vlog \<noteq> NoVlogPath) else []),
                  fl_entry = e\<rparr>"
      have "vlog_rendered XXH32 malloc_ok vlog ?l"
        using Some [unfolded x] by (rule full_record_rendered)
      with "1.prems" have "\<forall>l \<in> set (out @ [?l]). vlog_rendered XXH32 malloc_ok vlog l"
        by simp
      from "1.IH" [OF True Some [unfolded x] refl refl refl refl this] True Some x
      show ?thesis
        unfolding unfold by simp
    qed
  qed
qed

lemma full_scan_rendered:
  "\<forall>l \<in> set out. vlog_rendered XXH32 malloc_ok vlog l \<Longrightarrow>
   \<forall>l \<in> set (fst (snd (snd (snd
       (full_scan XXH32 malloc_ok vlog content limit pos total_entries block_num
          checksum_errors out visited))))).
     vlog_rendered XXH32 malloc_ok vlog l"
proof (induction "length content - pos" arbitrary: pos total_entries block_num checksum_errors
    out visited rule: less_induct)
  case less
  show ?case
  proof (cases "total_entries < limit \<and> pos < length content
                \<and> block_at malloc_ok content pos \<noteq> None")
    case False
    then have "\<not> (total_entries < limit \<and> pos < length content)
               \<or> block_at malloc_ok content pos = None"
      by (cases "block_at malloc_ok content pos") auto
    from full_scan_stop [OF this, of XXH32 vlog block_num checksum_errors out visited]
    show ?thesis
      using less.prems by auto
  next
    case True
    then obtain block_size stored_checksum data where
      lim: "total_entries < limit" and inside: "pos < length content"
      and blk: "block_at malloc_ok content pos = Some (block_size, stored_checksum, data)"
      by (cases "block_at malloc_ok content pos") auto
    have smaller: "length content - (pos + 8 + unat block_size + 8) < length content - pos"
      using inside by simp
    let ?ok = "compute_block_checksum XXH32 data (unat block_size) = stored_checksum"
    have "\<forall>l \<in> set (snd (full_block_loop XXH32 malloc_ok vlog (\<lambda>i. data ! i) limit block_num
                             ?ok 0 (unat block_size) 0 total_entries out)).
            vlog_rendered XXH32 malloc_ok vlog l"
      using less.prems by (rule full_block_loop_rendered)
    from less.hyps [OF smaller this] show ?thesis
      unfolding full_scan_block [OF lim inside blk] .
  qed
qed

text \<open>
  One turn of the record loop of the full dump at a record that decodes: its line
  is added, and the loop goes on behind the record.
\<close>

lemma full_block_loop_step:
  assumes "0 < remaining" and "total_entries < limit"
    and "full_record XXH32 malloc_ok vlog mem ptr remaining prev_seq =
           Some ((e, vlog_status), ptr', remaining', s)"
  shows "full_block_loop XXH32 malloc_ok vlog mem limit block_num checksum_ok ptr remaining
           prev_seq total_entries out =
         full_block_loop XXH32 malloc_ok vlog mem limit block_num checksum_ok ptr' remaining' s
           (total_entries + 1)
           (out @ [\<lparr>fl_num = total_entries + 1, fl_blk = block_num,
                     fl_checksum_err = (\<not> checksum_ok), fl_vlog_status = vlog_status,
                     fl_vlog_note =
                       (if e_flags e AND TDB_KV_FLAG_HAS_VLOG \<noteq> 0
                        then vlog_annotation vlog_status (vlog \<noteq> NoVlogPath) else []),
                     fl_entry = e\<rparr>])"
  using assms
  by (simp add: full_block_loop.simps [of XXH32 malloc_ok vlog mem limit block_num checksum_ok
        ptr remaining prev_seq total_entries out])

text \<open>
  C5.  \<open>read_vlog_value\<close> returns \<open>-1\<close>, \<open>-2\<close> or a positive number.  It returns
  \<open>-1\<close> exactly when the file cannot be opened, the 8-byte header cannot be read
  in full, the declared length is 0 or above 100 MiB, or the declared payload
  cannot be read in full (its buffer cannot be allocated or the file ends before
  it); \<open>-2\<close> exactly when header and payload were read and the recomputed
  checksum differs from the stored one; a positive number exactly when they were
  read and it matches, and then it is the declared length and the payload is
  handed out.  A payload is handed out in no other case.  The full dump takes
  status and value of a value-log record from it, and annotates \<open>-2\<close> with
  \<open>CHECKSUM_ERR\<close>, \<open>-1\<close> with \<open>READ_ERR\<close>, success with nothing, and a record
  for which no companion file was given with \<open>NO_VLOG_FILE\<close>.  In the dump
  itself: when the record loop stands at a value-log record that decodes, it adds
  the line of that record, with the status of the resolution and \<open>CHECKSUM_ERR\<close>
  for \<open>-2\<close>, \<open>READ_ERR\<close> for \<open>-1\<close> and no annotation for a success when a
  companion file was named, and with \<open>NO_VLOG_FILE\<close> and no value when none was
  named; and every line that \<open>sstable-dump-full\<close> prints for a value-log record
  carries exactly these annotations, and the payload exactly when the resolution
  succeeded.
\<close>

theorem vlog_resolution_has_three_outcomes:
  "(fst (read_vlog_value XXH32 malloc_ok vlog vlog_offset value_size) = -1
    \<or> fst (read_vlog_value XXH32 malloc_ok vlog vlog_offset value_size) = -2
    \<or> 0 < fst (read_vlog_value XXH32 malloc_ok vlog vlog_offset value_size))
   \<and> ((fst (read_vlog_value XXH32 malloc_ok vlog vlog_offset value_size) = -1) =
       (case vlog of
          None \<Rightarrow> True
        | Some content \<Rightarrow>
            length (pread content 8 (unat vlog_offset)) \<noteq> 8
            \<or> decode_uint32_le (pread content 8 (unat vlog_offset)) = 0
            \<or> decode_uint32_le (pread content 8 (unat vlog_offset)) > 100 * 1024 * 1024
            \<or> \<not> malloc_ok (unat (decode_uint32_le (pread content 8 (unat vlog_offset))))
            \<or> length (pread content
                         (unat (decode_uint32_le (pread content 8 (unat vlog_offset))))
                         (unat vlog_offset + 8))
                \<noteq> unat (decode_uint32_le (pread content 8 (unat vlog_offset)))))
   \<and> ((fst (read_vlog_value XXH32 malloc_ok vlog vlog_offset value_size) = -2) =
       (\<exists>content block_size stored_checksum data.
          vlog = Some content
          \<and> block_at malloc_ok content (unat vlog_offset)
              = Some (block_size, stored_checksum, data)
          \<and> compute_block_checksum XXH32 data (unat block_size) \<noteq> stored_checksum))
   \<and> ((0 < fst (read_vlog_value XXH32 malloc_ok vlog vlog_offset value_size)) =
       (\<exists>content block_size stored_checksum data.
          vlog = Some content
          \<and> block_at malloc_ok content (unat vlog_offset)
              = Some (block_size, stored_checksum, data)
          \<and> compute_block_checksum XXH32 data (unat block_size) = stored_checksum
          \<and> read_vlog_value XXH32 malloc_ok vlog vlog_offset value_size
              = (uint block_size, Some data)))
   \<and> ((snd (read_vlog_value XXH32 malloc_ok vlog vlog_offset value_size) \<noteq> None) =
       (0 < fst (read_vlog_value XXH32 malloc_ok vlog vlog_offset value_size)))
   \<and> vlog_annotation (-2) True = '' CHECKSUM_ERR''
   \<and> vlog_annotation (-1) True = '' READ_ERR''
   \<and> vlog_annotation 0 False = '' NO_VLOG_FILE''
   \<and> (0 < vlog_status \<longrightarrow> vlog_annotation vlog_status True = [])
   \<and> (full_record XXH32 malloc_ok (VlogPath vf) mem ptr remaining prev_seq =
         Some ((e, vlog_status), ptr', remaining', s)
       \<and> e_flags e AND TDB_KV_FLAG_HAS_VLOG \<noteq> 0 \<and> e_value_size e > 0 \<longrightarrow>
       vlog_status =
         fst (read_vlog_value XXH32 malloc_ok vf (e_vlog_offset e) (unat (e_value_size e)))
       \<and> e_value e =
         snd (read_vlog_value XXH32 malloc_ok vf (e_vlog_offset e) (unat (e_value_size e))))
   \<and> (full_record XXH32 malloc_ok NoVlogPath mem ptr remaining prev_seq =
         Some ((e, vlog_status), ptr', remaining', s)
       \<and> e_flags e AND TDB_KV_FLAG_HAS_VLOG \<noteq> 0 \<longrightarrow>
       vlog_status = 0 \<and> e_value e = None)
   \<and> (0 < remaining \<and> total_entries < limit
       \<and> full_record XXH32 malloc_ok (VlogPath vf) mem ptr remaining prev_seq =
           Some ((e, vlog_status), ptr', remaining', s)
       \<and> e_flags e AND TDB_KV_FLAG_HAS_VLOG \<noteq> 0 \<and> e_value_size e > 0 \<longrightarrow>
       full_block_loop XXH32 malloc_ok (VlogPath vf) mem limit block_num checksum_ok ptr
         remaining prev_seq total_entries out =
       full_block_loop XXH32 malloc_ok (VlogPath vf) mem limit block_num checksum_ok ptr'
         remaining' s (total_entries + 1)
         (out @ [\<lparr>fl_num = total_entries + 1, fl_blk = block_num,
                   fl_checksum_err = (\<not> checksum_ok),
                   fl_vlog_status =
                     fst (read_vlog_value XXH32 malloc_ok vf (e_vlog_offset e)
                            (unat (e_value_size e))),
                   fl_vlog_note =
                     (if fst (read_vlog_value XXH32 malloc_ok vf (e_vlog_offset e)
                                (unat (e_value_size e))) = -2 then '' CHECKSUM_ERR''
                      else if fst (read_vlog_value XXH32 malloc_ok vf (e_vlog_offset e)
                                     (unat (e_value_size e))) = -1 then '' READ_ERR''
                      else []),
                   fl_entry = e\<rparr>]))
   \<and> (0 < remaining \<and> total_entries < limit
       \<and> full_record XXH32 malloc_ok NoVlogPath mem ptr remaining prev_seq =
           Some ((e, vlog_status), ptr', remaining', s)
       \<and> e_flags e AND TDB_KV_FLAG_HAS_VLOG \<noteq> 0 \<longrightarrow>
       full_block_loop XXH32 malloc_ok NoVlogPath mem limit block_num checksum_ok ptr
         remaining prev_seq total_entries out =
       full_block_loop XXH32 malloc_ok NoVlogPath mem limit block_num checksum_ok ptr'
         remaining' s (total_entries + 1)
         (out @ [\<lparr>fl_num = total_entries + 1, fl_blk = block_num,
                   fl_checksum_err = (\<not> checksum_ok), fl_vlog_status = 0,
                   fl_vlog_note = '' NO_VLOG_FILE'', fl_entry = e\<rparr>]))
   \<and> (\<forall>l \<in> set (fr_lines (cmd_sstable_dump_full XXH32 malloc_ok arg2 arg3 vlog_file klog)).
        if e_flags (fl_entry l) AND TDB_KV_FLAG_HAS_VLOG = 0 then fl_vlog_note l = []
        else
          (case arg2 of
             Some (True, parsed) \<Rightarrow>
               if 0 < e_value_size (fl_entry l) then
                 fl_vlog_status l =
                   fst (read_vlog_value XXH32 malloc_ok vlog_file (e_vlog_offset (fl_entry l))
                          (unat (e_value_size (fl_entry l))))
                 \<and> e_value (fl_entry l) =
                   snd (read_vlog_value XXH32 malloc_ok vlog_file (e_vlog_offset (fl_entry l))
                          (unat (e_value_size (fl_entry l))))
                 \<and> fl_vlog_note l =
                   (if fl_vlog_status l = -2 then '' CHECKSUM_ERR''
                    else if fl_vlog_status l = -1 then '' READ_ERR'' else [])
               else fl_vlog_status l = 0 \<and> e_value (fl_entry l) = None \<and> fl_vlog_note l = []
           | _ \<Rightarrow>
               fl_vlog_status l = 0 \<and> e_value (fl_entry l) = None
               \<and> fl_vlog_note l = '' NO_VLOG_FILE''))"
proof -
  have max: "(100 * 1024 * 1024 :: u32) = MAX_BLOCK_SIZE"
    by (simp add: MAX_BLOCK_SIZE_def)
  have a: "(fst (read_vlog_value XXH32 malloc_ok vlog vlog_offset value_size) = -1) =
       (case vlog of
          None \<Rightarrow> True
        | Some content \<Rightarrow>
            length (pread content 8 (unat vlog_offset)) \<noteq> 8
            \<or> decode_uint32_le (pread content 8 (unat vlog_offset)) = 0
            \<or> decode_uint32_le (pread content 8 (unat vlog_offset)) > 100 * 1024 * 1024
            \<or> \<not> malloc_ok (unat (decode_uint32_le (pread content 8 (unat vlog_offset))))
            \<or> length (pread content
                         (unat (decode_uint32_le (pread content 8 (unat vlog_offset))))
                         (unat vlog_offset + 8))
                \<noteq> unat (decode_uint32_le (pread content 8 (unat vlog_offset))))"
    unfolding max read_vlog_value_read_error
    by (cases vlog) (simp_all add: block_at_None)
  have b: "vlog_annotation (-2) True = '' CHECKSUM_ERR''"
    "vlog_annotation (-1) True = '' READ_ERR''"
    "vlog_annotation 0 False = '' NO_VLOG_FILE''"
    by (simp_all add: vlog_annotation_def)
  have c: "0 < vlog_status \<longrightarrow> vlog_annotation vlog_status True = []"
    by (simp add: vlog_annotation_def)
  have d: "full_record XXH32 malloc_ok (VlogPath vf) mem ptr remaining prev_seq =
         Some ((e, vlog_status), ptr', remaining', s)
       \<and> e_flags e AND TDB_KV_FLAG_HAS_VLOG \<noteq> 0 \<and> e_value_size e > 0 \<longrightarrow>
       vlog_status =
         fst (read_vlog_value XXH32 malloc_ok vf (e_vlog_offset e) (unat (e_value_size e)))
       \<and> e_value e =
         snd (read_vlog_value XXH32 malloc_ok vf (e_vlog_offset e) (unat (e_value_size e)))"
    using full_record_vlog [of XXH32 malloc_ok vf mem ptr remaining prev_seq e vlog_status
        ptr' remaining' s]
    by blast
  have f: "full_record XXH32 malloc_ok NoVlogPath mem ptr remaining prev_seq =
         Some ((e, vlog_status), ptr', remaining', s)
       \<and> e_flags e AND TDB_KV_FLAG_HAS_VLOG \<noteq> 0 \<longrightarrow>
       vlog_status = 0 \<and> e_value e = None"
    using full_record_no_vlog [of XXH32 malloc_ok mem ptr remaining prev_seq e vlog_status
        ptr' remaining' s]
    by blast
  have g: "0 < remaining \<and> total_entries < limit
       \<and> full_record XXH32 malloc_ok (VlogPath vf) mem ptr remaining prev_seq =
           Some ((e, vlog_status), ptr', remaining', s)
       \<and> e_flags e AND TDB_KV_FLAG_HAS_VLOG \<noteq> 0 \<and> e_value_size e > 0 \<longrightarrow>
       full_block_loop XXH32 malloc_ok (VlogPath vf) mem limit block_num checksum_ok ptr
         remaining prev_seq total_entries out =
       full_block_loop XXH32 malloc_ok (VlogPath vf) mem limit block_num checksum_ok ptr'
         remaining' s (total_entries + 1)
         (out @ [\<lparr>fl_num = total_entries + 1, fl_blk = block_num,
                   fl_checksum_err = (\<not> checksum_ok),
                   fl_vlog_status =
                     fst (read_vlog_value XXH32 malloc_ok vf (e_vlog_offset e)
                            (unat (e_value_size e))),
                   fl_vlog_note =
                     (if fst (read_vlog_value XXH32 malloc_ok vf (e_vlog_offset e)
                                (unat (e_value_size e))) = -2 then '' CHECKSUM_ERR''
                      else if fst (read_vlog_value XXH32 malloc_ok vf (e_vlog_offset e)
                                     (unat (e_value_size e))) = -1 then '' READ_ERR''
                      else []),
                   fl_entry = e\<rparr>])"
  proof
    assume h: "0 < remaining \<and> total_entries < limit
       \<and> full_record XXH32 malloc_ok (VlogPath vf) mem ptr remaining prev_seq =
           Some ((e, vlog_status), ptr', remaining', s)
       \<and> e_flags e AND TDB_KV_FLAG_HAS_VLOG \<noteq> 0 \<and> e_value_size e > 0"
    then have h1: "0 < remaining" and h2: "total_entries < limit"
      and h3: "full_record XXH32 malloc_ok (VlogPath vf) mem ptr remaining prev_seq =
           Some ((e, vlog_status), ptr', remaining', s)"
      and h4: "e_flags e AND TDB_KV_FLAG_HAS_VLOG \<noteq> 0" and h5: "e_value_size e > 0"
      by blast+
    let ?r = "read_vlog_value XXH32 malloc_ok vf (e_vlog_offset e) (unat (e_value_size e))"
    have st: "vlog_status = fst ?r"
      by (rule full_record_vlog(1) [OF h3 h4 h5])
    have "fst ?r = -1 \<or> fst ?r = -2 \<or> 0 < fst ?r"
      by (rule read_vlog_value_status)
    from vlog_annotation_path [OF this] h4
    have ann: "(if e_flags e AND TDB_KV_FLAG_HAS_VLOG \<noteq> 0
                 then vlog_annotation (fst ?r) (VlogPath vf \<noteq> NoVlogPath) else []) =
                (if fst ?r = -2 then '' CHECKSUM_ERR''
                 else if fst ?r = -1 then '' READ_ERR'' else [])"
      by simp
    show "full_block_loop XXH32 malloc_ok (VlogPath vf) mem limit block_num checksum_ok ptr
         remaining prev_seq total_entries out =
       full_block_loop XXH32 malloc_ok (VlogPath vf) mem limit block_num checksum_ok ptr'
         remaining' s (total_entries + 1)
         (out @ [\<lparr>fl_num = total_entries + 1, fl_blk = block_num,
                   fl_checksum_err = (\<not> checksum_ok), fl_vlog_status = fst ?r,
                   fl_vlog_note =
                     (if fst ?r = -2 then '' CHECKSUM_ERR''
                      else if fst ?r = -1 then '' READ_ERR'' else []),
                   fl_entry = e\<rparr>])"
      using full_block_loop_step [OF h1 h2 h3 [unfolded st], of block_num checksum_ok out]
      unfolding ann .
  qed
  have i: "0 < remaining \<and> total_entries < limit
       \<and> full_record XXH32 malloc_ok NoVlogPath mem ptr remaining prev_seq =
           Some ((e, vlog_status), ptr', remaining', s)
       \<and> e_flags e AND TDB_KV_FLAG_HAS_VLOG \<noteq> 0 \<longrightarrow>
       full_block_loop XXH32 malloc_ok NoVlogPath mem limit block_num checksum_ok ptr
         remaining prev_seq total_entries out =
       full_block_loop XXH32 malloc_ok NoVlogPath mem limit block_num checksum_ok ptr'
         remaining' s (total_entries + 1)
         (out @ [\<lparr>fl_num = total_entries + 1, fl_blk = block_num,
                   fl_checksum_err = (\<not> checksum_ok), fl_vlog_status = 0,
                   fl_vlog_note = '' NO_VLOG_FILE'', fl_entry = e\<rparr>])"
  proof
    assume h: "0 < remaining \<and> total_entries < limit
       \<and> full_record XXH32 malloc_ok NoVlogPath mem ptr remaining prev_seq =
           Some ((e, vlog_status), ptr', remaining', s)
       \<and> e_flags e AND TDB_KV_FLAG_HAS_VLOG \<noteq> 0"
    then have h1: "0 < remaining" and h2: "total_entries < limit"
      and h3: "full_record XXH32 malloc_ok NoVlogPath mem ptr remaining prev_seq =
           Some ((e, vlog_status), ptr', remaining', s)"
      and h4: "e_flags e AND TDB_KV_FLAG_HAS_VLOG \<noteq> 0"
      by blast+
    have st: "vlog_status = 0"
      by (rule full_record_no_vlog(1) [OF h3 h4])
    have ann: "(if e_flags e AND TDB_KV_FLAG_HAS_VLOG \<noteq> 0
                 then vlog_annotation 0 (NoVlogPath \<noteq> NoVlogPath) else []) =
                '' NO_VLOG_FILE''"
      using h4 by (simp add: vlog_annotation_def)
    show "full_block_loop XXH32 malloc_ok NoVlogPath mem limit block_num checksum_ok ptr
         remaining prev_seq total_entries out =
       full_block_loop XXH32 malloc_ok NoVlogPath mem limit block_num checksum_ok ptr'
         remaining' s (total_entries + 1)
         (out @ [\<lparr>fl_num = total_entries + 1, fl_blk = block_num,
                   fl_checksum_err = (\<not> checksum_ok), fl_vlog_status = 0,
                   fl_vlog_note = '' NO_VLOG_FILE'', fl_entry = e\<rparr>])"
      using full_block_loop_step [OF h1 h2 h3 [unfolded st], of block_num checksum_ok out]
      unfolding ann .
  qed
  have j: "\<forall>l \<in> set (fr_lines (cmd_sstable_dump_full XXH32 malloc_ok arg2 arg3 vlog_file klog)).
        if e_flags (fl_entry l) AND TDB_KV_FLAG_HAS_VLOG = 0 then fl_vlog_note l = []
        else
          (case arg2 of
             Some (True, parsed) \<Rightarrow>
               if 0 < e_value_size (fl_entry l) then
                 fl_vlog_status l =
                   fst (read_vlog_value XXH32 malloc_ok vlog_file (e_vlog_offset (fl_entry l))
                          (unat (e_value_size (fl_entry l))))
                 \<and> e_value (fl_entry l) =
                   snd (read_vlog_value XXH32 malloc_ok vlog_file (e_vlog_offset (fl_entry l))
                          (unat (e_value_size (fl_entry l))))
                 \<and> fl_vlog_note l =
                   (if fl_vlog_status l = -2 then '' CHECKSUM_ERR''
                    else if fl_vlog_status l = -1 then '' READ_ERR'' else [])
               else fl_vlog_status l = 0 \<and> e_value (fl_entry l) = None \<and> fl_vlog_note l = []
           | _ \<Rightarrow>
               fl_vlog_status l = 0 \<and> e_value (fl_entry l) = None
               \<and> fl_vlog_note l = '' NO_VLOG_FILE'')"
  proof (cases klog)
    case None
    then show ?thesis
      by (simp add: cmd_sstable_dump_full_def Let_def)
  next
    case (Some content)
    let ?vlog = "case arg2 of Some (True, parsed) \<Rightarrow> VlogPath vlog_file | _ \<Rightarrow> NoVlogPath"
    have "\<forall>l \<in> set ([] :: full_line list). vlog_rendered XXH32 malloc_ok ?vlog l"
      by simp
    from full_scan_rendered
      [OF this, of content "dump_full_limit arg2 arg3" 8 0 0 0 "[]"]
    have "\<forall>l \<in> set (fr_lines (cmd_sstable_dump_full XXH32 malloc_ok arg2 arg3 vlog_file klog)).
            vlog_rendered XXH32 malloc_ok ?vlog l"
      by (simp add: cmd_sstable_dump_full_def Let_def Some split: prod.splits)
    then show ?thesis
      by (auto simp: vlog_rendered_def split: option.splits bool.splits if_splits)
  qed
  from read_vlog_value_status [of XXH32 malloc_ok vlog vlog_offset value_size] a
    read_vlog_value_checksum_error [of XXH32 malloc_ok vlog vlog_offset value_size]
    read_vlog_value_success [of XXH32 malloc_ok vlog vlog_offset value_size]
    read_vlog_value_payload [of XXH32 malloc_ok vlog vlog_offset value_size]
    b c d f g i j
  show ?thesis
    by (intro conjI)
qed


text \<open>
  A value log with a good block at offset 0 (payload \<open>abc\<close>), a block with a wrong
  checksum at offset 11, and a header declaring the length 0 at offset 22; and a
  record with \<open>HAS_VLOG\<close>, value size 3 and value-log offset 0.
\<close>

definition vlog_example :: "u8 list" where
  "vlog_example =
     [3, 0, 0, 0, 3, 0, 0, 0, 0x61, 0x62, 0x63,
      3, 0, 0, 0, 7, 0, 0, 0, 0x61, 0x62, 0x63,
      0, 0, 0, 0, 0, 0, 0, 0]"

definition vlog_record_example :: "u8 list" where
  "vlog_record_example = [0x04, 0x01, 0x03, 0x09, 0x00, 0x6B]"

text \<open>
  A table file with one block of three such records, with the value-log offsets 0,
  11 and 22 and the sequences 9, 10 and 11; and the entry such a record decodes
  to.
\<close>

definition vlog_records_example :: "u8 list" where
  "vlog_records_example =
     [0x04, 0x01, 0x03, 0x09, 0x00, 0x6B,
      0x04, 0x01, 0x03, 0x0A, 0x0B, 0x6C,
      0x04, 0x01, 0x03, 0x0B, 0x16, 0x6D]"

definition klog_vlog_example :: "u8 list" where
  "klog_vlog_example =
     [0, 0, 0, 0, 0, 0, 0, 0,
      18, 0, 0, 0, 18, 0, 0, 0,
      0x04, 0x01, 0x03, 0x09, 0x00, 0x6B,
      0x04, 0x01, 0x03, 0x0A, 0x0B, 0x6C,
      0x04, 0x01, 0x03, 0x0B, 0x16, 0x6D,
      0, 0, 0, 0, 0, 0, 0, 0]"

definition vlog_entry :: "u64 \<Rightarrow> u64 \<Rightarrow> u8 \<Rightarrow> u8 list option \<Rightarrow> kv_entry" where
  "vlog_entry seq vlog_offset key v =
     \<lparr>e_flags = 0x04, e_key_size = 1, e_value_size = 3, e_seq_value = seq, e_seq = seq,
      e_ttl = 0, e_vlog_offset = vlog_offset, e_key = [key], e_value = v\<rparr>"

definition vlog_line :: "int \<Rightarrow> int \<Rightarrow> string \<Rightarrow> kv_entry \<Rightarrow> full_line" where
  "vlog_line n vlog_status annotation e =
     \<lparr>fl_num = n, fl_blk = 0, fl_checksum_err = False, fl_vlog_status = vlog_status,
      fl_vlog_note = annotation, fl_entry = e\<rparr>"

lemma klog_vlog_example_lines:
  "fr_lines (cmd_sstable_dump_full example_hash (\<lambda>n. True) (Some (True, 0, False)) None
               (Some vlog_example) (Some klog_vlog_example)) =
     [vlog_line 1 3 [] (vlog_entry 9 0 0x6B (Some [0x61, 0x62, 0x63])),
      vlog_line 2 (-2) '' CHECKSUM_ERR'' (vlog_entry 10 11 0x6C None),
      vlog_line 3 (-1) '' READ_ERR'' (vlog_entry 11 22 0x6D None)]"
  "fr_lines (cmd_sstable_dump_full example_hash (\<lambda>n. True) None None None
               (Some klog_vlog_example)) =
     [vlog_line 1 0 '' NO_VLOG_FILE'' (vlog_entry 9 0 0x6B None),
      vlog_line 2 0 '' NO_VLOG_FILE'' (vlog_entry 10 11 0x6C None),
      vlog_line 3 0 '' NO_VLOG_FILE'' (vlog_entry 11 22 0x6D None)]"
  by (simp_all add: cmd_sstable_dump_full_def dump_full_limit_def dump_limit_def
      ADMINTOOL_DEFAULT_DUMP_LIMIT_def klog_vlog_example_def vlog_example_def
      full_scan.simps full_block_loop.simps full_record_def read_vlog_value_def
      vlog_annotation_def vlog_line_def vlog_entry_def
      eval_scan eval_varint window_bytes_def)

lemma vlog_example_reads:
  "read_vlog_value example_hash (\<lambda>n. True) (Some vlog_example) 0 3 = (3, Some [0x61, 0x62, 0x63])"
  "read_vlog_value example_hash (\<lambda>n. True) (Some vlog_example) 11 3 = (-2, None)"
  "read_vlog_value example_hash (\<lambda>n. True) (Some vlog_example) 22 3 = (-1, None)"
  "read_vlog_value example_hash (\<lambda>n. True) (Some vlog_example) 25 3 = (-1, None)"
  "read_vlog_value example_hash (\<lambda>n. True) None 0 3 = (-1, None)"
  by (simp_all add: read_vlog_value_def vlog_example_def eval_scan)

theorem vlog_resolution_has_three_outcomes_witness:
  "vlog_annotation (fst (read_vlog_value example_hash (\<lambda>n. True) (Some vlog_example) 0 3)) True
     = []
   \<and> snd (read_vlog_value example_hash (\<lambda>n. True) (Some vlog_example) 0 3)
     = Some [0x61, 0x62, 0x63]
   \<and> vlog_annotation (fst (read_vlog_value example_hash (\<lambda>n. True) (Some vlog_example) 11 3))
       True = '' CHECKSUM_ERR''
   \<and> snd (read_vlog_value example_hash (\<lambda>n. True) (Some vlog_example) 11 3) = None
   \<and> vlog_annotation (fst (read_vlog_value example_hash (\<lambda>n. True) (Some vlog_example) 22 3))
       True = '' READ_ERR''
   \<and> (\<exists>e ptr' remaining' s.
        full_record example_hash (\<lambda>n. True) (VlogPath (Some vlog_example))
          (\<lambda>i. vlog_record_example ! i) 0 6 0 = Some ((e, 3), ptr', remaining', s)
        \<and> e_value e = Some [0x61, 0x62, 0x63])
   \<and> (\<exists>e ptr' remaining' s.
        full_record example_hash (\<lambda>n. True) NoVlogPath
          (\<lambda>i. vlog_record_example ! i) 0 6 0 = Some ((e, 0), ptr', remaining', s)
        \<and> e_value e = None
        \<and> vlog_annotation 0 (NoVlogPath \<noteq> NoVlogPath) = '' NO_VLOG_FILE'')
   \<and> full_block_loop example_hash (\<lambda>n. True) (VlogPath (Some vlog_example))
       (\<lambda>i. vlog_records_example ! i) 1000 0 True 6 12 9 1 [] =
     full_block_loop example_hash (\<lambda>n. True) (VlogPath (Some vlog_example))
       (\<lambda>i. vlog_records_example ! i) 1000 0 True 12 6 10 2
       [vlog_line 2 (-2) '' CHECKSUM_ERR'' (vlog_entry 10 11 0x6C None)]
   \<and> full_block_loop example_hash (\<lambda>n. True) NoVlogPath
       (\<lambda>i. vlog_records_example ! i) 1000 0 True 0 18 0 0 [] =
     full_block_loop example_hash (\<lambda>n. True) NoVlogPath
       (\<lambda>i. vlog_records_example ! i) 1000 0 True 6 12 9 1
       [vlog_line 1 0 '' NO_VLOG_FILE'' (vlog_entry 9 0 0x6B None)]
   \<and> map (\<lambda>l. (fl_vlog_status l, fl_vlog_note l, e_value (fl_entry l)))
       (fr_lines (cmd_sstable_dump_full example_hash (\<lambda>n. True) (Some (True, 0, False)) None
                    (Some vlog_example) (Some klog_vlog_example))) =
     [(fst (read_vlog_value example_hash (\<lambda>n. True) (Some vlog_example) 0 3), [],
       snd (read_vlog_value example_hash (\<lambda>n. True) (Some vlog_example) 0 3)),
      (fst (read_vlog_value example_hash (\<lambda>n. True) (Some vlog_example) 11 3),
       '' CHECKSUM_ERR'', None),
      (fst (read_vlog_value example_hash (\<lambda>n. True) (Some vlog_example) 22 3),
       '' READ_ERR'', None)]
   \<and> map fl_vlog_note
       (fr_lines (cmd_sstable_dump_full example_hash (\<lambda>n. True) None None None
                    (Some klog_vlog_example))) =
     ['' NO_VLOG_FILE'', '' NO_VLOG_FILE'', '' NO_VLOG_FILE'']"
proof -
  let ?ok = "\<lambda>n :: nat. True"
  let ?e = "\<lambda>v. \<lparr>e_flags = 0x04, e_key_size = 1, e_value_size = 3, e_seq_value = 9, e_seq = 9,
                e_ttl = 0, e_vlog_offset = 0, e_key = [0x6B], e_value = v\<rparr>"
  note t = vlog_resolution_has_three_outcomes
    [where ?XXH32.0 = example_hash and malloc_ok = ?ok and mem = "\<lambda>i. vlog_record_example ! i"
      and ptr = 0 and remaining = 6 and prev_seq = 0 and ptr' = 6 and remaining' = 0 and s = 9]
  note t0 = t [where vlog = "Some vlog_example" and vlog_offset = 0 and value_size = 3
      and vlog_status = 3 and vf = "Some vlog_example" and e = "?e (Some [0x61, 0x62, 0x63])"]
  note t1 = t [where vlog = "Some vlog_example" and vlog_offset = 11 and value_size = 3
      and vlog_status = 0 and e = "?e None"]
  have r1: "full_record example_hash ?ok (VlogPath (Some vlog_example))
              (\<lambda>i. vlog_record_example ! i) 0 6 0 =
            Some ((?e (Some [0x61, 0x62, 0x63]), 3), 6, 0, 9)"
    by (simp add: full_record_def vlog_record_example_def eval_varint window_bytes_def
        vlog_example_reads)
  have r2: "full_record example_hash ?ok NoVlogPath (\<lambda>i. vlog_record_example ! i) 0 6 0 =
            Some ((?e None, 0), 6, 0, 9)"
    by (simp add: full_record_def vlog_record_example_def eval_varint window_bytes_def)
  have flag: "e_flags (?e v) AND TDB_KV_FLAG_HAS_VLOG \<noteq> 0" "e_value_size (?e v) > 0" for v
    by (simp_all add: TDB_KV_FLAG_HAS_VLOG_def)
  have pos: "(0::int) < 3"
    by simp
  have h1: "full_record example_hash ?ok (VlogPath (Some vlog_example))
              (\<lambda>i. vlog_record_example ! i) 0 6 0 =
              Some ((?e (Some [0x61, 0x62, 0x63]), 3), 6, 0, 9)
            \<and> e_flags (?e (Some [0x61, 0x62, 0x63])) AND TDB_KV_FLAG_HAS_VLOG \<noteq> 0
            \<and> e_value_size (?e (Some [0x61, 0x62, 0x63])) > 0"
    using r1 flag by blast
  have h2: "full_record example_hash ?ok NoVlogPath (\<lambda>i. vlog_record_example ! i) 0 6 0 =
              Some ((?e None, 0), 6, 0, 9)
            \<and> e_flags (?e None) AND TDB_KV_FLAG_HAS_VLOG \<noteq> 0"
    using r2 flag by blast
  note c = t0 [THEN conjunct2, THEN conjunct2, THEN conjunct2, THEN conjunct2, THEN conjunct2]
  note ann_cs = c [THEN conjunct1]
  note ann_rd = c [THEN conjunct2, THEN conjunct1]
  note ann_no = c [THEN conjunct2, THEN conjunct2, THEN conjunct1]
  note ann_ok = c [THEN conjunct2, THEN conjunct2, THEN conjunct2, THEN conjunct1, THEN mp,
    OF pos]
  note link = c [THEN conjunct2, THEN conjunct2, THEN conjunct2, THEN conjunct2,
    THEN conjunct1, THEN mp, OF h1]
  note c' = t1 [THEN conjunct2, THEN conjunct2, THEN conjunct2, THEN conjunct2, THEN conjunct2]
  note nolink = c' [THEN conjunct2, THEN conjunct2, THEN conjunct2, THEN conjunct2,
    THEN conjunct2, THEN conjunct1, THEN mp, OF h2]
  have s0: "fst (read_vlog_value example_hash ?ok (Some vlog_example) 0 3) = 3"
    "snd (read_vlog_value example_hash ?ok (Some vlog_example) 0 3) = Some [0x61, 0x62, 0x63]"
    using link by simp_all
  have w1: "vlog_annotation (fst (read_vlog_value example_hash ?ok (Some vlog_example) 0 3))
              True = []"
    using ann_ok s0 by simp
  have w3: "vlog_annotation (fst (read_vlog_value example_hash ?ok (Some vlog_example) 11 3))
              True = '' CHECKSUM_ERR''"
    using ann_cs by (simp add: vlog_example_reads)
  have w4: "snd (read_vlog_value example_hash ?ok (Some vlog_example) 11 3) = None"
    using t1 [THEN conjunct2, THEN conjunct2, THEN conjunct2, THEN conjunct2, THEN conjunct1]
    by (simp add: vlog_example_reads)
  have w5: "vlog_annotation (fst (read_vlog_value example_hash ?ok (Some vlog_example) 22 3))
              True = '' READ_ERR''"
    using ann_rd by (simp add: vlog_example_reads)
  have w6: "\<exists>e ptr' remaining' s.
        full_record example_hash ?ok (VlogPath (Some vlog_example))
          (\<lambda>i. vlog_record_example ! i) 0 6 0 = Some ((e, 3), ptr', remaining', s)
        \<and> e_value e = Some [0x61, 0x62, 0x63]"
    using r1 by auto
  have w7: "\<exists>e ptr' remaining' s.
        full_record example_hash ?ok NoVlogPath
          (\<lambda>i. vlog_record_example ! i) 0 6 0 = Some ((e, 0), ptr', remaining', s)
        \<and> e_value e = None
        \<and> vlog_annotation 0 (NoVlogPath \<noteq> NoVlogPath) = '' NO_VLOG_FILE''"
    using r2 nolink ann_no by auto
  let ?m = "\<lambda>i. vlog_records_example ! i"
  let ?path = "VlogPath (Some vlog_example)"
  have r3: "full_record example_hash ?ok ?path ?m 6 12 9 =
            Some ((vlog_entry 10 11 0x6C None, -2), 12, 6, 10)"
    by (simp add: full_record_def vlog_records_example_def vlog_entry_def eval_varint
        window_bytes_def vlog_example_reads)
  have r4: "full_record example_hash ?ok NoVlogPath ?m 0 18 0 =
            Some ((vlog_entry 9 0 0x6B None, 0), 6, 12, 9)"
    by (simp add: full_record_def vlog_records_example_def vlog_entry_def eval_varint
        window_bytes_def)
  have vflag: "e_flags (vlog_entry q o' k v) AND TDB_KV_FLAG_HAS_VLOG \<noteq> 0"
    "e_value_size (vlog_entry q o' k v) > 0" for q o' k v
    by (simp_all add: vlog_entry_def TDB_KV_FLAG_HAS_VLOG_def)
  have h3: "(0::nat) < 12 \<and> (1::int) < 1000
            \<and> full_record example_hash ?ok ?path ?m 6 12 9 =
                Some ((vlog_entry 10 11 0x6C None, -2), 12, 6, 10)
            \<and> e_flags (vlog_entry 10 11 0x6C None) AND TDB_KV_FLAG_HAS_VLOG \<noteq> 0
            \<and> e_value_size (vlog_entry 10 11 0x6C None) > 0"
    using r3 vflag by simp
  have h4: "(0::nat) < 18 \<and> (0::int) < 1000
            \<and> full_record example_hash ?ok NoVlogPath ?m 0 18 0 =
                Some ((vlog_entry 9 0 0x6B None, 0), 6, 12, 9)
            \<and> e_flags (vlog_entry 9 0 0x6B None) AND TDB_KV_FLAG_HAS_VLOG \<noteq> 0"
    using r4 vflag by simp
  note t3 = vlog_resolution_has_three_outcomes
    [where ?XXH32.0 = example_hash and malloc_ok = ?ok and vf = "Some vlog_example"
      and mem = ?m and ptr = 6 and remaining = 12 and prev_seq = 9
      and e = "vlog_entry 10 11 0x6C None" and vlog_status = "-2" and ptr' = 12
      and remaining' = 6 and s = 10 and limit = 1000 and total_entries = 1
      and block_num = 0 and checksum_ok = True and out = "[]"]
  note t4 = vlog_resolution_has_three_outcomes
    [where ?XXH32.0 = example_hash and malloc_ok = ?ok
      and mem = ?m and ptr = 0 and remaining = 18 and prev_seq = 0
      and e = "vlog_entry 9 0 0x6B None" and vlog_status = 0 and ptr' = 6
      and remaining' = 12 and s = 9 and limit = 1000 and total_entries = 0
      and block_num = 0 and checksum_ok = True and out = "[]"]
  note t5 = vlog_resolution_has_three_outcomes
    [where ?XXH32.0 = example_hash and malloc_ok = ?ok and ?arg2.0 = "Some (True, 0, False)"
      and ?arg3.0 = None and vlog_file = "Some vlog_example" and klog = "Some klog_vlog_example"]
  note t6 = vlog_resolution_has_three_outcomes
    [where ?XXH32.0 = example_hash and malloc_ok = ?ok and ?arg2.0 = None
      and ?arg3.0 = None and vlog_file = None and klog = "Some klog_vlog_example"]
  note step_path = t3 [THEN conjunct2, THEN conjunct2, THEN conjunct2, THEN conjunct2,
    THEN conjunct2, THEN conjunct2, THEN conjunct2, THEN conjunct2, THEN conjunct2,
    THEN conjunct2, THEN conjunct2, THEN conjunct1, THEN mp, OF h3]
  note step_none = t4 [THEN conjunct2, THEN conjunct2, THEN conjunct2, THEN conjunct2,
    THEN conjunct2, THEN conjunct2, THEN conjunct2, THEN conjunct2, THEN conjunct2,
    THEN conjunct2, THEN conjunct2, THEN conjunct2, THEN conjunct1, THEN mp, OF h4]
  note lines_path = t5 [THEN conjunct2, THEN conjunct2, THEN conjunct2, THEN conjunct2,
    THEN conjunct2, THEN conjunct2, THEN conjunct2, THEN conjunct2, THEN conjunct2,
    THEN conjunct2, THEN conjunct2, THEN conjunct2, THEN conjunct2,
    unfolded klog_vlog_example_lines]
  note lines_none = t6 [THEN conjunct2, THEN conjunct2, THEN conjunct2, THEN conjunct2,
    THEN conjunct2, THEN conjunct2, THEN conjunct2, THEN conjunct2, THEN conjunct2,
    THEN conjunct2, THEN conjunct2, THEN conjunct2, THEN conjunct2,
    unfolded klog_vlog_example_lines]
  have w8: "full_block_loop example_hash ?ok ?path ?m 1000 0 True 6 12 9 1 [] =
            full_block_loop example_hash ?ok ?path ?m 1000 0 True 12 6 10 2
              [vlog_line 2 (-2) '' CHECKSUM_ERR'' (vlog_entry 10 11 0x6C None)]"
    using step_path by (simp add: vlog_line_def vlog_entry_def vlog_example_reads)
  have w9: "full_block_loop example_hash ?ok NoVlogPath ?m 1000 0 True 0 18 0 0 [] =
            full_block_loop example_hash ?ok NoVlogPath ?m 1000 0 True 6 12 9 1
              [vlog_line 1 0 '' NO_VLOG_FILE'' (vlog_entry 9 0 0x6B None)]"
    using step_none by (simp add: vlog_line_def vlog_entry_def)
  have w10: "map (\<lambda>l. (fl_vlog_status l, fl_vlog_note l, e_value (fl_entry l)))
       (fr_lines (cmd_sstable_dump_full example_hash ?ok (Some (True, 0, False)) None
                    (Some vlog_example) (Some klog_vlog_example))) =
     [(fst (read_vlog_value example_hash ?ok (Some vlog_example) 0 3), [],
       snd (read_vlog_value example_hash ?ok (Some vlog_example) 0 3)),
      (fst (read_vlog_value example_hash ?ok (Some vlog_example) 11 3),
       '' CHECKSUM_ERR'', None),
      (fst (read_vlog_value example_hash ?ok (Some vlog_example) 22 3),
       '' READ_ERR'', None)]"
    using lines_path
    by (simp add: klog_vlog_example_lines vlog_line_def vlog_entry_def
        TDB_KV_FLAG_HAS_VLOG_def)
  have w11: "map fl_vlog_note
       (fr_lines (cmd_sstable_dump_full example_hash ?ok None None None
                    (Some klog_vlog_example))) =
     ['' NO_VLOG_FILE'', '' NO_VLOG_FILE'', '' NO_VLOG_FILE'']"
    using lines_none
    by (simp add: klog_vlog_example_lines vlog_line_def vlog_entry_def
        TDB_KV_FLAG_HAS_VLOG_def)
  from w1 s0(2) w3 w4 w5 w6 w7 w8 w9 w10 w11 show ?thesis
    by (intro conjI)
qed

section \<open>The expected value size\<close>

text \<open>
  C10.  \<open>read_vlog_value\<close> gives the same result for any two expected value
  sizes.  When it succeeds, the number it returns is the payload length declared
  in the header on disk and the payload handed out has that length; so the value
  the full dump attaches to a value-log record has the stored length, whatever
  size the record announces.
\<close>

theorem vlog_resolution_ignores_expected_size:
  "read_vlog_value XXH32 malloc_ok vlog vlog_offset value_size =
     read_vlog_value XXH32 malloc_ok vlog vlog_offset value_size'
   \<and> (0 < fst (read_vlog_value XXH32 malloc_ok vlog vlog_offset value_size) \<longrightarrow>
      (\<exists>content data.
         vlog = Some content
         \<and> fst (read_vlog_value XXH32 malloc_ok vlog vlog_offset value_size)
             = uint (decode_uint32_le (pread content 8 (unat vlog_offset)))
         \<and> snd (read_vlog_value XXH32 malloc_ok vlog vlog_offset value_size) = Some data
         \<and> int (length data) = fst (read_vlog_value XXH32 malloc_ok vlog vlog_offset value_size)))
   \<and> (full_record XXH32 malloc_ok (VlogPath vf) mem ptr remaining prev_seq =
         Some ((e, vlog_status), ptr', remaining', s)
       \<and> e_flags e AND TDB_KV_FLAG_HAS_VLOG \<noteq> 0 \<and> e_value_size e > 0 \<and> 0 < vlog_status \<longrightarrow>
       (\<exists>content data.
          vf = Some content
          \<and> vlog_status = uint (decode_uint32_le (pread content 8 (unat (e_vlog_offset e))))
          \<and> e_value e = Some data \<and> int (length data) = vlog_status))"
proof -
  have indep: "read_vlog_value XXH32 malloc_ok vlog vlog_offset value_size =
     read_vlog_value XXH32 malloc_ok vlog vlog_offset value_size'"
    by (simp add: read_vlog_value_def)
  have len: "\<exists>content data.
         v = Some content
         \<and> fst (read_vlog_value XXH32 malloc_ok v off n)
             = uint (decode_uint32_le (pread content 8 (unat off)))
         \<and> snd (read_vlog_value XXH32 malloc_ok v off n) = Some data
         \<and> int (length data) = fst (read_vlog_value XXH32 malloc_ok v off n)"
    if "0 < fst (read_vlog_value XXH32 malloc_ok v off n)" for v off n
  proof -
    from that [unfolded read_vlog_value_success]
    obtain content block_size stored_checksum data where
      v: "v = Some content"
      and blk: "block_at malloc_ok content (unat off) = Some (block_size, stored_checksum, data)"
      and r: "read_vlog_value XXH32 malloc_ok v off n = (uint block_size, Some data)"
      by blast
    have a: "fst (read_vlog_value XXH32 malloc_ok v off n) =
               uint (decode_uint32_le (pread content 8 (unat off)))"
      unfolding r block_at_Some(2) [OF blk, symmetric] by simp
    have b: "snd (read_vlog_value XXH32 malloc_ok v off n) = Some data"
      unfolding r by simp
    have "int (length data) = uint block_size"
      unfolding block_at_Some(7) [OF blk] by (rule uint_nat [symmetric])
    then have c: "int (length data) = fst (read_vlog_value XXH32 malloc_ok v off n)"
      unfolding r by simp
    from v a b c show ?thesis
      by (intro exI [of _ content] exI [of _ data] conjI)
  qed
  have caller: "full_record XXH32 malloc_ok (VlogPath vf) mem ptr remaining prev_seq =
         Some ((e, vlog_status), ptr', remaining', s)
       \<and> e_flags e AND TDB_KV_FLAG_HAS_VLOG \<noteq> 0 \<and> e_value_size e > 0 \<and> 0 < vlog_status \<longrightarrow>
       (\<exists>content data.
          vf = Some content
          \<and> vlog_status = uint (decode_uint32_le (pread content 8 (unat (e_vlog_offset e))))
          \<and> e_value e = Some data \<and> int (length data) = vlog_status)"
  proof
    assume h: "full_record XXH32 malloc_ok (VlogPath vf) mem ptr remaining prev_seq =
         Some ((e, vlog_status), ptr', remaining', s)
       \<and> e_flags e AND TDB_KV_FLAG_HAS_VLOG \<noteq> 0 \<and> e_value_size e > 0 \<and> 0 < vlog_status"
    then have rec: "full_record XXH32 malloc_ok (VlogPath vf) mem ptr remaining prev_seq =
         Some ((e, vlog_status), ptr', remaining', s)"
      and fl: "e_flags e AND TDB_KV_FLAG_HAS_VLOG \<noteq> 0" and vs: "e_value_size e > 0"
      and pos: "0 < vlog_status"
      by blast+
    note link = full_record_vlog [OF rec fl vs]
    from len [of vf "e_vlog_offset e" "unat (e_value_size e)"] pos link
    show "\<exists>content data.
          vf = Some content
          \<and> vlog_status = uint (decode_uint32_le (pread content 8 (unat (e_vlog_offset e))))
          \<and> e_value e = Some data \<and> int (length data) = vlog_status"
      by simp
  qed
  from indep len [of vlog vlog_offset value_size] caller show ?thesis
    by blast
qed

text \<open>
  A record that announces a value of 5 bytes and points to the block of 3 bytes
  at offset 0 of the value log above: the value is resolved, with 3 bytes.
\<close>

theorem vlog_resolution_ignores_expected_size_witness:
  "read_vlog_value example_hash (\<lambda>n. True) (Some vlog_example) 0 5 =
     read_vlog_value example_hash (\<lambda>n. True) (Some vlog_example) 0 3
   \<and> (\<exists>data. snd (read_vlog_value example_hash (\<lambda>n. True) (Some vlog_example) 0 5) = Some data
         \<and> int (length data) = 3)
   \<and> (\<exists>e data ptr' remaining' s.
        full_record example_hash (\<lambda>n. True) (VlogPath (Some vlog_example))
          (\<lambda>i. [0x04, 0x01, 0x05, 0x09, 0x00, 0x6B] ! i) 0 6 0
          = Some ((e, 3), ptr', remaining', s)
        \<and> e_value_size e = 5 \<and> e_value e = Some data \<and> int (length data) = 3)"
proof -
  let ?ok = "\<lambda>n :: nat. True"
  let ?mem = "\<lambda>i. [0x04, 0x01, 0x05, 0x09, 0x00, 0x6B :: u8] ! i"
  let ?e = "\<lparr>e_flags = 0x04, e_key_size = 1, e_value_size = 5, e_seq_value = 9, e_seq = 9,
              e_ttl = 0, e_vlog_offset = 0, e_key = [0x6B],
              e_value = Some [0x61, 0x62, 0x63]\<rparr>"
  note t = vlog_resolution_ignores_expected_size
    [where ?XXH32.0 = example_hash and malloc_ok = ?ok and vlog = "Some vlog_example"
      and vlog_offset = 0 and value_size = 5 and value_size' = 3
      and vf = "Some vlog_example" and mem = ?mem and ptr = 0 and remaining = 6
      and prev_seq = 0 and e = ?e and vlog_status = 3 and ptr' = 6 and remaining' = 0
      and s = 9]
  have r5: "read_vlog_value example_hash ?ok (Some vlog_example) 0 5 =
            (3, Some [0x61, 0x62, 0x63])"
    using t [THEN conjunct1] by (simp add: vlog_example_reads)
  have pos: "0 < fst (read_vlog_value example_hash ?ok (Some vlog_example) 0 5)"
    by (simp add: r5)
  from t [THEN conjunct2, THEN conjunct1, THEN mp, OF pos]
  have w2: "\<exists>data. snd (read_vlog_value example_hash ?ok (Some vlog_example) 0 5) = Some data
              \<and> int (length data) = 3"
    by (auto simp: r5)
  have rec: "full_record example_hash ?ok (VlogPath (Some vlog_example)) ?mem 0 6 0 =
             Some ((?e, 3), 6, 0, 9)"
    by (simp add: full_record_def eval_varint window_bytes_def r5)
  have h: "full_record example_hash ?ok (VlogPath (Some vlog_example)) ?mem 0 6 0 =
             Some ((?e, 3), 6, 0, 9)
           \<and> e_flags ?e AND TDB_KV_FLAG_HAS_VLOG \<noteq> 0 \<and> e_value_size ?e > 0 \<and> (0::int) < 3"
    using rec by (simp add: TDB_KV_FLAG_HAS_VLOG_def)
  from t [THEN conjunct2, THEN conjunct2, THEN mp, OF h]
  obtain data where "e_value ?e = Some data" "int (length data) = 3"
    by blast
  with rec have w3: "\<exists>e data ptr' remaining' s.
        full_record example_hash ?ok (VlogPath (Some vlog_example)) ?mem 0 6 0
          = Some ((e, 3), ptr', remaining', s)
        \<and> e_value_size e = 5 \<and> e_value e = Some data \<and> int (length data) = 3"
    by (intro exI [of _ ?e] exI [of _ data] exI [of _ 6] exI [of _ 0] exI [of _ 9]) simp
  from t [THEN conjunct1] w2 w3 show ?thesis
    by (intro conjI)
qed

section \<open>Fill ratio and estimated false-positive rate\<close>

text \<open>
  The population count of a word: the number of bit positions that are set.
\<close>

definition population_count :: "u64 \<Rightarrow> nat" where
  "population_count word = length (filter (bit word) [0..<64])"

lemma population_count_le: "population_count word \<le> 64"
  using length_filter_le [of "bit word" "[0..<64]"] by (simp add: population_count_def)

lemma population_count_0: "population_count 0 = 0"
  by (simp add: population_count_def)

lemma population_count_step:
  "population_count word = (if bit word 0 then 1 else 0) + population_count (drop_bit 1 word)"
proof -
  have top: "\<not> bit word (64 :: nat)"
    using bit_imp_le_length [of word 64] by auto
  have "[0..<64] = 0 # map Suc [0..<63]"
    by (simp add: upt_conv_Cons map_Suc_upt)
  then have "population_count word =
             (if bit word 0 then 1 else 0) + length (filter (bit word) (map Suc [0..<63]))"
    by (simp add: population_count_def)
  also have "length (filter (bit word) (map Suc [0..<63])) =
             length (filter (\<lambda>k. bit word (Suc k)) [0..<63])"
    by (simp add: filter_map comp_def)
  also have "\<dots> = length (filter (\<lambda>k. bit word (Suc k)) [0..<64])"
  proof -
    have "[0..<64] = [0..<63] @ [63 :: nat]"
      using upt_Suc_append [of 0 63] by simp
    then show ?thesis
      using top by simp
  qed
  also have "\<dots> = population_count (drop_bit 1 word)"
    by (simp add: population_count_def bit_drop_bit_eq comp_def)
  finally show ?thesis .
qed

lemma count_word_eq:
  "count_word word bits_set = bits_set + of_nat (population_count word)"
proof (induction word bits_set rule: count_word.induct)
  case (1 word bits_set)
  show ?case
  proof (cases "word = 0")
    case True
    then show ?thesis
      by (simp add: count_word.simps [of 0] population_count_0)
  next
    case False
    have bit0: "word AND 1 = (if bit word 0 then 1 else 0)"
      by (simp add: and_one_eq bit_0 mod_2_eq_odd)
    from "1.IH" [OF False] False show ?thesis
      by (subst count_word.simps)
        (simp add: bit0 population_count_step [of word])
  qed
qed

text \<open>
  The loop over the words adds up their population counts; the sum stays far below
  \<open>2 ^ 64\<close>, so the 64-bit counter holds it.
\<close>

lemma count_bits_eq:
  "i \<le> size_in_words \<Longrightarrow>
   count_bits bitset size_in_words i bits_set =
     bits_set + of_nat (\<Sum>k = unat i..<unat size_in_words. population_count (bitset k))"
proof (induction bitset size_in_words i bits_set rule: count_bits.induct)
  case (1 bitset size_in_words i bits_set)
  note unfold = count_bits.simps [of bitset size_in_words i bits_set]
  show ?case
  proof (cases "i < size_in_words")
    case False
    with "1.prems" have "i = size_in_words"
      by simp
    then show ?thesis
      unfolding unfold by simp
  next
    case True
    then have le: "i + 1 \<le> size_in_words"
      by (simp add: inc_le)
    have suc: "unat (i + 1) = Suc (unat i)"
      using unat_index_Suc [OF True] by simp
    have lt: "unat i < unat size_in_words"
      using True by (simp add: word_less_nat_alt)
    have split: "(\<Sum>k = unat i..<unat size_in_words. population_count (bitset k)) =
                 population_count (bitset (unat i))
                 + (\<Sum>k = Suc (unat i)..<unat size_in_words. population_count (bitset k))"
      using lt by (simp add: sum.atLeast_Suc_lessThan)
    from "1.IH" [OF True le] True show ?thesis
      unfolding unfold by (simp add: count_word_eq suc split)
  qed
qed

lemma population_sum_le:
  "(\<Sum>k = 0..<n. population_count (bitset k)) \<le> 64 * n"
  using sum_bounded_above [of "{0..<n}" "\<lambda>k. population_count (bitset k)" 64]
  by (simp add: population_count_le)

lemma count_bits_unat:
  "unat (count_bits bitset size_in_words 0 0) =
     (\<Sum>k = 0..<unat size_in_words. population_count (bitset k))"
proof -
  let ?s = "\<Sum>k = 0..<unat size_in_words. population_count (bitset k)"
  have "unat size_in_words < 2 ^ 32"
    using unsigned_less [of size_in_words] by simp
  with population_sum_le [of bitset "unat size_in_words"] have "?s < 64 * 2 ^ 32"
    by simp
  then have "?s < 2 ^ LENGTH(64)"
    by simp
  then have "?s mod 2 ^ LENGTH(64) = ?s"
    by (rule mod_less)
  moreover have "unat (of_nat ?s :: u64) = ?s mod 2 ^ LENGTH(64)"
    by (rule unat_of_nat)
  moreover have "count_bits bitset size_in_words 0 0 = of_nat ?s"
    by (simp add: count_bits_eq del: of_nat_sum)
  ultimately show ?thesis
    by simp
qed

text \<open>
  The finite values of a \<open>double\<close> are the numbers \<open>k * 2 ^ e\<close> with
  \<open>\<bar>k\<bar> < 2 ^ 53\<close> and \<open>-1074 \<le> e \<le> 971\<close>.
\<close>

definition is_double :: "real \<Rightarrow> bool" where
  "is_double x =
     (\<exists>(k :: int) (n :: nat). \<bar>k\<bar> < 2 ^ 53
        \<and> (n \<le> 971 \<and> x = real_of_int k * 2 ^ n \<or> n \<le> 1074 \<and> x = real_of_int k / 2 ^ n))"

text \<open>
  What is assumed of the rounding: it is monotone and leaves every \<open>double\<close>
  as it is.  Each rounding mode of IEEE 754 is of this kind on the finite range.
\<close>

definition ieee_rounding :: "rounding \<Rightarrow> bool" where
  "ieee_rounding rnd = (mono rnd \<and> (\<forall>x. is_double x \<longrightarrow> rnd x = x))"

text \<open>
  What is assumed of \<open>pow\<close>, for the example only: a power with a natural
  exponent that is a \<open>double\<close> is returned exactly.
\<close>

definition exact_pow :: "libm_pow \<Rightarrow> bool" where
  "exact_pow pow =
     (\<forall>x n. is_double x \<and> is_double (x ^ n) \<longrightarrow>
        pow (Finite x) (Finite (real n)) = Finite (x ^ n))"

lemma is_double_nat:
  assumes "n < 2 ^ 53"
  shows "is_double (real n)"
  unfolding is_double_def
  using assms by (intro exI [of _ "int n"] exI [of _ "0 :: nat"]) simp

lemma is_double_fraction:
  assumes "\<bar>k\<bar> < 2 ^ 53" and "n \<le> 1074"
  shows "is_double (real_of_int k / 2 ^ n)"
  unfolding is_double_def
  using assms by (intro exI [of _ k] exI [of _ n]) simp

lemma is_double_half: "is_double (1 / 2)"
  using is_double_fraction [of 1 1] by simp

lemma is_double_above_half: "is_double (1 / 2 + 1 / 2 ^ 34)"
proof -
  have "(1 / 2 + 1 / 2 ^ 34 :: real) = real_of_int (2 ^ 33 + 1) / 2 ^ 34"
    by simp
  moreover have "is_double (real_of_int (2 ^ 33 + 1) / 2 ^ 34)"
    by (rule is_double_fraction) simp_all
  ultimately show ?thesis
    by simp
qed

lemma double_of_nat_exact:
  assumes "ieee_rounding rnd" and "n < 2 ^ 53"
  shows "double_of_nat rnd n = real n"
  using assms is_double_nat [of n] by (simp add: ieee_rounding_def double_of_nat_def)

text \<open>
  The comparison of the rounded quotient with \<open>0.5\<close> decides as the exact
  quotient does.
\<close>

lemma rounded_quotient_above_half:
  assumes r: "ieee_rounding rnd" and m: "0 < m" "m < 2 ^ 32"
  shows "(1 / 2 < rnd (real b / real m)) = (m < 2 * b)"
proof (cases "m < 2 * b")
  case True
  then have "m + 1 \<le> 2 * b"
    by simp
  then have "real (m + 1) \<le> real (2 * b)"
    by (rule of_nat_mono)
  then have "real m + 1 \<le> 2 * real b"
    by simp
  then have "(real m + 1) / (2 * real m) \<le> (2 * real b) / (2 * real m)"
    by (intro divide_right_mono) simp_all
  moreover have "1 / 2 + 1 / (2 * real m) = (real m + 1) / (2 * real m)"
    using m(1) by (simp add: field_simps)
  ultimately have quot: "1 / 2 + 1 / (2 * real m) \<le> real b / real m"
    by simp
  have "1 / 2 ^ 34 \<le> 1 / (2 * real m)"
  proof -
    have "real m < real (2 ^ 32)"
      using m(2) by (simp only: of_nat_less_iff)
    then have "2 * real m \<le> 2 ^ 34"
      by simp
    then show ?thesis
      using m(1) by (intro divide_left_mono) simp_all
  qed
  then have "1 / 2 + 1 / 2 ^ 34 \<le> 1 / 2 + 1 / (2 * real m)"
    by (rule add_left_mono)
  then have "1 / 2 + 1 / 2 ^ 34 \<le> real b / real m"
    using quot by (rule order_trans)
  moreover from r have "mono rnd"
    by (simp add: ieee_rounding_def)
  ultimately have "rnd (1 / 2 + 1 / 2 ^ 34) \<le> rnd (real b / real m)"
    by (simp only: mono_def)
  moreover have "rnd (1 / 2 + 1 / 2 ^ 34) = 1 / 2 + 1 / 2 ^ 34"
    using r is_double_above_half unfolding ieee_rounding_def by blast
  moreover have "(1 / 2 :: real) < 1 / 2 + 1 / 2 ^ 34"
    by simp
  ultimately have "1 / 2 < rnd (real b / real m)"
    by (simp only:)
  with True show ?thesis
    by simp
next
  case False
  then have "2 * b \<le> m"
    by simp
  then have "real (2 * b) \<le> real m"
    by (rule of_nat_mono)
  then have "2 * real b \<le> real m"
    by simp
  then have "real b / real m \<le> 1 / 2"
    using m(1) by (simp add: field_simps)
  with r have "rnd (real b / real m) \<le> rnd (1 / 2)"
    by (simp add: ieee_rounding_def mono_def)
  moreover have "rnd (1 / 2) = 1 / 2"
    using r is_double_half by (simp add: ieee_rounding_def)
  ultimately have "\<not> 1 / 2 < rnd (real b / real m)"
    by simp
  with False show ?thesis
    by simp
qed

lemma double_div_nonzero:
  "b \<noteq> 0 \<Longrightarrow> double_div rnd a b = Finite (rnd (a / b))"
  by (simp add: double_div_def)

lemma real_unat_nonzero:
  fixes x :: u32
  assumes "x \<noteq> 0"
  shows "real (unat x) \<noteq> 0"
proof -
  from assms have "unat x \<noteq> 0"
    by (simp add: unat_eq_0)
  then show ?thesis
    by (simp only: of_nat_eq_0_iff not_False_eq_True)
qed

lemma half_quotient:
  fixes b m :: nat
  assumes "m \<noteq> 0" and "2 * b = m"
  shows "real b / real m = 1 / 2"
  using assms by (auto simp: field_simps)

lemma warning_iff:
  assumes "ieee_rounding rnd" and "m < 2 ^ 32"
  shows "double_greater (double_div rnd (real b) (real m)) 0.5 = (m < 2 * b)"
proof (cases "m = 0")
  case True
  then show ?thesis
    by (cases "b = 0") (simp_all add: double_div_def double_greater_def)
next
  case False
  then have "0 < m"
    by simp
  from rounded_quotient_above_half [OF assms(1) this assms(2), of b] False show ?thesis
    by (simp add: double_div_def double_greater_def)
qed

lemma bloom_stats_bits:
  "unat (bs_bits_set (bloom_stats rnd pow bf)) =
     (\<Sum>k = 0..<unat (bf_size_in_words bf). population_count (bf_bitset bf k))"
  by (simp add: bloom_stats_def Let_def count_bits_unat)

lemma bloom_stats_bits_bound:
  "unat (bs_bits_set (bloom_stats rnd pow bf)) < 2 ^ 53"
proof -
  have "unat (bf_size_in_words bf) < 2 ^ 32"
    using unsigned_less [of "bf_size_in_words bf"] by simp
  with population_sum_le [of "bf_bitset bf" "unat (bf_size_in_words bf)"]
  have "(\<Sum>k = 0..<unat (bf_size_in_words bf). population_count (bf_bitset bf k)) < 2 ^ 53"
    by simp
  then show ?thesis
    by (simp only: bloom_stats_bits)
qed

lemma unat_u32_bound:
  fixes x :: u32
  shows "unat x < 2 ^ 32" and "unat x < 2 ^ 53"
proof -
  show "unat x < 2 ^ 32"
    using unsigned_less [of x] by simp
  then show "unat x < 2 ^ 53"
    by simp
qed

lemma bloom_stats_fill_ratio:
  assumes "ieee_rounding rnd"
  shows "bs_fill_ratio (bloom_stats rnd pow bf) =
           double_div rnd (real (unat (bs_bits_set (bloom_stats rnd pow bf))))
             (real (unat (bf_m bf)))"
proof -
  have "bs_fill_ratio (bloom_stats rnd pow bf) =
          double_div rnd (double_of_nat rnd (unat (bs_bits_set (bloom_stats rnd pow bf))))
            (double_of_nat rnd (unat (bf_m bf)))"
    by (simp add: bloom_stats_def Let_def)
  then show ?thesis
    by (simp only: double_of_nat_exact [OF assms bloom_stats_bits_bound]
        double_of_nat_exact [OF assms unat_u32_bound(2)])
qed

lemma bloom_stats_estimated_fpr:
  assumes "ieee_rounding rnd"
  shows "bs_estimated_fpr (bloom_stats rnd pow bf) =
           pow (bs_fill_ratio (bloom_stats rnd pow bf)) (Finite (real (unat (bf_h bf))))"
proof -
  have "bs_estimated_fpr (bloom_stats rnd pow bf) =
          pow (bs_fill_ratio (bloom_stats rnd pow bf))
            (Finite (double_of_nat rnd (unat (bf_h bf))))"
    by (simp add: bloom_stats_def Let_def)
  then show ?thesis
    by (simp only: double_of_nat_exact [OF assms unat_u32_bound(2)])
qed

lemma bloom_stats_warning:
  "bs_warning (bloom_stats rnd pow bf) =
     double_greater (bs_fill_ratio (bloom_stats rnd pow bf)) 0.5"
  by (simp add: bloom_stats_def Let_def)

lemma bloom_stats_percent:
  "bs_fill_percent (bloom_stats rnd pow bf) =
     double_mul rnd (bs_fill_ratio (bloom_stats rnd pow bf)) 100"
  "bs_fpr_percent (bloom_stats rnd pow bf) =
     double_mul rnd (bs_estimated_fpr (bloom_stats rnd pow bf)) 100"
  by (simp_all add: bloom_stats_def Let_def)

lemma bloom_stats_warning_iff:
  assumes "ieee_rounding rnd"
  shows "bs_warning (bloom_stats rnd pow bf) =
           (unat (bf_m bf) < 2 * unat (bs_bits_set (bloom_stats rnd pow bf)))"
  unfolding bloom_stats_warning bloom_stats_fill_ratio [OF assms]
  by (rule warning_iff [OF assms unat_u32_bound(1)])

lemma bloom_stats_half:
  assumes r: "ieee_rounding rnd" and m: "bf_m bf \<noteq> 0"
    and half: "2 * unat (bs_bits_set (bloom_stats rnd pow bf)) = unat (bf_m bf)"
  shows "bs_fill_ratio (bloom_stats rnd pow bf) = Finite 0.5"
    and "bs_fill_percent (bloom_stats rnd pow bf) = Finite 50"
    and "\<not> bs_warning (bloom_stats rnd pow bf)"
proof -
  let ?b = "unat (bs_bits_set (bloom_stats rnd pow bf))"
  from m have m': "unat (bf_m bf) \<noteq> 0"
    by (simp add: unat_eq_0)
  have q: "real ?b / real (unat (bf_m bf)) = 1 / 2"
    using m' half by (rule half_quotient)
  have id_half: "rnd (1 / 2) = 1 / 2"
    using r is_double_half unfolding ieee_rounding_def by blast
  have "bs_fill_ratio (bloom_stats rnd pow bf) = Finite (1 / 2)"
    unfolding bloom_stats_fill_ratio [OF r] double_div_nonzero [OF real_unat_nonzero [OF m]]
      q id_half ..
  then show ratio: "bs_fill_ratio (bloom_stats rnd pow bf) = Finite 0.5"
    by simp
  have "rnd 50 = 50"
    using r is_double_nat [of 50] unfolding ieee_rounding_def by fastforce
  then show "bs_fill_percent (bloom_stats rnd pow bf) = Finite 50"
    by (simp add: bloom_stats_percent ratio double_mul_def)
  show "\<not> bs_warning (bloom_stats rnd pow bf)"
    by (simp add: bloom_stats_warning_iff [OF r] half [symmetric])
qed

lemma bloom_stats_example:
  assumes r: "ieee_rounding rnd" and p: "exact_pow pow"
    and m: "unat (bf_m bf) = 1000"
    and b: "unat (bs_bits_set (bloom_stats rnd pow bf)) = 500"
    and h: "unat (bf_h bf) = 4"
  shows "bs_estimated_fpr (bloom_stats rnd pow bf) = Finite 0.0625"
    and "bs_fpr_percent (bloom_stats rnd pow bf) = Finite 6.25"
proof -
  from m have m': "bf_m bf \<noteq> 0"
    by auto
  have ratio: "bs_fill_ratio (bloom_stats rnd pow bf) = Finite (1 / 2)"
    using bloom_stats_half(1) [OF r m'] m b by simp
  have d: "is_double ((1 / 2) ^ 4)"
    using is_double_fraction [of 1 4] by (simp add: power_divide)
  from p is_double_half d
  have "pow (Finite (1 / 2)) (Finite (real 4)) = Finite ((1 / 2) ^ 4)"
    unfolding exact_pow_def by blast
  then show fpr: "bs_estimated_fpr (bloom_stats rnd pow bf) = Finite 0.0625"
    by (simp add: bloom_stats_estimated_fpr [OF r] ratio h power_divide)
  have "is_double (25 / 4)"
    using is_double_fraction [of 25 2] by simp
  with r have "rnd (25 / 4) = 25 / 4"
    unfolding ieee_rounding_def by blast
  then show "bs_fpr_percent (bloom_stats rnd pow bf) = Finite 6.25"
    by (simp add: bloom_stats_percent fpr double_mul_def)
qed

text \<open>
  C7.  Under a rounding that is monotone and exact on the values of a \<open>double\<close>:
  (1) \<open>bits_set\<close> is the population count of the \<open>size_in_words\<close> words of the
  bit array; (2) the fill ratio is the quotient \<open>bits_set / m\<close> of the two
  numbers, rounded (for \<open>m = 0\<close> the division gives not-a-number or an infinity);
  (3) the estimated false-positive rate is \<open>pow\<close> of the fill ratio and \<open>h\<close>;
  (4) the warning is printed exactly when the fill ratio is greater than \<open>0.5\<close>,
  and that is exactly when \<open>2 * bits_set > m\<close>: rounding moves no quotient
  across the boundary; (5) so a filter with exactly half of its \<open>m\<close> bits set has
  the fill ratio \<open>0.5\<close>, printed as the percentage 50, and no warning; (6) with a
  \<open>pow\<close> that returns exactly the powers that are values of a \<open>double\<close>, the
  filter with \<open>m = 1000\<close>, 500 bits set and \<open>h = 4\<close> has the estimated
  false-positive rate \<open>0.0625\<close>; (7) these are the figures the command reports
  for the filter in the second block from the last.
\<close>

theorem bloom_fill_ratio_and_warning:
  "ieee_rounding rnd \<Longrightarrow>
   unat (bs_bits_set (bloom_stats rnd pow bf)) =
     (\<Sum>k = 0..<unat (bf_size_in_words bf). population_count (bf_bitset bf k))
   \<and> bs_fill_ratio (bloom_stats rnd pow bf) =
       double_div rnd (real (unat (bs_bits_set (bloom_stats rnd pow bf))))
         (real (unat (bf_m bf)))
   \<and> (bf_m bf \<noteq> 0 \<longrightarrow>
       bs_fill_ratio (bloom_stats rnd pow bf) =
         Finite (rnd (real (unat (bs_bits_set (bloom_stats rnd pow bf)))
                      / real (unat (bf_m bf)))))
   \<and> bs_estimated_fpr (bloom_stats rnd pow bf) =
       pow (bs_fill_ratio (bloom_stats rnd pow bf)) (Finite (real (unat (bf_h bf))))
   \<and> bs_warning (bloom_stats rnd pow bf) =
       double_greater (bs_fill_ratio (bloom_stats rnd pow bf)) 0.5
   \<and> bs_warning (bloom_stats rnd pow bf) =
       (unat (bf_m bf) < 2 * unat (bs_bits_set (bloom_stats rnd pow bf)))
   \<and> (bf_m bf \<noteq> 0 \<and> 2 * unat (bs_bits_set (bloom_stats rnd pow bf)) = unat (bf_m bf) \<longrightarrow>
       bs_fill_ratio (bloom_stats rnd pow bf) = Finite 0.5
       \<and> bs_fill_percent (bloom_stats rnd pow bf) = Finite 50
       \<and> \<not> bs_warning (bloom_stats rnd pow bf))
   \<and> (exact_pow pow \<and> unat (bf_m bf) = 1000
       \<and> unat (bs_bits_set (bloom_stats rnd pow bf)) = 500 \<and> unat (bf_h bf) = 4 \<longrightarrow>
       bs_fill_ratio (bloom_stats rnd pow bf) = Finite 0.5
       \<and> bs_fill_percent (bloom_stats rnd pow bf) = Finite 50
       \<and> bs_estimated_fpr (bloom_stats rnd pow bf) = Finite 0.0625
       \<and> bs_fpr_percent (bloom_stats rnd pow bf) = Finite 6.25
       \<and> \<not> bs_warning (bloom_stats rnd pow bf))
   \<and> (3 \<le> length cursor \<and> snd (cursor ! (length cursor - 2)) = Some bloom_block
       \<and> blk_size bloom_block \<noteq> 0
       \<and> bloom_filter_deserialize (blk_data bloom_block) = Some bf \<longrightarrow>
       cmd_bloom_stats rnd pow bloom_filter_deserialize (Opened cursor) =
         (0, BloomStatistics (bloom_stats rnd pow bf)))"
proof -
  assume r: "ieee_rounding rnd"
  let ?s = "bloom_stats rnd pow bf"
  have c3: "bf_m bf \<noteq> 0 \<longrightarrow>
       bs_fill_ratio ?s = Finite (rnd (real (unat (bs_bits_set ?s)) / real (unat (bf_m bf))))"
  proof
    assume "bf_m bf \<noteq> 0"
    then have "real (unat (bf_m bf)) \<noteq> 0"
      by (rule real_unat_nonzero)
    then show "bs_fill_ratio ?s =
        Finite (rnd (real (unat (bs_bits_set ?s)) / real (unat (bf_m bf))))"
      unfolding bloom_stats_fill_ratio [OF r] by (rule double_div_nonzero)
  qed
  have c7: "bf_m bf \<noteq> 0 \<and> 2 * unat (bs_bits_set ?s) = unat (bf_m bf) \<longrightarrow>
       bs_fill_ratio ?s = Finite 0.5 \<and> bs_fill_percent ?s = Finite 50 \<and> \<not> bs_warning ?s"
    using bloom_stats_half [OF r, of bf pow] by blast
  have c8: "exact_pow pow \<and> unat (bf_m bf) = 1000 \<and> unat (bs_bits_set ?s) = 500
       \<and> unat (bf_h bf) = 4 \<longrightarrow>
       bs_fill_ratio ?s = Finite 0.5 \<and> bs_fill_percent ?s = Finite 50
       \<and> bs_estimated_fpr ?s = Finite 0.0625 \<and> bs_fpr_percent ?s = Finite 6.25
       \<and> \<not> bs_warning ?s"
  proof (intro impI)
    assume a: "exact_pow pow \<and> unat (bf_m bf) = 1000 \<and> unat (bs_bits_set ?s) = 500
       \<and> unat (bf_h bf) = 4"
    then have m: "bf_m bf \<noteq> 0" and half: "2 * unat (bs_bits_set ?s) = unat (bf_m bf)"
      by auto
    from a have p: "exact_pow pow" and m1: "unat (bf_m bf) = 1000"
      and b: "unat (bs_bits_set ?s) = 500" and h: "unat (bf_h bf) = 4"
      by simp_all
    from bloom_stats_half [OF r m half] bloom_stats_example [OF r p m1 b h]
    show "bs_fill_ratio ?s = Finite 0.5 \<and> bs_fill_percent ?s = Finite 50
       \<and> bs_estimated_fpr ?s = Finite 0.0625 \<and> bs_fpr_percent ?s = Finite 6.25
       \<and> \<not> bs_warning ?s"
      by (intro conjI)
  qed
  have c9: "3 \<le> length cursor \<and> snd (cursor ! (length cursor - 2)) = Some bloom_block
       \<and> blk_size bloom_block \<noteq> 0
       \<and> bloom_filter_deserialize (blk_data bloom_block) = Some bf \<longrightarrow>
       cmd_bloom_stats rnd pow bloom_filter_deserialize (Opened cursor) =
         (0, BloomStatistics ?s)"
    by (simp add: cmd_bloom_stats_def)
  from bloom_stats_bits [of rnd pow bf] bloom_stats_fill_ratio [OF r, of pow bf] c3
    bloom_stats_estimated_fpr [OF r, of pow bf] bloom_stats_warning [of rnd pow bf]
    bloom_stats_warning_iff [OF r, of pow bf] c7 c8 c9
  show ?thesis
    by (intro conjI)
qed

text \<open>
  Two filters of 1000 bits in 16 words with 4 hash rounds: the first has 500 bits
  set (seven full words and the 52 low bits of the eighth), the second 501.  A
  power function that is exact on finite arguments stands in for \<open>pow\<close>.
\<close>

definition bloom_example :: "nat \<Rightarrow> bloom_filter" where
  "bloom_example n =
     \<lparr>bf_m = 1000, bf_h = 4,
      bf_bitset = (\<lambda>i. if i < 7 then mask 64 else if i = 7 then mask n else 0),
      bf_size_in_words = 16\<rparr>"

definition example_pow :: libm_pow where
  "example_pow x y =
     (case (x, y) of
        (Finite a, Finite b) \<Rightarrow> Finite (a ^ nat \<lfloor>b\<rfloor>)
      | _ \<Rightarrow> NaN)"

lemma bloom_example_bits:
  "unat (count_bits (bf_bitset (bloom_example 52)) 16 0 0) = 500"
  "unat (count_bits (bf_bitset (bloom_example 53)) 16 0 0) = 501"
  by code_simp+

theorem bloom_fill_ratio_and_warning_witness:
  "unat (bs_bits_set (bloom_stats (\<lambda>x. x) example_pow (bloom_example 52))) = 500
   \<and> bs_fill_ratio (bloom_stats (\<lambda>x. x) example_pow (bloom_example 52)) = Finite 0.5
   \<and> bs_fill_percent (bloom_stats (\<lambda>x. x) example_pow (bloom_example 52)) = Finite 50
   \<and> bs_estimated_fpr (bloom_stats (\<lambda>x. x) example_pow (bloom_example 52)) = Finite 0.0625
   \<and> bs_fpr_percent (bloom_stats (\<lambda>x. x) example_pow (bloom_example 52)) = Finite 6.25
   \<and> \<not> bs_warning (bloom_stats (\<lambda>x. x) example_pow (bloom_example 52))
   \<and> unat (bs_bits_set (bloom_stats (\<lambda>x. x) example_pow (bloom_example 53))) = 501
   \<and> bs_warning (bloom_stats (\<lambda>x. x) example_pow (bloom_example 53))
   \<and> cmd_bloom_stats (\<lambda>x. x) example_pow
        (\<lambda>mem. if mem 0 = 2 then Some (bloom_example 52) else None)
        (Opened [(8, Some (block_of [1])), (30, Some (block_of [2])),
                 (52, Some (block_of [3]))]) =
      (0, BloomStatistics (bloom_stats (\<lambda>x. x) example_pow (bloom_example 52)))"
proof -
  let ?rnd = "\<lambda>x :: real. x"
  let ?de = "\<lambda>mem :: memory. if mem 0 = 2 then Some (bloom_example 52) else None"
  let ?cursor = "[(8 :: u64, Some (block_of [1])), (30, Some (block_of [2])),
                  (52, Some (block_of [3]))]"
  have r: "ieee_rounding ?rnd"
    by (simp add: ieee_rounding_def mono_def)
  have p: "exact_pow example_pow"
    by (simp add: exact_pow_def example_pow_def)
  have sel: "bs_bits_set (bloom_stats ?rnd example_pow (bloom_example n)) =
             count_bits (bf_bitset (bloom_example n)) 16 0 0" for n
    by (simp add: bloom_stats_def Let_def bloom_example_def)
  have b52: "unat (bs_bits_set (bloom_stats ?rnd example_pow (bloom_example 52))) = 500"
    and b53: "unat (bs_bits_set (bloom_stats ?rnd example_pow (bloom_example 53))) = 501"
    unfolding sel by (fact bloom_example_bits)+
  have m: "unat (bf_m (bloom_example n)) = 1000" and h: "unat (bf_h (bloom_example n)) = 4"
    for n
    by (simp_all add: bloom_example_def)
  note t52 = bloom_fill_ratio_and_warning
    [OF r, where pow = example_pow and bf = "bloom_example 52" and cursor = ?cursor
      and bloom_block = "block_of [2]" and bloom_filter_deserialize = ?de]
  note t53 = bloom_fill_ratio_and_warning
    [OF r, where pow = example_pow and bf = "bloom_example 53"]
  have h8: "exact_pow example_pow \<and> unat (bf_m (bloom_example 52)) = 1000
       \<and> unat (bs_bits_set (bloom_stats ?rnd example_pow (bloom_example 52))) = 500
       \<and> unat (bf_h (bloom_example 52)) = 4"
    using p m h b52 by (intro conjI)
  have h9: "3 \<le> length ?cursor \<and> snd (?cursor ! (length ?cursor - 2)) = Some (block_of [2])
       \<and> blk_size (block_of [2]) \<noteq> 0
       \<and> ?de (blk_data (block_of [2])) = Some (bloom_example 52)"
    by (simp add: block_of_def)
  note c8 = t52 [THEN conjunct2, THEN conjunct2, THEN conjunct2, THEN conjunct2,
    THEN conjunct2, THEN conjunct2, THEN conjunct2, THEN conjunct1, THEN mp, OF h8]
  note c9 = t52 [THEN conjunct2, THEN conjunct2, THEN conjunct2, THEN conjunct2,
    THEN conjunct2, THEN conjunct2, THEN conjunct2, THEN conjunct2, THEN mp, OF h9]
  note w53 = t53 [THEN conjunct2, THEN conjunct2, THEN conjunct2, THEN conjunct2,
    THEN conjunct2, THEN conjunct1]
  have warn: "bs_warning (bloom_stats ?rnd example_pow (bloom_example 53))"
    unfolding w53 b53 m by simp
  from b52 c8 [THEN conjunct1] c8 [THEN conjunct2, THEN conjunct1]
    c8 [THEN conjunct2, THEN conjunct2, THEN conjunct1]
    c8 [THEN conjunct2, THEN conjunct2, THEN conjunct2, THEN conjunct1]
    c8 [THEN conjunct2, THEN conjunct2, THEN conjunct2, THEN conjunct2]
    b53 warn c9
  show ?thesis
    by (intro conjI)
qed

end
